(* ===== verification/Prelude.thy ===== *)
theory Prelude
  imports Main "HOL-Library.Word" "HOL-Library.Monad_Syntax"
begin

unbundle bit_operations_syntax

text \<open>
  What every component shares: Go's fixed-width values, its run-time panics, its indexing and
  slicing, its counted loops, and generic facts on lists.

  \<^item> Stored integers keep their width: \<open>int16\<close> is a 16-bit word read with \<^const>\<open>sint\<close>,
    \<open>uint32\<close>, \<open>uint64\<close> and \<open>uint8\<close> are words read with \<^const>\<open>unat\<close>.
  \<^item> \<open>int64\<close> and \<open>int\<close> (64 bits on the target) are \<^typ>\<open>int\<close>; an arithmetic operation whose
    result could leave the range is wrapped by \<open>wrap64\<close>, Go's two's complement overflow.
    Indices that the code only ever counts up from zero are \<^typ>\<open>nat\<close>.
  \<^item> A run-time panic (an index or a slice out of range), and a read through an unsafe pointer
    outside its array, is the value \<^const>\<open>None\<close>; \<^const>\<open>Some\<close> is a normal return. An error the
    code returns is a value of a sum inside it.
\<close>

subsection \<open>Types\<close>

type_synonym i16 = "16 word"
type_synonym u8 = "8 word"
type_synonym u32 = "32 word"
type_synonym u64 = "64 word"

named_theorems go_ok \<open>operations of the Go run time that return normally\<close>

subsection \<open>Signed 64-bit arithmetic\<close>

definition wrap64 :: "int \<Rightarrow> int" where
  "wrap64 x = signed_take_bit 63 x"

definition add64 :: "int \<Rightarrow> int \<Rightarrow> int" where
  "add64 a b = wrap64 (a + b)"

definition sub64 :: "int \<Rightarrow> int \<Rightarrow> int" where
  "sub64 a b = wrap64 (a - b)"

definition mul64 :: "int \<Rightarrow> int \<Rightarrow> int" where
  "mul64 a b = wrap64 (a * b)"

text \<open>Integer division truncates toward zero.\<close>

definition quot64 :: "int \<Rightarrow> int \<Rightarrow> int" where
  "quot64 a b = wrap64 (sgn a * sgn b * (\<bar>a\<bar> div \<bar>b\<bar>))"

definition maxInt64Value :: int where
  "maxInt64Value = 9223372036854775807"

definition maxUint32Value :: u32 where
  "maxUint32Value = NOT 0"

lemma wrap64_id: "- 9223372036854775808 \<le> x \<Longrightarrow> x \<le> 9223372036854775807 \<Longrightarrow> wrap64 x = x"
  unfolding wrap64_def by (rule signed_take_bit_int_eq_self) auto

lemma add64_id [simp]:
  "- 9223372036854775808 \<le> a + b \<Longrightarrow> a + b \<le> 9223372036854775807 \<Longrightarrow> add64 a b = a + b"
  by (simp add: add64_def wrap64_id)

lemma sub64_id [simp]:
  "- 9223372036854775808 \<le> a - b \<Longrightarrow> a - b \<le> 9223372036854775807 \<Longrightarrow> sub64 a b = a - b"
  by (simp add: sub64_def wrap64_id)

lemma mul64_id [simp]:
  "- 9223372036854775808 \<le> a * b \<Longrightarrow> a * b \<le> 9223372036854775807 \<Longrightarrow> mul64 a b = a * b"
  by (simp add: mul64_def wrap64_id)

lemma wrap64_range: "- 9223372036854775808 \<le> wrap64 x \<and> wrap64 x \<le> 9223372036854775807"
  using signed_take_bit_int_greater_eq_minus_exp [of 63 x] signed_take_bit_int_less_exp [of 63 x]
  by (simp add: wrap64_def)

lemma quot64_pos:
  assumes "0 < b" "0 \<le> a" "a \<le> 9223372036854775807"
  shows "quot64 a b = a div b" "quot64 (- a) b = - (a div b)"
proof -
  have "0 \<le> a div b" "a div b \<le> a" using assms zdiv_mono2 [of a 1 b] by (simp_all add: pos_imp_zdiv_nonneg_iff)
  then show "quot64 a b = a div b" "quot64 (- a) b = - (a div b)"
    using assms by (cases "a = 0"; simp add: quot64_def wrap64_id)+
qed

lemma maxUint32Value_max: "x \<le> maxUint32Value"
  by (simp add: maxUint32Value_def)

subsection \<open>16-bit values\<close>

lemma sint16_bounds: "- 32768 \<le> sint (x :: i16) \<and> sint x \<le> 32767"
  using sint_greater_eq [of x] sint_less [of x] by simp

lemma sint16_ge [simp]: "- 32768 \<le> sint (x :: i16)"
  using sint16_bounds [of x] by simp

lemma sint16_le [simp]: "sint (x :: i16) \<le> 32767"
  using sint16_bounds [of x] by simp

subsection \<open>Indexing, slicing and counted loops\<close>

definition get :: "'a list \<Rightarrow> nat \<Rightarrow> 'a option" where
  "get xs i = (if i < length xs then Some (xs ! i) else None)"

definition slice :: "'a list \<Rightarrow> nat \<Rightarrow> nat \<Rightarrow> 'a list option" where
  "slice xs a b = (if a \<le> b \<and> b \<le> length xs then Some (take (b - a) (drop a xs)) else None)"

definition put :: "'a list \<Rightarrow> nat \<Rightarrow> 'a \<Rightarrow> 'a list option" where
  "put xs i x = (if i < length xs then Some (xs[i := x]) else None)"

text \<open>\<open>copy(dst[pos:pos+len(src)], src)\<close>.\<close>

definition copy_at :: "'a list \<Rightarrow> nat \<Rightarrow> 'a list \<Rightarrow> 'a list option" where
  "copy_at dst pos src =
     (if pos + length src \<le> length dst then Some (take pos dst @ src @ drop (pos + length src) dst) else None)"

primrec foldM :: "('a \<Rightarrow> 's \<Rightarrow> 's option) \<Rightarrow> 'a list \<Rightarrow> 's \<Rightarrow> 's option" where
  "foldM f [] s = Some s"
| "foldM f (x # xs) s = do { s' \<leftarrow> f x s; foldM f xs s' }"

lemma get_Some [go_ok, simp]: "i < length xs \<Longrightarrow> get xs i = Some (xs ! i)"
  by (simp add: get_def)

lemma get_None [simp]: "length xs \<le> i \<Longrightarrow> get xs i = None"
  by (simp add: get_def)

lemma get_eq_Some: "get xs i = Some x \<longleftrightarrow> i < length xs \<and> x = xs ! i"
  by (auto simp: get_def)

lemma put_Some [go_ok, simp]: "i < length xs \<Longrightarrow> put xs i x = Some (xs[i := x])"
  by (simp add: put_def)

lemma slice_Some [go_ok]: "a \<le> b \<Longrightarrow> b \<le> length xs \<Longrightarrow> slice xs a b = Some (take (b - a) (drop a xs))"
  by (simp add: slice_def)

lemma length_slice: "slice xs a b = Some ys \<Longrightarrow> length ys = b - a"
  by (auto simp: slice_def split: if_splits)

lemma nth_slice: "slice xs a b = Some ys \<Longrightarrow> i < b - a \<Longrightarrow> ys ! i = xs ! (a + i)"
  by (auto simp: slice_def split: if_splits)

lemma foldM_append: "foldM f (xs @ ys) s = do { s' \<leftarrow> foldM f xs s; foldM f ys s' }"
  by (induction xs arbitrary: s) (auto split: bind_split)

lemma foldM_cong [fundef_cong]:
  "xs = ys \<Longrightarrow> s = t \<Longrightarrow> (\<And>x u. x \<in> set ys \<Longrightarrow> f x u = g x u) \<Longrightarrow> foldM f xs s = foldM g ys t"
proof (induction xs arbitrary: ys s t)
  case Nil
  then show ?case by simp
next
  case (Cons x xs)
  then show ?case by (cases ys) (auto split: bind_split)
qed

lemma foldM_Some: "foldM (\<lambda>x s. Some (g x s)) xs s = Some (fold g xs s)"
  by (induction xs arbitrary: s) auto

text \<open>Two nested loops are one loop over the inner ranges one after the other.\<close>

lemma foldM_concat:
  "foldM (\<lambda>x s. foldM f (g x) s) xs s = foldM f (concat (map g xs)) s"
  by (induction xs arbitrary: s) (auto simp: foldM_append)

lemma foldM_map: "foldM f (map g xs) s = foldM (\<lambda>x. f (g x)) xs s"
  by (induction xs arbitrary: s) (auto split: bind_split)

text \<open>A loop whose body never panics while an invariant holds is a fold.\<close>

lemma foldM_fold:
  assumes "\<And>x s. x \<in> set xs \<Longrightarrow> P s \<Longrightarrow> f x s = Some (g x s) \<and> P (g x s)" and "P s"
  shows "foldM f xs s = Some (fold g xs s) \<and> P (fold g xs s)"
  using assms
proof (induction xs arbitrary: s)
  case Nil
  then show ?case by simp
next
  case (Cons x xs)
  from Cons.prems have "f x s = Some (g x s)" and P: "P (g x s)" by auto
  moreover have "foldM f xs (g x s) = Some (fold g xs (g x s)) \<and> P (fold g xs (g x s))"
    using Cons.prems(1) P by (intro Cons.IH) auto
  ultimately show ?case by simp
qed

text \<open>The relational form: the loop returns, and keeps an invariant indexed by what was consumed.\<close>

lemma foldM_invariant:
  assumes step: "\<And>ys x zs s. xs = ys @ x # zs \<Longrightarrow> P ys s \<Longrightarrow> \<exists>s'. f x s = Some s' \<and> P (ys @ [x]) s'"
    and "P [] s"
  shows "\<exists>s'. foldM f xs s = Some s' \<and> P xs s'"
proof -
  have "\<exists>s'. foldM f (take n xs) s = Some s' \<and> P (take n xs) s'" for n
  proof (induction n)
    case 0
    with assms(2) show ?case by simp
  next
    case (Suc n)
    show ?case
    proof (cases "n < length xs")
      case True
      from Suc.IH obtain t where t: "foldM f (take n xs) s = Some t" "P (take n xs) t" by blast
      have "xs = take n xs @ xs ! n # drop (Suc n) xs" using True by (simp add: id_take_nth_drop)
      from step [OF this t(2)] obtain u where "f (xs ! n) t = Some u" "P (take n xs @ [xs ! n]) u"
        by blast
      with t True show ?thesis by (auto simp: take_Suc_conv_app_nth foldM_append)
    next
      case False
      with Suc.IH show ?thesis by simp
    qed
  qed
  from this [of "length xs"] show ?thesis by simp
qed

subsection \<open>Arithmetic and lists\<close>

lemma map_add_upt: "map ((+) a) [0..<n] = [a..<a + n]" for a n :: nat
  by (induction n) auto

text \<open>A range of rows cut into \<open>k\<close> groups of \<open>w\<close>, the last one possibly short.\<close>

lemma concat_groups:
  "concat (map (\<lambda>g. [a + g * w..<a + g * w + min w (e - (a + g * w))]) [0..<k]) =
     [a..<min e (a + k * w)]"
proof (induction k)
  case 0
  then show ?case by simp
next
  case (Suc k)
  show ?case
  proof (cases "a + k * w \<le> e")
    case True
    then have "[a..<min e (a + k * w)] @ [a + k * w..<a + k * w + min w (e - (a + k * w))] =
        [a..<a + k * w + min w (e - (a + k * w))]"
      using upt_add_eq_append [of a "a + k * w" "min w (e - (a + k * w))"] by simp
    moreover have "a + k * w + min w (e - (a + k * w)) = min e (a + Suc k * w)" using True by auto
    ultimately show ?thesis using Suc by simp
  next
    case False
    then have "min e (a + k * w) = e" "min e (a + Suc k * w) = e" "e - (a + k * w) = 0" by auto
    with Suc show ?thesis by simp
  qed
qed

lemma upt_min_join: "a \<le> b \<Longrightarrow> [a..<min e b] @ [b..<e] = [a..<e]"
  using upt_add_eq_append [of a b "e - b"] by (cases "b \<le> e") (simp_all add: min_def)

lemma disjoint_by_bound:
  "(\<And>p. p \<in> B \<Longrightarrow> f p < b) \<Longrightarrow> (\<And>p. p \<in> A \<Longrightarrow> b \<le> (f p :: nat)) \<Longrightarrow> A \<inter> B = {}"
  by force

lemma block_fits: "n < m \<Longrightarrow> n * k + k \<le> m * (k :: nat)"
  using mult_le_mono1 [of "Suc n" m k] by simp

lemma divmod_eq: "a div k = b div k \<Longrightarrow> a mod k = b mod k \<Longrightarrow> a = (b :: nat)"
  by (metis div_mult_mod_eq)

lemma fold_append_Cons: "fold (\<lambda>x acc. acc @ [h x]) xs ys = ys @ map h xs"
  by (induction xs arbitrary: ys) auto

lemma sum_list_nonneg_int: "(\<And>x. x \<in> set xs \<Longrightarrow> 0 \<le> (x :: int)) \<Longrightarrow> 0 \<le> sum_list xs"
  by (induction xs) auto

end
