(* ===== verification/Topk.thy ===== *)
theory Topk
  imports Prelude "HOL-Library.Multiset"
begin

text \<open>
  The contract behind every "keep the k best so far" array of the code (the five neighbours of
  \<open>ivfSearchState\<close>, the probe list of \<open>topIVFCentroids\<close>): inserting keeps the first \<open>k\<close>
  elements of a stable insertion sort. The locale \<open>bounded_best\<close> states it for any state with
  such an insert, and shows that a run of inserts yields the first \<open>k\<close> elements of the sorted
  sequence; its interpretations are in the theories that define the arrays.
\<close>

subsection \<open>Insertion behind equal keys\<close>

fun ins_after :: "('a \<Rightarrow> 'k::linorder) \<Rightarrow> 'a \<Rightarrow> 'a list \<Rightarrow> 'a list" where
  "ins_after key e [] = [e]"
| "ins_after key e (x # xs) = (if key e < key x then e # x # xs else x # ins_after key e xs)"

lemma mset_ins_after [simp]: "mset (ins_after key e xs) = add_mset e (mset xs)"
  by (induction xs) auto

lemma set_ins_after [simp]: "set (ins_after key e xs) = insert e (set xs)"
  by (induction xs) auto

lemma length_ins_after [simp]: "length (ins_after key e xs) = Suc (length xs)"
  by (induction xs) auto

lemma ins_after_neq_Nil [simp]: "ins_after key e xs \<noteq> []"
  by (cases xs) auto

lemma sorted_ins_after:
  "sorted (map key xs) \<Longrightarrow> sorted (map key (ins_after key e xs))"
  by (induction xs) (auto simp: less_imp_le not_less)

lemma ins_after_append_le:
  "\<forall>x \<in> set xs. key x \<le> key e \<Longrightarrow> ins_after key e (xs @ ys) = xs @ ins_after key e ys"
  by (induction xs) auto

lemma ins_after_split:
  "\<forall>x \<in> set xs. key x \<le> key e \<Longrightarrow> \<forall>y \<in> set ys. key e < key y \<Longrightarrow>
   ins_after key e (xs @ ys) = xs @ e # ys"
  by (induction xs) (cases ys, auto)

lemma take_ins_after: "take k (ins_after key e (take k xs)) = take k (ins_after key e xs)"
proof (induction xs arbitrary: k)
  case Nil
  then show ?case by simp
next
  case (Cons x xs)
  then show ?case by (cases k) (auto simp: take_Cons' min_def)
qed

lemma filter_ins_after:
  "sorted (map key xs) \<Longrightarrow>
   filter (\<lambda>x. k = key x) (ins_after key e xs) =
     filter (\<lambda>x. k = key x) xs @ (if k = key e then [e] else [])"
proof (induction xs)
  case Nil
  then show ?case by simp
next
  case (Cons x xs)
  have "key e < key x \<Longrightarrow> filter (\<lambda>y. key e = key y) (x # xs) = []"
    using Cons.prems by (fastforce simp: filter_empty_conv)
  with Cons show ?case by auto
qed

lemma ins_after_full:
  assumes "length xs = k" "sorted (map key xs)" "xs \<noteq> []" "key (last xs) \<le> key e"
  shows "take k (ins_after key e xs) = xs"
proof -
  have "\<forall>x \<in> set xs. key x \<le> key (last xs)"
    using assms(2,3) by (induction xs rule: rev_induct) (auto simp: sorted_append)
  with assms(4) have "\<forall>x \<in> set xs. key x \<le> key e" by (auto intro: order_trans)
  from ins_after_append_le [OF this, of "[]"] show ?thesis using assms(1) by simp
qed

subsection \<open>A run of insertions is the stable sort\<close>

lemma fold_ins_after_sorted:
  "sorted (map key xs) \<Longrightarrow> sorted (map key (fold (ins_after key) es xs))"
  by (induction es arbitrary: xs) (auto simp: sorted_ins_after)

lemma mset_fold_ins_after: "mset (fold (ins_after key) es xs) = mset es + mset xs"
  by (induction es arbitrary: xs) auto

lemma filter_fold_ins_after:
  "sorted (map key xs) \<Longrightarrow>
   filter (\<lambda>x. k = key x) (fold (ins_after key) es xs) = filter (\<lambda>x. k = key x) (xs @ es)"
  by (induction es arbitrary: xs) (auto simp: sorted_ins_after filter_ins_after)

lemma fold_ins_after:
  "sorted (map key xs) \<Longrightarrow> fold (ins_after key) es xs = sort_key key (xs @ es)"
  by (rule properties_for_sort_key [symmetric])
     (auto simp: mset_fold_ins_after filter_fold_ins_after fold_ins_after_sorted)

text \<open>Keeping only the first \<open>k\<close> after every insertion loses nothing of the first \<open>k\<close>.\<close>

definition keep :: "nat \<Rightarrow> ('a \<Rightarrow> 'k::linorder) \<Rightarrow> 'a \<Rightarrow> 'a list \<Rightarrow> 'a list" where
  "keep k key e xs = take k (ins_after key e xs)"

lemma fold_keep: "fold (keep k key) es (take k xs) = take k (fold (ins_after key) es xs)"
  by (induction es arbitrary: xs) (auto simp: keep_def take_ins_after)

definition best :: "nat \<Rightarrow> ('a \<Rightarrow> 'k::linorder) \<Rightarrow> 'a list \<Rightarrow> 'a list" where
  "best k key es = take k (sort_key key es)"

lemma sort_key_fold: "fold (ins_after key) es [] = sort_key key es"
  using fold_ins_after [of key "[]" es] by simp

lemma best_fold: "best k key es = fold (keep k key) es []"
  using fold_keep [of k key es "[]"] by (simp add: best_def sort_key_fold)

lemma fold_keep_best: "fold (keep k key) es (best k key xs) = best k key (xs @ es)"
  by (simp add: best_fold)

subsection \<open>Facts about the first \<open>k\<close>\<close>

lemma sorted_best [simp]: "sorted (map key (best k key xs))"
  by (simp add: best_def take_map [symmetric] sorted_wrt_take)

lemma set_best_subset: "set (best k key xs) \<subseteq> set xs"
  using set_take_subset [of k "sort_key key xs"] by (simp add: best_def)

lemma length_best [simp]: "length (best k key xs) = min (length xs) k"
  by (simp add: best_def)

text \<open>Every element left out has a key at least as large as every element kept.\<close>

lemma best_rest:
  assumes "mset xs = mset (best k key xs) + mset rest" "x \<in> set (best k key xs)" "y \<in> set rest"
  shows "key x \<le> key y"
proof -
  let ?ys = "sort_key key xs"
  have "mset (best k key xs) + mset (drop k ?ys) = mset xs"
    by (simp add: best_def flip: mset_append)
  with assms(1) have "mset rest = mset (drop k ?ys)"
    by (metis add_left_imp_eq)
  with assms(3) have "y \<in> set (drop k ?ys)"
    by (metis set_mset_mset)
  moreover have "sorted (map key (take k ?ys @ drop k ?ys))" by simp
  ultimately show ?thesis
    using assms(2) unfolding map_append sorted_append by (auto simp: best_def)
qed

lemma best_prune:
  assumes "k \<le> length xs" "\<And>x y. x \<in> set (best k key xs) \<Longrightarrow> y \<in> set ys \<Longrightarrow> key x \<le> key y"
  shows "best k key (xs @ ys) = best k key xs"
proof -
  have "fold (keep k key) ys (best k key xs) = best k key xs"
    using assms(2)
  proof (induction ys)
    case Nil
    then show ?case by simp
  next
    case (Cons y ys)
    have "ins_after key y (best k key xs @ []) = best k key xs @ [y]"
      using Cons.prems by (subst ins_after_append_le) auto
    then have "keep k key y (best k key xs) = best k key xs"
      using assms(1) by (simp add: keep_def)
    with Cons show ?case by simp
  qed
  then show ?thesis by (simp add: fold_keep_best)
qed

lemma best_pad:
  assumes "\<forall>x \<in> set xs. key x < key p"
  shows "best k key (replicate k p @ xs) = take k (sort_key key xs @ replicate k p)"
proof -
  have *: "\<forall>x \<in> set xs. \<not> key p = key x" using assms by fastforce
  have "sort_key key (replicate k p @ xs) = sort_key key xs @ replicate k p"
  proof (rule properties_for_sort_key)
    show "mset (sort_key key xs @ replicate k p) = mset (replicate k p @ xs)" by simp
    show "sorted (map key (sort_key key xs @ replicate k p))"
      using assms by (auto simp: sorted_append less_imp_le)
  next
    fix z
    assume "z \<in> set (sort_key key xs @ replicate k p)"
    have "filter (\<lambda>x. key z = key x) (sort_key key xs) = filter (\<lambda>x. key z = key x) xs"
      using sort_key_stable [of key "key z" xs] by (simp add: eq_commute)
    then show "filter (\<lambda>x. key z = key x) (sort_key key xs @ replicate k p) =
      filter (\<lambda>x. key z = key x) (replicate k p @ xs)"
      using * by (cases "key z = key p") (auto simp: filter_empty_conv)
  qed
  then show ?thesis by (simp add: best_def)
qed

text \<open>With pairwise different keys the order in which elements arrive does not matter.\<close>

lemma best_perm:
  "mset xs = mset ys \<Longrightarrow> distinct (map key xs) \<Longrightarrow> best k key xs = best k key ys"
  using sort_key_inj_key_eq [of xs "sort_key key ys" key] by (simp add: best_def distinct_map)

subsection \<open>The interface\<close>

locale bounded_best =
  fixes insert :: "'e \<Rightarrow> 's \<Rightarrow> 's"
    and content :: "'s \<Rightarrow> 'e list"
    and inv :: "'s \<Rightarrow> bool"
    and valid :: "'e \<Rightarrow> bool"
    and key :: "'e \<Rightarrow> 'k::linorder"
    and capacity :: nat
  assumes content_insert: "inv s \<Longrightarrow> valid e \<Longrightarrow> content (insert e s) = keep capacity key e (content s)"
    and inv_insert: "inv s \<Longrightarrow> valid e \<Longrightarrow> inv (insert e s)"
begin

lemma run:
  "inv s \<Longrightarrow> \<forall>e \<in> set es. valid e \<Longrightarrow>
   inv (fold insert es s) \<and> content (fold insert es s) = fold (keep capacity key) es (content s)"
  by (induction es arbitrary: s) (auto simp: content_insert inv_insert)

lemma run_best:
  assumes "inv s" "content s = best capacity key xs" "\<forall>e \<in> set es. valid e"
  shows "inv (fold insert es s)" "content (fold insert es s) = best capacity key (xs @ es)"
  using run [OF assms(1,3)] assms(2) by (auto simp: fold_keep_best)

end

end
