(* ===== verification/Quantized.thy ===== *)
theory Quantized
  imports Prelude
begin

text \<open>
  Distances between quantized vectors (\<open>quantized.go\<close>, \<open>ivf_search.go\<close>). A
  \<open>[Dimensions]int16\<close> is a list of length \<open>Dimensions\<close>. \<open>quantizedDistance\<close> (a row-major
  vector) and \<open>quantizedBlockLaneDistanceUnsafe\<close> (one lane of a transposed block) are the same
  unrolled loop over the dimensions in the order \<open>distOrder\<close>, with an exit after every dimension
  once the partial sum reaches the cutoff. \<open>cut_sum\<close> is what they compute, \<open>sqdist\<close> what they
  stand for, and the lemmas relate the two: the result is the squared distance whenever that is
  below the cutoff, and at least the cutoff otherwise.
\<close>

subsection \<open>Constants\<close>

definition Dimensions :: nat where "Dimensions = 14"
definition QuantScale :: i16 where "QuantScale = 10000"
definition maxIVFProbe :: nat where "maxIVFProbe = 128"
definition ivfBlockSize :: nat where "ivfBlockSize = 8"
definition ivfBlockStride :: nat where "ivfBlockStride = Dimensions * ivfBlockSize"

lemmas layout = Dimensions_def ivfBlockSize_def ivfBlockStride_def

subsection \<open>The loop over the dimensions\<close>

text \<open>The order in which the unrolled code visits the dimensions.\<close>

definition distOrder :: "nat list" where
  "distOrder = [5, 6, 2, 0, 7, 8, 12, 1, 3, 4, 9, 10, 11, 13]"

primrec dist_exit ::
  "(nat \<Rightarrow> i16) \<Rightarrow> (nat \<Rightarrow> i16 option) \<Rightarrow> int \<Rightarrow> nat list \<Rightarrow> int \<Rightarrow> int option" where
  "dist_exit q r cutoff [] acc = Some acc"
| "dist_exit q r cutoff (k # ks) acc = do {
     v \<leftarrow> r k;
     let d = sub64 (sint (q k)) (sint v);
     let acc' = add64 acc (mul64 d d);
     if acc' \<ge> cutoff then Some acc' else dist_exit q r cutoff ks acc' }"

definition quantizedDistance :: "i16 list \<Rightarrow> i16 list \<Rightarrow> int \<Rightarrow> int option" where
  "quantizedDistance query ref cutoff = dist_exit (\<lambda>k. query ! k) (get ref) cutoff distOrder 0"

text \<open>\<open>base\<close> is the index in \<open>idx.Blocks\<close> of the first value of the block.\<close>

definition quantizedBlockLaneDistanceUnsafe ::
  "i16 list \<Rightarrow> i16 list \<Rightarrow> nat \<Rightarrow> nat \<Rightarrow> int \<Rightarrow> int option" where
  "quantizedBlockLaneDistanceUnsafe query blocks base lane cutoff =
     dist_exit (\<lambda>k. query ! k) (\<lambda>k. get blocks (base + (k * ivfBlockSize + lane))) cutoff distOrder 0"

subsection \<open>What the loop computes\<close>

definition sq :: "i16 \<Rightarrow> i16 \<Rightarrow> int" where
  "sq a b = (sint a - sint b)\<^sup>2"

definition sqdist :: "i16 list \<Rightarrow> i16 list \<Rightarrow> int" where
  "sqdist q r = (\<Sum>k < Dimensions. sq (q ! k) (r ! k))"

primrec cut_sum :: "int \<Rightarrow> int list \<Rightarrow> int \<Rightarrow> int" where
  "cut_sum cutoff [] acc = acc"
| "cut_sum cutoff (t # ts) acc = (if acc + t \<ge> cutoff then acc + t else cut_sum cutoff ts (acc + t))"

definition terms :: "i16 list \<Rightarrow> i16 list \<Rightarrow> int list" where
  "terms q r = map (\<lambda>k. sq (q ! k) (r ! k)) distOrder"

text \<open>The value \<open>quantizedDistance\<close> returns, as a total function.\<close>

definition cutDist :: "i16 list \<Rightarrow> i16 list \<Rightarrow> int \<Rightarrow> int" where
  "cutDist q r cutoff = cut_sum cutoff (terms q r) 0"

lemma sq_nonneg [simp]: "0 \<le> sq a b"
  by (simp add: sq_def)

lemma diff16_bounds: "\<bar>sint (a :: i16) - sint (b :: i16)\<bar> \<le> 65535"
  using sint16_bounds [of a] sint16_bounds [of b] by linarith

lemma sq_bound: "sq a b \<le> 4294836225"
proof -
  have "\<bar>sint a - sint b\<bar>\<^sup>2 \<le> 65535\<^sup>2"
    by (rule power_mono [OF diff16_bounds]) simp
  then show ?thesis by (simp add: sq_def)
qed

lemma sub64_sint [simp]: "sub64 (sint (a :: i16)) (sint (b :: i16)) = sint a - sint b"
  using diff16_bounds [of a b] by (intro sub64_id) linarith+

lemma mul64_sq [simp]: "mul64 (sint a - sint b) (sint a - sint b) = sq a b"
proof -
  have *: "sq a b = (sint a - sint b) * (sint a - sint b)" by (simp add: sq_def power2_eq_square)
  show ?thesis
    unfolding * using sq_bound [of a b] sq_nonneg [of a b] unfolding * by (intro mul64_id) linarith+
qed

lemma set_distOrder: "set distOrder = {..<Dimensions}"
proof
  show "set distOrder \<subseteq> {..<Dimensions}" by (simp add: distOrder_def Dimensions_def)
  show "{..<Dimensions} \<subseteq> set distOrder"
  proof
    fix k
    assume "k \<in> {..<Dimensions}"
    then have "k < 14" by (simp add: Dimensions_def)
    then show "k \<in> set distOrder" unfolding distOrder_def by simp arith
  qed
qed

lemma terms_bounds: "t \<in> set (terms q r) \<Longrightarrow> 0 \<le> t \<and> t \<le> 4294836225"
  by (auto simp: terms_def sq_bound)

lemma length_terms [simp]: "length (terms q r) = 14"
  by (simp add: terms_def distOrder_def)

lemma sum_list_terms: "sum_list (terms q r) = sqdist q r"
proof -
  have "distinct distOrder" by (simp add: distOrder_def)
  then show ?thesis
    by (simp add: terms_def sqdist_def sum_list_distinct_conv_sum_set set_distOrder)
qed

lemma sqdist_nonneg [simp]: "0 \<le> sqdist q r"
  by (simp add: sqdist_def sum_nonneg)

lemma sqdist_bound: "sqdist q r \<le> 60127707150"
proof -
  have "sqdist q r \<le> (\<Sum>k < Dimensions. 4294836225)"
    unfolding sqdist_def by (rule sum_mono) (rule sq_bound)
  then show ?thesis by (simp add: Dimensions_def)
qed

lemma sqdist_less_max [simp]: "sqdist q r < maxInt64Value"
  using sqdist_bound [of q r] by (simp add: maxInt64Value_def)

text \<open>No step of the loop overflows, so the loop computes \<^const>\<open>cut_sum\<close>.\<close>

lemma dist_exit_cut_sum:
  assumes "\<And>k. k \<in> set ks \<Longrightarrow> r k = Some (v k)"
    and "0 \<le> acc" "acc + 4294836225 * int (length ks) \<le> 9223372036854775807"
  shows "dist_exit q r cutoff ks acc = Some (cut_sum cutoff (map (\<lambda>k. sq (q k) (v k)) ks) acc)"
  using assms
proof (induction ks arbitrary: acc)
  case Nil
  then show ?case by simp
next
  case (Cons k ks)
  have "sq (q k) (v k) \<le> 4294836225" by (rule sq_bound)
  then have add: "add64 acc (sq (q k) (v k)) = acc + sq (q k) (v k)"
    and next': "0 \<le> acc + sq (q k) (v k)"
      "acc + sq (q k) (v k) + 4294836225 * int (length ks) \<le> 9223372036854775807"
    using Cons.prems(2,3) sq_nonneg [of "q k" "v k"] by (auto intro!: add64_id simp del: sq_nonneg)
  then show ?case
    using Cons.IH [OF Cons.prems(1) next'] Cons.prems(1) by (simp add: Let_def)
qed

lemma quantizedDistance_cutDist:
  assumes "length r = Dimensions"
  shows "quantizedDistance q r cutoff = Some (cutDist q r cutoff)"
proof -
  have "get r k = Some (r ! k)" if "k \<in> set distOrder" for k
    using that assms by (auto simp: set_distOrder)
  then show ?thesis
    unfolding quantizedDistance_def cutDist_def terms_def
    by (intro dist_exit_cut_sum) (auto simp: distOrder_def)
qed

text \<open>A lane of a block holds a row when its values are the row's, eight apart.\<close>

definition lane_holds :: "i16 list \<Rightarrow> nat \<Rightarrow> nat \<Rightarrow> i16 list \<Rightarrow> bool" where
  "lane_holds blocks base lane r \<longleftrightarrow>
     (\<forall>k < Dimensions. get blocks (base + (k * ivfBlockSize + lane)) = Some (r ! k))"

lemma blockLaneDistance_cutDist:
  assumes "lane_holds blocks base lane r"
  shows "quantizedBlockLaneDistanceUnsafe q blocks base lane cutoff = Some (cutDist q r cutoff)"
proof -
  have "get blocks (base + (k * ivfBlockSize + lane)) = Some (r ! k)" if "k \<in> set distOrder" for k
    using that assms by (simp add: set_distOrder lane_holds_def)
  then show ?thesis
    unfolding quantizedBlockLaneDistanceUnsafe_def cutDist_def terms_def
    by (intro dist_exit_cut_sum) (auto simp: distOrder_def)
qed

subsection \<open>The early exit\<close>

lemma cut_sum_bounds:
  "(\<And>t. t \<in> set ts \<Longrightarrow> 0 \<le> t) \<Longrightarrow> acc \<le> cut_sum cutoff ts acc \<and> cut_sum cutoff ts acc \<le> acc + sum_list ts"
proof (induction ts arbitrary: acc)
  case Nil
  then show ?case by simp
next
  case (Cons t ts)
  then have "0 \<le> t" "0 \<le> sum_list ts" by (auto intro: sum_list_nonneg_int)
  moreover have "acc + t \<le> cut_sum cutoff ts (acc + t) \<and>
      cut_sum cutoff ts (acc + t) \<le> acc + t + sum_list ts"
    using Cons.prems by (intro Cons.IH) auto
  ultimately show ?case by auto
qed

lemma cut_sum_exit: "cut_sum cutoff ts acc = acc + sum_list ts \<or> cutoff \<le> cut_sum cutoff ts acc"
proof (induction ts arbitrary: acc)
  case Nil
  then show ?case by simp
next
  case (Cons t ts)
  from Cons.IH [of "acc + t"] show ?case by auto
qed

lemma cutDist_le: "cutDist q r cutoff \<le> sqdist q r"
  using cut_sum_bounds [of "terms q r" 0 cutoff] terms_bounds
  by (auto simp: cutDist_def sum_list_terms)

lemma cutDist_nonneg: "0 \<le> cutDist q r cutoff"
  using cut_sum_bounds [of "terms q r" 0 cutoff] terms_bounds by (auto simp: cutDist_def)

lemma cutDist_cases: "cutDist q r cutoff = sqdist q r \<or> cutoff \<le> cutDist q r cutoff"
  using cut_sum_exit [of cutoff "terms q r" 0] by (simp add: cutDist_def sum_list_terms)

lemma cutDist_below: "sqdist q r < cutoff \<Longrightarrow> cutDist q r cutoff = sqdist q r"
  using cutDist_cases [of q r cutoff] cutDist_le [of q r cutoff] by linarith

lemma cutDist_above: "cutoff \<le> sqdist q r \<Longrightarrow> cutoff \<le> cutDist q r cutoff"
  using cutDist_cases [of q r cutoff] by auto

lemma cutDist_less_iff: "cutDist q r cutoff < cutoff \<longleftrightarrow> sqdist q r < cutoff"
  using cutDist_below [of q r cutoff] cutDist_above [of cutoff q r] by linarith

lemma cutDist_max: "cutDist q r maxInt64Value = sqdist q r"
  by (simp add: cutDist_below)

lemma cutDist_less_max [simp]: "cutDist q r cutoff < maxInt64Value"
  using cutDist_le [of q r cutoff] sqdist_less_max [of q r] by linarith

end
