(* ===== verification/Search_State.thy ===== *)
theory Search_State
  imports Topk Quantized
begin

unbundle bit_operations_syntax

text \<open>
  \<open>ivfSearchState\<close> of \<open>ivf_search.go\<close>: the five best candidates, as three parallel arrays ordered
  by distance and then by original id, and the set of clusters already scanned, as a bit mask.
  \<open>entries\<close> reads the arrays as a list of candidates; the interpretation \<open>best5\<close> of the locale
  \<open>bounded_best\<close> says that an insert keeps the five smallest ranks. \<open>visited\<close> reads the mask as
  a set; the locale \<open>visited_set\<close> and its interpretation \<open>probed\<close> are its contract.
\<close>

subsection \<open>Candidates and their rank\<close>

text \<open>The order of the code: \<open>d < bestDist[i] || (d == bestDist[i] && origID < bestID[i])\<close>.\<close>

datatype rank = Rank int u32

instantiation rank :: linorder
begin

fun less_rank :: "rank \<Rightarrow> rank \<Rightarrow> bool" where
  "less_rank (Rank d i) (Rank e j) \<longleftrightarrow> d < e \<or> (d = e \<and> i < j)"

fun less_eq_rank :: "rank \<Rightarrow> rank \<Rightarrow> bool" where
  "less_eq_rank (Rank d i) (Rank e j) \<longleftrightarrow> d < e \<or> (d = e \<and> i \<le> j)"

instance
proof
  fix x y z :: rank
  show "x < y \<longleftrightarrow> x \<le> y \<and> \<not> y \<le> x" by (cases x; cases y) auto
  show "x \<le> x" by (cases x) simp
  show "x \<le> y \<Longrightarrow> y \<le> z \<Longrightarrow> x \<le> z" by (cases x; cases y; cases z) auto
  show "x \<le> y \<Longrightarrow> y \<le> x \<Longrightarrow> x = y" by (cases x; cases y) auto
  show "x \<le> y \<or> y \<le> x" by (cases x; cases y) auto
qed

end

datatype cand = Cand (cdist: int) (cid: u32) (cfraud: bool)

fun rank_of :: "cand \<Rightarrow> rank" where
  "rank_of (Cand d i f) = Rank d i"

subsection \<open>The state\<close>

record ivfSearchState =
  bestDist :: "int list"
  bestFraud :: "bool list"
  bestID :: "u32 list"
  probes :: "u32 list"
  probeMask :: "u64 list"
  probeCount :: nat

definition newIVFSearchState :: ivfSearchState where
  "newIVFSearchState =
     \<lparr>bestDist = replicate 5 maxInt64Value, bestFraud = replicate 5 False,
      bestID = replicate 5 maxUint32Value, probes = replicate 128 0, probeMask = replicate 128 0,
      probeCount = 0\<rparr>"

text \<open>The inner loop \<open>for j := 4; j > i; j-- { a[j] = a[j-1] }\<close>.\<close>

fun shift_right :: "nat \<Rightarrow> nat \<Rightarrow> 'a list \<Rightarrow> 'a list" where
  "shift_right i j xs = (if i < j then shift_right i (j - 1) (xs[j := xs ! (j - 1)]) else xs)"

declare shift_right.simps [simp del]

function ivf_insert_from :: "nat \<Rightarrow> int \<Rightarrow> bool \<Rightarrow> u32 \<Rightarrow> ivfSearchState \<Rightarrow> ivfSearchState" where
  "ivf_insert_from i d fraud origID s =
     (if i < 5 then
        if d < bestDist s ! i \<or> (d = bestDist s ! i \<and> origID < bestID s ! i) then
          s\<lparr>bestDist := (shift_right i 4 (bestDist s))[i := d],
            bestFraud := (shift_right i 4 (bestFraud s))[i := fraud],
            bestID := (shift_right i 4 (bestID s))[i := origID]\<rparr>
        else ivf_insert_from (Suc i) d fraud origID s
      else s)"
  by pat_completeness auto
termination
  by (relation "measure (\<lambda>(i, d, fraud, origID, s). 5 - i)") auto

declare ivf_insert_from.simps [simp del]

definition ivf_insert :: "int \<Rightarrow> bool \<Rightarrow> u32 \<Rightarrow> ivfSearchState \<Rightarrow> ivfSearchState" where
  "ivf_insert d fraud origID s = ivf_insert_from 0 d fraud origID s"

text \<open>The test every scan makes before it inserts.\<close>

definition rejected :: "int \<Rightarrow> u32 \<Rightarrow> ivfSearchState \<Rightarrow> bool" where
  "rejected d origID s \<longleftrightarrow> d > bestDist s ! 4 \<or> (d = bestDist s ! 4 \<and> origID \<ge> bestID s ! 4)"

definition countFrauds :: "ivfSearchState \<Rightarrow> nat" where
  "countFrauds s =
     fold (\<lambda>i frauds. if bestDist s ! i \<noteq> maxInt64Value \<and> bestFraud s ! i then Suc frauds else frauds)
       [0..<5] 0"

text \<open>The function of the same name in \<open>quantized.go\<close>, over the flags alone.\<close>

definition countFrauds_array :: "bool list \<Rightarrow> nat" where
  "countFrauds_array flags = fold (\<lambda>fraud frauds. if fraud then Suc frauds else frauds) flags 0"

definition hasProbe :: "u32 \<Rightarrow> ivfSearchState \<Rightarrow> bool option" where
  "hasProbe cluster s = do {
     w \<leftarrow> get (probeMask s) (unat (drop_bit 6 cluster));
     Some (w AND push_bit (unat (cluster AND 63)) 1 \<noteq> 0) }"

definition addProbe :: "u32 \<Rightarrow> ivfSearchState \<Rightarrow> ivfSearchState option" where
  "addProbe cluster s = do {
     w \<leftarrow> get (probeMask s) (unat (drop_bit 6 cluster));
     let s' = s\<lparr>probeMask := (probeMask s)[unat (drop_bit 6 cluster) :=
       w OR push_bit (unat (cluster AND 63)) 1]\<rparr>;
     Some (if probeCount s' < maxIVFProbe
           then s'\<lparr>probes := (probes s')[probeCount s' := cluster], probeCount := Suc (probeCount s')\<rparr>
           else s') }"

subsection \<open>The five best\<close>

definition entries :: "ivfSearchState \<Rightarrow> cand list" where
  "entries s = map (\<lambda>i. Cand (bestDist s ! i) (bestID s ! i) (bestFraud s ! i)) [0..<5]"

definition sentinel :: cand where
  "sentinel = Cand maxInt64Value maxUint32Value False"

definition state_inv :: "ivfSearchState \<Rightarrow> bool" where
  "state_inv s \<longleftrightarrow> length (bestDist s) = 5 \<and> length (bestFraud s) = 5 \<and> length (bestID s) = 5 \<and>
     length (probes s) = 128 \<and> length (probeMask s) = 128 \<and> probeCount s \<le> 128 \<and>
     sorted (map rank_of (entries s))"

lemma length_shift_right [simp]: "length (shift_right i j xs) = length xs"
  by (induction i j xs rule: shift_right.induct) (simp add: shift_right.simps)

lemma nth_shift_right:
  "j < length xs \<Longrightarrow> k < length xs \<Longrightarrow>
   shift_right i j xs ! k = (if i < k \<and> k \<le> j then xs ! (k - 1) else xs ! k)"
proof (induction i j xs rule: shift_right.induct)
  case (1 i j xs)
  show ?case
  proof (cases "i < j")
    case True
    with 1 have "shift_right i (j - 1) (xs[j := xs ! (j - 1)]) ! k =
      (if i < k \<and> k \<le> j - 1 then xs[j := xs ! (j - 1)] ! (k - 1) else xs[j := xs ! (j - 1)] ! k)"
      by (intro "1.IH") auto
    with True 1(2,3) show ?thesis
      by (auto simp: shift_right.simps [of i j] nth_list_update)
  next
    case False
    then show ?thesis by (auto simp: shift_right.simps [of i j])
  qed
qed

lemma nth_shift_insert:
  "j < length xs \<Longrightarrow> k < length xs \<Longrightarrow> i \<le> j \<Longrightarrow>
   (shift_right i j xs)[i := x] ! k =
     (if k = i then x else if i < k \<and> k \<le> j then xs ! (k - 1) else xs ! k)"
  by (auto simp: nth_list_update nth_shift_right)

lemma length_entries [simp]: "length (entries s) = 5"
  by (simp add: entries_def)

lemma nth_entries [simp]:
  "k < 5 \<Longrightarrow> entries s ! k = Cand (bestDist s ! k) (bestID s ! k) (bestFraud s ! k)"
  by (simp add: entries_def)

lemma entries_ivf_insert_from:
  assumes "length (bestDist s) = 5" "length (bestFraud s) = 5" "length (bestID s) = 5"
  shows "i \<le> 5 \<Longrightarrow> entries (ivf_insert_from i d fraud origID s) =
    take i (entries s) @ take (5 - i) (ins_after rank_of (Cand d origID fraud) (drop i (entries s)))"
proof (induction "5 - i" arbitrary: i)
  case 0
  then show ?case by (simp add: ivf_insert_from.simps)
next
  case (Suc n)
  then have i: "i < 5" by simp
  let ?e = "Cand d origID fraud" and ?E = "entries s"
  have drop: "drop i ?E = ?E ! i # drop (Suc i) ?E" using i by (simp add: Cons_nth_drop_Suc del: nth_entries)
  show ?case
  proof (cases "rank_of ?e < rank_of (?E ! i)")
    case True
    then have *: "d < bestDist s ! i \<or> (d = bestDist s ! i \<and> origID < bestID s ! i)"
      using i by simp
    have "entries (ivf_insert_from i d fraud origID s) = take i ?E @ ?e # take (4 - i) (drop i ?E)"
    proof (rule nth_equalityI)
      fix k
      assume "k < length (entries (ivf_insert_from i d fraud origID s))"
      then have k: "k < 5" by simp
      show "entries (ivf_insert_from i d fraud origID s) ! k =
          (take i ?E @ ?e # take (4 - i) (drop i ?E)) ! k"
        using i k assms * by (simp add: ivf_insert_from.simps nth_shift_insert nth_append nth_Cons')
    qed (use i in simp)
    with True i show ?thesis by (simp add: drop take_Cons')
  next
    case False
    then have "\<not> (d < bestDist s ! i \<or> (d = bestDist s ! i \<and> origID < bestID s ! i))"
      using i by simp
    then have "entries (ivf_insert_from i d fraud origID s) =
        entries (ivf_insert_from (Suc i) d fraud origID s)"
      using i by (subst ivf_insert_from.simps) auto
    also have "\<dots> = take (Suc i) ?E @ take (5 - Suc i) (ins_after rank_of ?e (drop (Suc i) ?E))"
      using Suc.hyps i by (intro Suc.hyps(1)) auto
    finally have *: "entries (ivf_insert_from i d fraud origID s) =
      take i ?E @ ?E ! i # take (4 - i) (ins_after rank_of ?e (drop (Suc i) ?E))"
      using i by (simp add: take_Suc_conv_app_nth)
    have "ins_after rank_of ?e (drop i ?E) = ?E ! i # ins_after rank_of ?e (drop (Suc i) ?E)"
      using False by (simp add: drop del: nth_entries)
    with * i show ?thesis by (simp add: take_Cons')
  qed
qed

lemma entries_ivf_insert:
  assumes "state_inv s"
  shows "entries (ivf_insert d fraud origID s) = keep 5 rank_of (Cand d origID fraud) (entries s)"
  using assms entries_ivf_insert_from [of s 0]
  by (simp add: ivf_insert_def keep_def state_inv_def)

lemma ivf_insert_from_frame:
  "probes (ivf_insert_from i d fraud origID s) = probes s \<and>
   probeMask (ivf_insert_from i d fraud origID s) = probeMask s \<and>
   probeCount (ivf_insert_from i d fraud origID s) = probeCount s \<and>
   length (bestDist (ivf_insert_from i d fraud origID s)) = length (bestDist s) \<and>
   length (bestFraud (ivf_insert_from i d fraud origID s)) = length (bestFraud s) \<and>
   length (bestID (ivf_insert_from i d fraud origID s)) = length (bestID s)"
  by (induction i d fraud origID s rule: ivf_insert_from.induct) (simp add: ivf_insert_from.simps)

lemmas ivf_insert_frame [simp] = ivf_insert_from_frame [of 0, folded ivf_insert_def, THEN conjunct1]
  ivf_insert_from_frame [of 0, folded ivf_insert_def, THEN conjunct2, THEN conjunct1]
  ivf_insert_from_frame [of 0, folded ivf_insert_def, THEN conjunct2, THEN conjunct2, THEN conjunct1]

lemma sorted_keep: "sorted (map key xs) \<Longrightarrow> sorted (map key (keep k key e xs))"
  by (simp add: keep_def sorted_ins_after sorted_wrt_take flip: take_map)

lemma state_inv_ivf_insert: "state_inv s \<Longrightarrow> state_inv (ivf_insert d fraud origID s)"
  using ivf_insert_from_frame [of 0 d fraud origID s]
  by (simp add: state_inv_def ivf_insert_def [symmetric] sorted_keep entries_ivf_insert)

fun insert_cand :: "cand \<Rightarrow> ivfSearchState \<Rightarrow> ivfSearchState" where
  "insert_cand (Cand d i f) s = ivf_insert d f i s"

interpretation best5: bounded_best insert_cand entries state_inv "\<lambda>_. True" rank_of 5
proof
  fix s e
  assume "state_inv s"
  then show "entries (insert_cand e s) = keep 5 rank_of e (entries s)" "state_inv (insert_cand e s)"
    by (cases e; simp add: entries_ivf_insert state_inv_ivf_insert)+
qed

text \<open>A candidate the guard rejects would not have changed the five.\<close>

lemma last_entries: "last (entries s) = Cand (bestDist s ! 4) (bestID s ! 4) (bestFraud s ! 4)"
  by (simp add: last_conv_nth flip: length_0_conv)

lemma rejected_iff: "rejected d origID s \<longleftrightarrow> rank_of (last (entries s)) \<le> Rank d origID"
  by (auto simp: rejected_def last_entries)

lemma keep_rejected:
  assumes "state_inv s" "rejected d origID s"
  shows "keep 5 rank_of (Cand d origID f) (entries s) = entries s"
  unfolding keep_def using assms
  by (intro ins_after_full) (auto simp: state_inv_def rejected_iff simp flip: length_0_conv)

definition offer :: "cand \<Rightarrow> ivfSearchState \<Rightarrow> ivfSearchState" where
  "offer c s = (if rejected (cdist c) (cid c) s then s else insert_cand c s)"

lemma state_inv_offer [simp]: "state_inv s \<Longrightarrow> state_inv (offer c s)"
  by (cases c) (simp add: offer_def state_inv_ivf_insert)

lemma entries_offer: "state_inv s \<Longrightarrow> entries (offer c s) = keep 5 rank_of c (entries s)"
  by (cases c) (simp add: offer_def keep_rejected entries_ivf_insert)

interpretation offer5: bounded_best offer entries state_inv "\<lambda>_. True" rank_of 5
  by unfold_locales (simp_all add: entries_offer)

lemma upto5 [simp]: "[0..<5] = [0, 1, 2, 3, 4]"
  by code_simp

subsection \<open>What a state holds\<close>

text \<open>\<open>holds cs s\<close>: the five slots are the five smallest of the candidates \<open>cs\<close>, with sentinels in
  the slots that are still empty.\<close>

definition holds :: "cand list \<Rightarrow> ivfSearchState \<Rightarrow> bool" where
  "holds cs s \<longleftrightarrow> state_inv s \<and> entries s = best 5 rank_of (replicate 5 sentinel @ cs)"

lemma state_inv_new [simp]: "state_inv newIVFSearchState"
  by (simp add: state_inv_def newIVFSearchState_def entries_def)

lemma holds_new: "holds [] newIVFSearchState"
proof -
  have "entries newIVFSearchState = replicate 5 sentinel"
    by (simp add: entries_def newIVFSearchState_def sentinel_def numeral_eq_Suc)
  moreover have "sort_key rank_of (replicate 5 sentinel) = replicate 5 sentinel"
    by (rule sort_key_id_if_sorted) (simp add: numeral_eq_Suc)
  ultimately show ?thesis by (simp add: holds_def best_def)
qed

lemma holds_offers: "holds cs s \<Longrightarrow> holds (cs @ ds) (fold offer ds s)"
  using offer5.run_best [of s "replicate 5 sentinel @ cs" ds] by (simp add: holds_def)

lemma rank_less_sentinel: "cdist c < maxInt64Value \<Longrightarrow> rank_of c < rank_of sentinel"
  by (cases c) (simp add: sentinel_def)

lemma holds_entries:
  assumes "holds cs s" "\<forall>c \<in> set cs. cdist c < maxInt64Value"
  shows "entries s = take 5 (sort_key rank_of cs @ replicate 5 sentinel)"
  using assms by (simp add: holds_def best_pad rank_less_sentinel)

lemma countFrauds_entries:
  "countFrauds s = length (filter (\<lambda>c. cdist c \<noteq> maxInt64Value \<and> cfraud c) (entries s))"
  by (simp add: countFrauds_def entries_def)

lemma countFrauds_le: "countFrauds s \<le> 5"
  using length_filter_le [of _ "entries s"] by (simp add: countFrauds_entries)

lemma countFrauds_holds:
  assumes "holds cs s" "\<forall>c \<in> set cs. cdist c < maxInt64Value"
  shows "countFrauds s = length (filter cfraud (best 5 rank_of cs))"
proof -
  have "filter (\<lambda>c. cdist c \<noteq> maxInt64Value \<and> cfraud c) (best 5 rank_of cs) =
      filter cfraud (best 5 rank_of cs)"
    using assms(2) set_best_subset [of 5 rank_of cs] by (intro filter_cong) fastforce+
  moreover have "filter (\<lambda>c. cdist c \<noteq> maxInt64Value \<and> cfraud c) (replicate n sentinel) = []" for n
    by (simp add: sentinel_def)
  ultimately show ?thesis
    using holds_entries [OF assms] by (simp add: countFrauds_entries best_def)
qed

text \<open>On a state of the search both counts agree, because an unused place has no fraud flag.\<close>

lemma countFrauds_array_filter: "fold (\<lambda>fraud frauds. if fraud then Suc frauds else frauds) fs n = n + length (filter id fs)"
  by (induction fs arbitrary: n) auto

lemma countFrauds_array_holds:
  assumes "holds cs s" "\<forall>c \<in> set cs. cdist c < maxInt64Value"
  shows "countFrauds_array (bestFraud s) = countFrauds s"
proof -
  have "length (bestFraud s) = 5" using assms(1) by (simp add: holds_def state_inv_def)
  then have "map (\<lambda>i. bestFraud s ! i) [0..<5] = bestFraud s" using map_nth [of "bestFraud s"] by simp
  then have "bestFraud s = map cfraud (entries s)" unfolding entries_def by (simp only: map_map comp_def cand.sel)
  then have "countFrauds_array (bestFraud s) = length (filter cfraud (entries s))"
    by (simp add: countFrauds_array_def countFrauds_array_filter filter_map comp_def)
  also have "\<dots> = countFrauds s"
  proof -
    have "cdist c \<noteq> maxInt64Value" if "c \<in> set (entries s)" "cfraud c" for c
    proof -
      have "c \<in> set (sort_key rank_of cs @ replicate 5 sentinel)"
        using that(1) holds_entries [OF assms] by (auto dest: in_set_takeD)
      with assms(2) that(2) show ?thesis by (auto simp: sentinel_def split: if_splits)
    qed
    then show ?thesis unfolding countFrauds_entries by (intro arg_cong [where f = length] filter_cong) auto
  qed
  finally show ?thesis .
qed

lemma holds_full:
  assumes "holds cs s" "\<forall>c \<in> set cs. cdist c < maxInt64Value"
  shows "bestDist s ! 4 \<noteq> maxInt64Value \<longleftrightarrow> 5 \<le> length cs"
proof -
  have "bestDist s ! 4 = cdist ((sort_key rank_of cs @ replicate 5 sentinel) ! 4)"
    using arg_cong [OF holds_entries [OF assms], of "\<lambda>xs. cdist (xs ! 4)"]
    by (simp del: take_append)
  moreover have "5 \<le> length cs \<Longrightarrow> sort_key rank_of cs ! 4 \<in> set cs"
    by (metis Suc_le_eq eval_nat_numeral(3) length_sort nth_mem set_sort)
  ultimately show ?thesis
    using assms(2) by (cases "5 \<le> length cs") (fastforce simp: nth_append sentinel_def)+
qed

subsection \<open>The visited clusters\<close>

locale visited_set =
  fixes member :: "'a \<Rightarrow> 's \<Rightarrow> bool option"
    and add :: "'a \<Rightarrow> 's \<Rightarrow> 's option"
    and elems :: "'s \<Rightarrow> 'a set"
    and inv :: "'s \<Rightarrow> bool"
    and in_range :: "'a \<Rightarrow> bool"
  assumes member_ok: "inv s \<Longrightarrow> in_range a \<Longrightarrow> member a s = Some (a \<in> elems s)"
    and add_ok: "inv s \<Longrightarrow> in_range a \<Longrightarrow> \<exists>t. add a s = Some t \<and> inv t \<and> elems t = insert a (elems s)"
begin

lemma add_all:
  "inv s \<Longrightarrow> \<forall>a \<in> set as. in_range a \<Longrightarrow>
   \<exists>t. foldM add as s = Some t \<and> inv t \<and> elems t = set as \<union> elems s"
proof (induction as arbitrary: s)
  case Nil
  then show ?case by simp
next
  case (Cons a as)
  from add_ok [of s a] Cons.prems obtain u
    where "add a s = Some u" "inv u" "elems u = insert a (elems s)" by auto
  with Cons.IH [of u] Cons.prems show ?case by auto
qed

lemma member_after_add:
  "inv s \<Longrightarrow> in_range a \<Longrightarrow> in_range b \<Longrightarrow> add a s = Some t \<Longrightarrow>
   member b t = Some (b = a \<or> b \<in> elems s)"
  using add_ok [of s a] member_ok [of t b] by auto

end

definition cluster_ok :: "u32 \<Rightarrow> bool" where
  "cluster_ok c \<longleftrightarrow> unat c < 8192"

definition visited :: "ivfSearchState \<Rightarrow> u32 set" where
  "visited s = {c. cluster_ok c \<and> bit (probeMask s ! (unat c div 64)) (unat c mod 64)}"

lemma unat_high [simp]: "unat (drop_bit 6 (c :: u32)) = unat c div 64"
  by (simp add: drop_bit_eq_div unat_div)

lemma unat_low [simp]: "unat (c AND 63 :: u32) = unat c mod 64"
proof -
  have "c AND 63 = take_bit 6 c" by (simp add: take_bit_eq_mask mask_eq_exp_minus_1)
  then show ?thesis by (simp add: take_bit_eq_mod unat_mod)
qed

lemma and_bit_iff: "n < 64 \<Longrightarrow> w AND push_bit n (1 :: u64) \<noteq> 0 \<longleftrightarrow> bit w n"
  using and_exp_eq_0_iff_not_bit [of w n] by (simp add: push_bit_eq_mult)

lemma hasProbe_visited:
  "state_inv s \<Longrightarrow> cluster_ok c \<Longrightarrow> hasProbe c s = Some (c \<in> visited s)"
  using and_bit_iff [of "unat c mod 64" "probeMask s ! (unat c div 64)"]
  by (simp add: hasProbe_def visited_def cluster_ok_def state_inv_def)

lemma word_eq_split: "c = (d :: u32) \<longleftrightarrow> unat c div 64 = unat d div 64 \<and> unat c mod 64 = unat d mod 64"
  by (metis div_mult_mod_eq unsigned_word_eqI)

lemma or_bit_iff: "n < 64 \<Longrightarrow> bit (w OR push_bit n (1 :: u64)) m \<longleftrightarrow> bit w m \<or> m = n"
  by (auto simp: bit_simps)

lemma entries_cong [simp]:
  "entries (s\<lparr>probes := p\<rparr>) = entries s" "entries (s\<lparr>probeMask := m\<rparr>) = entries s"
  "entries (s\<lparr>probeCount := n\<rparr>) = entries s"
  by (simp_all add: entries_def)

lemma addProbe_ok:
  assumes "state_inv s" "cluster_ok c"
  shows "\<exists>t. addProbe c s = Some t \<and> state_inv t \<and> visited t = insert c (visited s) \<and> entries t = entries s"
proof -
  let ?k = "unat c div 64" and ?n = "unat c mod 64"
  let ?w = "probeMask s ! ?k OR push_bit ?n 1"
  let ?u = "s\<lparr>probeMask := (probeMask s)[?k := ?w]\<rparr>"
  let ?t = "if probeCount s < 128
    then ?u\<lparr>probes := (probes s)[probeCount s := c], probeCount := Suc (probeCount s)\<rparr> else ?u"
  have k: "?k < length (probeMask s)" using assms by (simp add: state_inv_def cluster_ok_def)
  then have "addProbe c s = Some ?t"
    by (simp add: addProbe_def Let_def maxIVFProbe_def del: push_bit_of_1)
  moreover have "probeMask ?t = (probeMask s)[?k := ?w]" by simp
  then have "visited ?t = insert c (visited s)"
    using k assms(2) or_bit_iff [of ?n "probeMask s ! ?k"]
    by (auto simp: visited_def nth_list_update word_eq_split [of _ c] simp del: push_bit_of_1)
  moreover have "state_inv ?t" using assms(1) by (simp add: state_inv_def)
  moreover have "entries ?t = entries s" by simp
  ultimately show ?thesis by blast
qed

interpretation probed: visited_set hasProbe addProbe visited state_inv cluster_ok
  using hasProbe_visited addProbe_ok by unfold_locales blast+

text \<open>A cluster number the mask has no bit for is a run-time panic.\<close>

lemma hasProbe_panics: "state_inv s \<Longrightarrow> \<not> cluster_ok c \<Longrightarrow> hasProbe c s = None"
  by (simp add: hasProbe_def cluster_ok_def state_inv_def)

lemma visited_new [simp]: "visited newIVFSearchState = {}"
  by (auto simp: visited_def newIVFSearchState_def cluster_ok_def)

lemma visited_insert [simp]: "visited (ivf_insert d f i s) = visited s"
  by (simp add: visited_def)

lemma visited_offer [simp]: "visited (offer c s) = visited s"
  by (cases c) (simp add: offer_def)

lemma visited_offers [simp]: "visited (fold offer cs s) = visited s"
  by (induction cs arbitrary: s) auto

lemma holds_addProbe:
  assumes "holds cs s" "cluster_ok c"
  shows "\<exists>t. addProbe c s = Some t \<and> holds cs t \<and> visited t = insert c (visited s)"
  using addProbe_ok [of s c] assms by (auto simp: holds_def)

end
