(* ===== verification/Ivf_Index.thy ===== *)
theory Ivf_Index
  imports Quantized
begin

text \<open>
  The index (\<open>QuantizedIndex\<close>, \<open>IVFMetadata\<close> of \<open>quantized.go\<close>), its shape tests, its search
  parameters and the transposed block layout (\<open>ivf_build.go\<close>). \<open>wf_index\<close> is the well-formedness
  the searches rely on; the last section shows that a transposed copy holds, lane by lane, the rows
  it was made from.
\<close>

subsection \<open>The index\<close>

record IVFMetadata =
  Clusters :: int
  Centroids :: "i16 list"
  CentroidBlocks :: "i16 list"
  ListOffsets :: "u32 list"
  BlockOffsets :: "u32 list"
  BBoxMin :: "i16 list"
  BBoxMax :: "i16 list"
  OrigIDs :: "u32 list"
  NProbe :: int
  AmbiguousNProbe :: int
  Repair :: bool

record QuantizedIndex =
  Vectors :: "i16 list"
  Blocks :: "i16 list"
  Labels :: "u8 list"
  IVF :: IVFMetadata
  mmap :: "u8 list"

definition hasIVF :: "QuantizedIndex \<Rightarrow> bool" where
  "hasIVF idx \<longleftrightarrow> Clusters (IVF idx) > 0 \<and>
     int (length (ListOffsets (IVF idx))) = Clusters (IVF idx) + 1 \<and>
     int (length (Centroids (IVF idx))) \<ge> Clusters (IVF idx) * int Dimensions"

definition hasIVFBlocks :: "QuantizedIndex \<Rightarrow> bool" where
  "hasIVFBlocks idx \<longleftrightarrow> hasIVF idx \<and>
     int (length (BlockOffsets (IVF idx))) = Clusters (IVF idx) + 1 \<and>
     length (Blocks idx) \<ge> unat (BlockOffsets (IVF idx) ! nat (Clusters (IVF idx))) * ivfBlockStride"

definition blocksForRows :: "nat \<Rightarrow> nat" where
  "blocksForRows rows = (if rows = 0 then 0 else (rows + ivfBlockSize - 1) div ivfBlockSize)"

subsection \<open>Search parameters\<close>

definition normalizeIVFDefaults :: "QuantizedIndex \<Rightarrow> QuantizedIndex" where
  "normalizeIVFDefaults idx =
     (if \<not> hasIVF idx then idx
      else
        let m = IVF idx;
            m = (if NProbe m \<le> 0 then m\<lparr>NProbe := 8\<rparr> else m);
            m = (if AmbiguousNProbe m \<le> 0 then m\<lparr>AmbiguousNProbe := mul64 (NProbe m) 5\<rparr> else m);
            m = (if NProbe m > Clusters m then m\<lparr>NProbe := Clusters m\<rparr> else m);
            m = (if AmbiguousNProbe m < NProbe m then m\<lparr>AmbiguousNProbe := NProbe m\<rparr> else m);
            m = (if AmbiguousNProbe m > Clusters m then m\<lparr>AmbiguousNProbe := Clusters m\<rparr> else m)
        in idx\<lparr>IVF := m\<rparr>)"

definition SetIVFSearch :: "int \<Rightarrow> int \<Rightarrow> bool \<Rightarrow> QuantizedIndex \<Rightarrow> QuantizedIndex" where
  "SetIVFSearch nprobe ambiguousNProbe repair idx =
     (if \<not> hasIVF idx then idx
      else
        let m = IVF idx;
            m = (if nprobe > 0 then m\<lparr>NProbe := nprobe\<rparr> else m);
            m = (if ambiguousNProbe > 0 then m\<lparr>AmbiguousNProbe := ambiguousNProbe\<rparr> else m);
            m = m\<lparr>Repair := repair\<rparr>
        in normalizeIVFDefaults (idx\<lparr>IVF := m\<rparr>))"

subsection \<open>The transposed layout\<close>

text \<open>
  The inner loop of \<open>buildIVFBlocks\<close> and \<open>buildCentroidBlocks\<close>: copy one row-major vector,
  starting at \<open>src\<close> index \<open>sbase\<close>, into a lane.
\<close>

definition write_lane :: "i16 list \<Rightarrow> nat \<Rightarrow> nat \<Rightarrow> nat \<Rightarrow> i16 list \<Rightarrow> i16 list option" where
  "write_lane src sbase blockBase lane blocks =
     foldM (\<lambda>d blocks. do {
         v \<leftarrow> get src (sbase + d);
         put blocks (blockBase + d * ivfBlockSize + lane) v }) [0..<Dimensions] blocks"

definition buildCentroidBlocks :: "i16 list \<Rightarrow> nat \<Rightarrow> i16 list option" where
  "buildCentroidBlocks centroids clusters =
     foldM (\<lambda>c blocks.
         let block = c div ivfBlockSize;
             lane = c mod ivfBlockSize;
             blockBase = block * ivfBlockStride;
             centroidBase = c * Dimensions
         in write_lane centroids centroidBase blockBase lane blocks)
       [0..<clusters] (replicate (blocksForRows clusters * ivfBlockStride) 0)"

definition buildIVFBlocks :: "i16 list \<Rightarrow> u32 list \<Rightarrow> u32 list \<Rightarrow> i16 list option" where
  "buildIVFBlocks vectors listOffsets blockOffsets = do {
     blockCount \<leftarrow> get blockOffsets (length blockOffsets - 1);
     foldM (\<lambda>c blocks. do {
         rowStart \<leftarrow> get listOffsets c;
         rowEnd \<leftarrow> get listOffsets (c + 1);
         blockStart \<leftarrow> get blockOffsets c;
         foldM (\<lambda>row blocks.
             let rel = row - unat rowStart;
                 block = unat blockStart + rel div ivfBlockSize;
                 lane = rel mod ivfBlockSize;
                 blockBase = block * ivfBlockStride;
                 vectorBase = row * Dimensions
             in write_lane vectors vectorBase blockBase lane blocks)
           [unat rowStart..<unat rowEnd] blocks })
       [0..<length listOffsets - 1] (replicate (unat blockCount * ivfBlockStride) 0) }"

definition NewIVFQuantizedIndex ::
  "i16 list \<Rightarrow> u8 list \<Rightarrow> IVFMetadata \<Rightarrow> QuantizedIndex option" where
  "NewIVFQuantizedIndex vectors labels ivf = do {
     ivf \<leftarrow> (if Clusters ivf > 0 \<and> int (length (Centroids ivf)) \<ge> Clusters ivf * int Dimensions
                  \<and> length (CentroidBlocks ivf) = 0
             then do {
               cb \<leftarrow> buildCentroidBlocks (Centroids ivf) (nat (Clusters ivf));
               Some (ivf\<lparr>CentroidBlocks := cb\<rparr>) }
             else Some ivf);
     Some (normalizeIVFDefaults
       \<lparr>Vectors = vectors, Blocks = [], Labels = labels, IVF = ivf, mmap = []\<rparr>) }"

subsection \<open>Parameters stay in range\<close>

definition params_ok :: "QuantizedIndex \<Rightarrow> bool" where
  "params_ok idx \<longleftrightarrow> 1 \<le> NProbe (IVF idx) \<and> NProbe (IVF idx) \<le> AmbiguousNProbe (IVF idx) \<and>
     AmbiguousNProbe (IVF idx) \<le> Clusters (IVF idx)"

lemma normalize_params_ok:
  assumes "hasIVF idx"
  shows "params_ok (normalizeIVFDefaults idx)"
proof -
  have "Clusters (IVF idx) \<ge> 1" using assms by (simp add: hasIVF_def)
  with assms show ?thesis
    by (auto simp: normalizeIVFDefaults_def params_ok_def Let_def)
qed

lemma normalize_frame [simp]:
  "Vectors (normalizeIVFDefaults idx) = Vectors idx"
  "Blocks (normalizeIVFDefaults idx) = Blocks idx"
  "Labels (normalizeIVFDefaults idx) = Labels idx"
  "mmap (normalizeIVFDefaults idx) = mmap idx"
  "Clusters (IVF (normalizeIVFDefaults idx)) = Clusters (IVF idx)"
  "Centroids (IVF (normalizeIVFDefaults idx)) = Centroids (IVF idx)"
  "CentroidBlocks (IVF (normalizeIVFDefaults idx)) = CentroidBlocks (IVF idx)"
  "ListOffsets (IVF (normalizeIVFDefaults idx)) = ListOffsets (IVF idx)"
  "BlockOffsets (IVF (normalizeIVFDefaults idx)) = BlockOffsets (IVF idx)"
  "BBoxMin (IVF (normalizeIVFDefaults idx)) = BBoxMin (IVF idx)"
  "BBoxMax (IVF (normalizeIVFDefaults idx)) = BBoxMax (IVF idx)"
  "OrigIDs (IVF (normalizeIVFDefaults idx)) = OrigIDs (IVF idx)"
  "Repair (IVF (normalizeIVFDefaults idx)) = Repair (IVF idx)"
  by (simp_all add: normalizeIVFDefaults_def Let_def)

lemma normalize_hasIVF [simp]: "hasIVF (normalizeIVFDefaults idx) = hasIVF idx"
  by (simp add: hasIVF_def)

lemma normalize_NProbe:
  assumes "hasIVF idx" "0 < NProbe (IVF idx)"
  shows "NProbe (IVF (normalizeIVFDefaults idx)) = min (NProbe (IVF idx)) (Clusters (IVF idx))"
  using assms by (simp add: normalizeIVFDefaults_def Let_def)

lemma normalize_idem:
  assumes "hasIVF idx" "params_ok idx"
  shows "normalizeIVFDefaults idx = idx"
  using assms by (simp add: normalizeIVFDefaults_def params_ok_def Let_def)

subsection \<open>A written lane holds its row, and only that lane changes\<close>

definition vec_at :: "i16 list \<Rightarrow> nat \<Rightarrow> i16 list" where
  "vec_at src sbase = take Dimensions (drop sbase src)"

lemma length_vec_at: "sbase + Dimensions \<le> length src \<Longrightarrow> length (vec_at src sbase) = Dimensions"
  by (simp add: vec_at_def)

lemma nth_vec_at: "sbase + Dimensions \<le> length src \<Longrightarrow> k < Dimensions \<Longrightarrow> vec_at src sbase ! k = src ! (sbase + k)"
  by (simp add: vec_at_def)

lemma slice_vec_at:
  "sbase + Dimensions \<le> length src \<Longrightarrow> slice src sbase (sbase + Dimensions) = Some (vec_at src sbase)"
  by (simp add: slice_def vec_at_def)

text \<open>Positions of different lanes never meet.\<close>

lemma lane_position_inj:
  assumes "b * 112 + (d * 8 + l) = b' * 112 + (d' * 8 + l')" "l < 8" "l' < (8::nat)" "d < 14" "d' < (14::nat)"
  shows "b = b' \<and> d = d' \<and> l = l'"
proof -
  have split8: "x = y \<and> l = l'" if "x * 8 + l = y * 8 + l'" for x y :: nat
  proof
    from arg_cong [OF that, of "\<lambda>n. n div 8"] show "x = y" using assms(2,3) by simp
    with that show "l = l'" by simp
  qed
  have split14: "x = y \<and> d = d'" if "x * 14 + d = y * 14 + d'" for x y :: nat
  proof
    from arg_cong [OF that, of "\<lambda>n. n div 14"] show "x = y" using assms(4,5) by simp
    with that show "d = d'" by simp
  qed
  have "(b * 14 + d) * 8 + l = (b' * 14 + d') * 8 + l'" using assms(1) by simp
  from split8 [OF this] split14 [of b b'] show ?thesis by blast
qed

lemma write_lane_ok:
  assumes "sbase + Dimensions \<le> length src" "b * ivfBlockStride + ivfBlockStride \<le> length blocks" "lane < ivfBlockSize"
  shows "\<exists>bs. write_lane src sbase (b * ivfBlockStride) lane blocks = Some bs \<and> length bs = length blocks \<and>
    lane_holds bs (b * ivfBlockStride) lane (vec_at src sbase) \<and>
    (\<forall>p. (\<forall>d < Dimensions. p \<noteq> b * ivfBlockStride + (d * ivfBlockSize + lane)) \<longrightarrow> bs ! p = blocks ! p)"
proof -
  let ?pos = "\<lambda>d. b * 112 + d * 8 + lane"
  define P where "P ds bs \<longleftrightarrow> length bs = length blocks \<and>
    (\<forall>d \<in> set ds. bs ! ?pos d = src ! (sbase + d)) \<and>
    (\<forall>p. (\<forall>d < 14. p \<noteq> ?pos d) \<longrightarrow> bs ! p = blocks ! p)" for ds bs
  have "\<exists>bs. write_lane src sbase (b * ivfBlockStride) lane blocks = Some bs \<and> P [0..<14] bs"
    unfolding write_lane_def Dimensions_def
  proof (rule foldM_invariant)
    show "P [] blocks" by (simp add: P_def)
  next
    fix ys d zs bs
    assume split: "[0..<14] = ys @ d # zs" and P: "P ys bs"
    have "d \<in> set [0..<14]" unfolding split by simp
    then have d: "d < 14" by simp
    have "distinct (ys @ d # zs)" unfolding split [symmetric] by simp
    then have "d \<notin> set ys" by simp
    with P d show "\<exists>s'. (do { v \<leftarrow> get src (sbase + d);
        put bs (b * ivfBlockStride + d * ivfBlockSize + lane) v }) = Some s' \<and> P (ys @ [d]) s'"
      using assms by (auto simp: P_def layout nth_list_update)
  qed
  then obtain bs where bs: "write_lane src sbase (b * ivfBlockStride) lane blocks = Some bs" "P [0..<14] bs"
    by blast
  then have "lane_holds bs (b * ivfBlockStride) lane (vec_at src sbase)"
    using assms by (auto simp: lane_holds_def P_def layout nth_vec_at [unfolded layout] add.assoc)
  with bs show ?thesis by (intro exI [of _ bs]) (auto simp: P_def layout add.assoc)
qed

lemma lane_holds_other:
  assumes "lane_holds blocks (b * ivfBlockStride) lane r" "lane < ivfBlockSize" "lane' < ivfBlockSize"
    and "(b, lane) \<noteq> (b', lane')" "length bs = length blocks"
    and "\<forall>p. (\<forall>d < Dimensions. p \<noteq> b' * ivfBlockStride + (d * ivfBlockSize + lane')) \<longrightarrow> bs ! p = blocks ! p"
  shows "lane_holds bs (b * ivfBlockStride) lane r"
  unfolding lane_holds_def
proof (intro allI impI)
  fix k
  assume k: "k < Dimensions"
  let ?p = "b * ivfBlockStride + (k * ivfBlockSize + lane)"
  have "?p \<noteq> b' * ivfBlockStride + (d * ivfBlockSize + lane')" if "d < Dimensions" for d
    using lane_position_inj [of b k lane b' d lane'] assms(2-4) k that by (auto simp: layout)
  with assms(6) have "bs ! ?p = blocks ! ?p" by blast
  with assms(1,5) k show "get bs ?p = Some (r ! k)"
    by (auto simp: lane_holds_def get_eq_Some)
qed

text \<open>
  Any run of lane writes to pairwise different lanes: afterwards every lane holds its row. A job
  is a source position, a block and a lane.
\<close>

definition run_job :: "i16 list \<Rightarrow> nat \<times> nat \<times> nat \<Rightarrow> i16 list \<Rightarrow> i16 list option" where
  "run_job src = (\<lambda>(sbase, b, lane) bs. write_lane src sbase (b * ivfBlockStride) lane bs)"

definition job_ok :: "i16 list \<Rightarrow> nat \<Rightarrow> nat \<times> nat \<times> nat \<Rightarrow> bool" where
  "job_ok src n = (\<lambda>(sbase, b, lane). sbase + Dimensions \<le> length src \<and>
     b * ivfBlockStride + ivfBlockStride \<le> n \<and> lane < ivfBlockSize)"

lemma run_jobs_ok:
  assumes "\<forall>j \<in> set jobs. job_ok src (length blocks) j" "distinct (map snd jobs)"
  shows "\<exists>bs. foldM (run_job src) jobs blocks = Some bs \<and> length bs = length blocks \<and>
    (\<forall>(sbase, b, lane) \<in> set jobs. lane_holds bs (b * ivfBlockStride) lane (vec_at src sbase))"
proof (rule foldM_invariant)
  fix ys j zs bs
  assume split: "jobs = ys @ j # zs"
    and P: "length bs = length blocks \<and>
      (\<forall>(sbase, b, lane) \<in> set ys. lane_holds bs (b * ivfBlockStride) lane (vec_at src sbase))"
  obtain sb b l where j: "j = (sb, b, l)" by (cases j)
  have ok: "job_ok src (length bs) (sb, b, l)" using assms(1) split P j by auto
  then obtain bs' where bs': "write_lane src sb (b * ivfBlockStride) l bs = Some bs'"
      "length bs' = length bs" "lane_holds bs' (b * ivfBlockStride) l (vec_at src sb)"
      "\<forall>p. (\<forall>d < Dimensions. p \<noteq> b * ivfBlockStride + (d * ivfBlockSize + l)) \<longrightarrow> bs' ! p = bs ! p"
    using write_lane_ok [of sb src b bs l] by (auto simp: job_ok_def)
  have "lane_holds bs' (b' * ivfBlockStride) l' (vec_at src sb')" if "(sb', b', l') \<in> set ys" for sb' b' l'
  proof (rule lane_holds_other [OF _ _ _ _ bs'(2,4)])
    show "lane_holds bs (b' * ivfBlockStride) l' (vec_at src sb')" using P that by blast
    show "l' < ivfBlockSize" using assms(1) split that by (fastforce simp: job_ok_def)
    show "l < ivfBlockSize" using ok by (simp add: job_ok_def)
    have "(b', l') \<in> snd ` set ys" using that by force
    then show "(b', l') \<noteq> (b, l)" using assms(2) split j by auto
  qed
  with bs' P j show "\<exists>s'. run_job src j bs = Some s' \<and> length s' = length blocks \<and>
      (\<forall>(sbase, b, lane) \<in> set (ys @ [j]). lane_holds s' (b * ivfBlockStride) lane (vec_at src sbase))"
    by (auto simp: run_job_def)
qed simp

subsection \<open>Offset tables\<close>

text \<open>What \<open>validateIVFOffsets\<close> checks of a loaded index, and what the builder produces.\<close>

definition offsets_ok :: "nat \<Rightarrow> nat \<Rightarrow> u32 list \<Rightarrow> bool" where
  "offsets_ok count n lo \<longleftrightarrow> length lo = n + 1 \<and> lo ! 0 = 0 \<and> unat (lo ! n) = count \<and>
     (\<forall>c < n. lo ! c \<le> lo ! (c + 1))"

definition block_offsets_ok :: "nat \<Rightarrow> u32 list \<Rightarrow> u32 list \<Rightarrow> bool" where
  "block_offsets_ok n lo bo \<longleftrightarrow> length bo = n + 1 \<and> bo ! 0 = 0 \<and>
     (\<forall>c < n. bo ! c \<le> bo ! (c + 1) \<and>
        unat (bo ! (c + 1)) - unat (bo ! c) = blocksForRows (unat (lo ! (c + 1)) - unat (lo ! c)))"

text \<open>The rows of a cluster.\<close>

definition rows_of :: "u32 list \<Rightarrow> nat \<Rightarrow> nat list" where
  "rows_of lo c = [unat (lo ! c)..<unat (lo ! (c + 1))]"

lemma mono_prefix:
  assumes "\<forall>c < n. lo ! c \<le> (lo ! (c + 1) :: u32)" "i \<le> j" "j \<le> n"
  shows "unat (lo ! i) \<le> unat (lo ! j)"
  using assms(2,3)
proof (induction rule: dec_induct)
  case base
  then show ?case by simp
next
  case (step k)
  then have "lo ! k \<le> lo ! (k + 1)" using assms(1) by simp
  then have "unat (lo ! k) \<le> unat (lo ! Suc k)" by (simp add: word_le_nat_alt)
  with step show ?case by simp
qed

lemma offsets_mono: "offsets_ok count n lo \<Longrightarrow> i \<le> j \<Longrightarrow> j \<le> n \<Longrightarrow> unat (lo ! i) \<le> unat (lo ! j)"
  by (rule mono_prefix [of n]) (auto simp: offsets_ok_def)

lemma block_offsets_mono: "block_offsets_ok n lo bo \<Longrightarrow> i \<le> j \<Longrightarrow> j \<le> n \<Longrightarrow> unat (bo ! i) \<le> unat (bo ! j)"
  by (rule mono_prefix [of n]) (auto simp: block_offsets_ok_def)

lemma rows_of_less: "offsets_ok count n lo \<Longrightarrow> c < n \<Longrightarrow> row \<in> set (rows_of lo c) \<Longrightarrow> row < count"
  using offsets_mono [of count n lo "c + 1" n] by (auto simp: rows_of_def offsets_ok_def)

text \<open>The clusters partition the rows.\<close>

lemma concat_rows_of: "offsets_ok count n lo \<Longrightarrow> m \<le> n \<Longrightarrow> concat (map (rows_of lo) [0..<m]) = [0..<unat (lo ! m)]"
proof (induction m)
  case 0
  then show ?case by (simp add: offsets_ok_def)
next
  case (Suc m)
  then have "unat (lo ! m) \<le> unat (lo ! Suc m)" using offsets_mono [of count n lo m "Suc m"] by simp
  then have "[0..<unat (lo ! m)] @ [unat (lo ! m)..<unat (lo ! Suc m)] = [0..<unat (lo ! Suc m)]"
    by (metis le_add_diff_inverse upt_add_eq_append zero_le)
  with Suc show ?case by (simp add: rows_of_def)
qed

lemma blocksForRows_cover: "rows \<le> blocksForRows rows * 8"
  by (simp add: blocksForRows_def ivfBlockSize_def) arith

lemma blocksForRows_rel: "rel < rows \<Longrightarrow> rel div 8 < blocksForRows rows"
  by (simp add: blocksForRows_def ivfBlockSize_def)

lemma blocksForRows_pos: "0 < rows \<Longrightarrow> 0 < blocksForRows rows"
  by (simp add: blocksForRows_def ivfBlockSize_def)

subsection \<open>The two block builders are right\<close>

lemma buildCentroidBlocks_ok:
  assumes "clusters * Dimensions \<le> length centroids"
  shows "\<exists>bs. buildCentroidBlocks centroids clusters = Some bs \<and>
    length bs = blocksForRows clusters * ivfBlockStride \<and>
    (\<forall>c < clusters. lane_holds bs (c div 8 * ivfBlockStride) (c mod 8) (vec_at centroids (c * Dimensions)))"
proof -
  let ?job = "\<lambda>c. (c * Dimensions, c div 8, c mod 8)"
  let ?bs = "replicate (blocksForRows clusters * ivfBlockStride) (0 :: i16)"
  have eq: "buildCentroidBlocks centroids clusters = foldM (run_job centroids) (map ?job [0..<clusters]) ?bs"
    unfolding foldM_map by (simp add: buildCentroidBlocks_def run_job_def ivfBlockSize_def Let_def)
  have "job_ok centroids (length ?bs) (?job c)" if "c < clusters" for c
  proof -
    have "(c + 1) * Dimensions \<le> clusters * Dimensions" using that by (intro mult_le_mono1) simp
    moreover have "(c div 8 + 1) * ivfBlockStride \<le> blocksForRows clusters * ivfBlockStride"
      using blocksForRows_rel [OF that] by (intro mult_le_mono1) simp
    ultimately show ?thesis using assms by (simp add: job_ok_def ivfBlockSize_def)
  qed
  moreover have "distinct (map snd (map ?job [0..<clusters]))"
    by (auto simp: distinct_map inj_on_def intro: divmod_eq)
  ultimately show ?thesis
    using run_jobs_ok [of "map ?job [0..<clusters]" centroids ?bs] unfolding eq by auto
qed

definition block_job :: "u32 list \<Rightarrow> u32 list \<Rightarrow> nat \<Rightarrow> nat \<Rightarrow> nat \<times> nat \<times> nat" where
  "block_job lo bo c row = (row * Dimensions, unat (bo ! c) + (row - unat (lo ! c)) div 8,
     (row - unat (lo ! c)) mod 8)"

lemma block_job_range:
  assumes "block_offsets_ok n lo bo" "c < n" "row \<in> set (rows_of lo c)"
  shows "unat (bo ! c) \<le> fst (snd (block_job lo bo c row))"
    and "fst (snd (block_job lo bo c row)) < unat (bo ! (c + 1))"
proof -
  have "(row - unat (lo ! c)) div 8 < unat (bo ! (c + 1)) - unat (bo ! c)"
    using assms blocksForRows_rel [of "row - unat (lo ! c)" "unat (lo ! (c + 1)) - unat (lo ! c)"]
    by (auto simp: block_offsets_ok_def rows_of_def)
  then show "fst (snd (block_job lo bo c row)) < unat (bo ! (c + 1))"
    by (simp add: block_job_def)
qed (simp add: block_job_def)

lemma distinct_block_jobs:
  assumes "block_offsets_ok n lo bo" "m \<le> n"
  shows "distinct (map snd (concat (map (\<lambda>c. map (block_job lo bo c) (rows_of lo c)) [0..<m])))"
  using assms(2)
proof (induction m)
  case 0
  then show ?case by simp
next
  case (Suc m)
  let ?J = "\<lambda>c. map snd (map (block_job lo bo c) (rows_of lo c))"
  have "inj_on (\<lambda>row. snd (block_job lo bo m row)) (set (rows_of lo m))"
  proof (rule inj_onI)
    fix x y
    assume "x \<in> set (rows_of lo m)" "y \<in> set (rows_of lo m)"
      and eq: "snd (block_job lo bo m x) = snd (block_job lo bo m y)"
    then have le: "unat (lo ! m) \<le> x" "unat (lo ! m) \<le> y" by (auto simp: rows_of_def)
    let ?x = "x - unat (lo ! m)" and ?y = "y - unat (lo ! m)"
    have "?x div 8 = ?y div 8" "?x mod 8 = ?y mod 8" using eq by (simp_all add: block_job_def)
    then have "?x = ?y" by (rule divmod_eq)
    with le show "x = y" by simp
  qed
  then have "distinct (?J m)" by (simp add: distinct_map comp_def rows_of_def)
  moreover have "set (?J m) \<inter> set (?J c) = {}" if "c < m" for c
  proof -
    have "fst p < unat (bo ! m)" if "p \<in> set (?J c)" for p
      using block_job_range(2) [OF assms(1), of c] that \<open>c < m\<close> Suc.prems
        block_offsets_mono [OF assms(1), of "c + 1" m] by fastforce
    moreover have "unat (bo ! m) \<le> fst p" if "p \<in> set (?J m)" for p
      using block_job_range(1) [OF assms(1), of m] that Suc.prems by auto
    ultimately show ?thesis by (intro disjoint_by_bound)
  qed
  ultimately show ?case using Suc by (auto simp: map_concat) blast
qed

lemma buildIVFBlocks_ok:
  assumes lo: "offsets_ok count n lo" and bo: "block_offsets_ok n lo bo"
    and len: "count * Dimensions \<le> length vectors"
  shows "\<exists>bs. buildIVFBlocks vectors lo bo = Some bs \<and> length bs = unat (bo ! n) * ivfBlockStride \<and>
    (\<forall>c < n. \<forall>row \<in> set (rows_of lo c).
       lane_holds bs ((unat (bo ! c) + (row - unat (lo ! c)) div 8) * ivfBlockStride)
         ((row - unat (lo ! c)) mod 8) (vec_at vectors (row * Dimensions)))"
proof -
  let ?bs = "replicate (unat (bo ! n) * ivfBlockStride) (0 :: i16)"
  let ?jobs = "concat (map (\<lambda>c. map (block_job lo bo c) (rows_of lo c)) [0..<n])"
  have l: "length lo = n + 1" "length bo = n + 1" using lo bo by (auto simp: offsets_ok_def block_offsets_ok_def)
  have "buildIVFBlocks vectors lo bo =
      foldM (\<lambda>c. foldM (run_job vectors) (map (block_job lo bo c) (rows_of lo c))) [0..<n] ?bs"
    using l by (auto simp: buildIVFBlocks_def foldM_map block_job_def run_job_def rows_of_def
        ivfBlockSize_def Let_def intro!: foldM_cong)
  then have eq: "buildIVFBlocks vectors lo bo = foldM (run_job vectors) ?jobs ?bs"
    by (simp add: foldM_concat)
  have "job_ok vectors (length ?bs) (block_job lo bo c row)" if "c < n" "row \<in> set (rows_of lo c)" for c row
  proof -
    have "(row + 1) * Dimensions \<le> count * Dimensions"
      using rows_of_less [OF lo that] by (intro mult_le_mono1) simp
    moreover have "(fst (snd (block_job lo bo c row)) + 1) * ivfBlockStride \<le> unat (bo ! n) * ivfBlockStride"
      using block_job_range(2) [OF bo that] block_offsets_mono [OF bo, of "c + 1" n] that(1)
      by (intro mult_le_mono1) simp
    ultimately show ?thesis using len by (simp add: job_ok_def block_job_def ivfBlockSize_def)
  qed
  then have "\<forall>j \<in> set ?jobs. job_ok vectors (length ?bs) j" by auto
  from run_jobs_ok [OF this distinct_block_jobs [OF bo order_refl]]
  show ?thesis unfolding eq by (fastforce simp: block_job_def)
qed

end
