(* ===== verification/Avx2_Kernels.thy ===== *)
theory Avx2_Kernels
  imports Ivf_Index
begin

text \<open>
  The assembly kernels of \<open>ivf_search_avx2_amd64.s\<close>, one lane at a time: the eight lanes of a
  register never mix. A step broadcasts a query value, sign-extends both sides to 32 bits,
  subtracts and multiplies in 32 bits (\<open>VPSUBD\<close>, \<open>VPMULLD\<close>: the low half of the product), then
  sign-extends to 64 bits and adds. The product of two differences above 46340 would overflow
  the 32 bits; a query of the quantizer's range keeps every difference below it, and then the kernels
  return the exact squared distances.
\<close>

definition avx_step :: "i16 \<Rightarrow> i16 \<Rightarrow> u64 \<Rightarrow> u64" where
  "avx_step q v acc = (let d = (scast q :: 32 word) - scast v in acc + scast (d * d))"

definition avx_lane :: "i16 list \<Rightarrow> (nat \<Rightarrow> i16 option) \<Rightarrow> int option" where
  "avx_lane query load = do {
     acc \<leftarrow> foldM (\<lambda>k acc. do { v \<leftarrow> load k; Some (avx_step (query ! k) v acc) }) distOrder 0;
     Some (sint acc) }"

text \<open>\<open>base\<close> is the index of the first value the pointer argument points to.\<close>

definition quantizedBlock8DistancesAVX2 :: "i16 list \<Rightarrow> i16 list \<Rightarrow> nat \<Rightarrow> int list option" where
  "quantizedBlock8DistancesAVX2 query block base =
     those (map (\<lambda>lane. avx_lane query (\<lambda>k. get block (base + (k * ivfBlockSize + lane)))) [0..<8])"

definition quantizedBlock32DistancesAVX2 :: "i16 list \<Rightarrow> i16 list \<Rightarrow> nat \<Rightarrow> int list option" where
  "quantizedBlock32DistancesAVX2 query block base = do {
     d0 \<leftarrow> quantizedBlock8DistancesAVX2 query block base;
     d1 \<leftarrow> quantizedBlock8DistancesAVX2 query block (base + 112);
     d2 \<leftarrow> quantizedBlock8DistancesAVX2 query block (base + 224);
     d3 \<leftarrow> quantizedBlock8DistancesAVX2 query block (base + 336);
     Some (d0 @ d1 @ d2 @ d3) }"

definition quantized8DistancesRowMajorAVX2 :: "i16 list \<Rightarrow> i16 list \<Rightarrow> nat \<Rightarrow> int list option" where
  "quantized8DistancesRowMajorAVX2 query vectors base =
     those (map (\<lambda>lane. avx_lane query (\<lambda>k. get vectors (base + (k + lane * Dimensions)))) [0..<8])"

subsection \<open>Queries the quantizer can produce\<close>

definition quantized_query :: "i16 list \<Rightarrow> bool" where
  "quantized_query q \<longleftrightarrow> length q = Dimensions \<and> (\<forall>x \<in> set q. - 10000 \<le> sint x \<and> sint x \<le> 10000)"

lemma quantized_query_diff:
  assumes "quantized_query q" "k < Dimensions"
  shows "\<bar>sint (q ! k) - sint (v :: i16)\<bar> \<le> 46340"
proof -
  have "q ! k \<in> set q" using assms by (simp add: quantized_query_def)
  with assms have "- 10000 \<le> sint (q ! k)" "sint (q ! k) \<le> 10000" by (auto simp: quantized_query_def)
  with sint16_bounds [of v] show ?thesis by linarith
qed

lemma take_bit_signed32: "0 \<le> x \<Longrightarrow> x \<le> 2147483647 \<Longrightarrow> signed_take_bit 31 (x :: int) = x"
  by (rule signed_take_bit_int_eq_self) auto

lemma scast_word: "(scast (w :: 'a::len word) :: 'b::len word) = word_of_int (sint w)"
  by simp

lemma avx_step_exact:
  assumes "\<bar>sint q - sint v\<bar> \<le> 46340"
  shows "avx_step q v acc = acc + word_of_int (sq q v)"
proof -
  let ?d = "sint q - sint v"
  have "\<bar>?d\<bar>\<^sup>2 \<le> 46340\<^sup>2" using assms by (rule power_mono) simp
  then have b: "0 \<le> ?d * ?d" "?d * ?d \<le> 2147395600" by (simp_all add: power2_eq_square)
  let ?p = "((scast q :: 32 word) - scast v) * (scast q - scast v)"
  have "?p = word_of_int (?d * ?d)"
    unfolding scast_word [where 'b = 32] by (simp only: wi_hom_sub wi_hom_mult)
  then have "sint ?p = signed_take_bit 31 (?d * ?d)"
    by (simp only: signed_of_int) simp
  also have "\<dots> = ?d * ?d"
    using b by (intro take_bit_signed32) linarith+
  finally have "(scast ?p :: u64) = word_of_int (sq q v)"
    unfolding scast_word [where 'b = 64] sq_def power2_eq_square by (rule arg_cong)
  then show ?thesis by (simp only: avx_step_def Let_def)
qed

lemma foldM_avx:
  assumes "\<And>k. k \<in> set ks \<Longrightarrow> load k = Some (v k) \<and> \<bar>sint (q ! k) - sint (v k)\<bar> \<le> 46340"
  shows "foldM (\<lambda>k acc. do { v \<leftarrow> load k; Some (avx_step (q ! k) v acc) }) ks acc =
    Some (acc + word_of_int (sum_list (map (\<lambda>k. sq (q ! k) (v k)) ks)))"
  using assms
proof (induction ks arbitrary: acc)
  case Nil
  then show ?case by simp
next
  case (Cons k ks)
  then show ?case by (simp add: avx_step_exact add.assoc flip: wi_hom_add)
qed

text \<open>A lane of a kernel returns the exact squared distance.\<close>

lemma avx_lane_exact:
  assumes "quantized_query q" "\<And>k. k < Dimensions \<Longrightarrow> load k = Some (r ! k)"
  shows "avx_lane q load = Some (sqdist q r)"
proof -
  have "foldM (\<lambda>k acc. do { v \<leftarrow> load k; Some (avx_step (q ! k) v acc) }) distOrder 0 =
    Some (0 + word_of_int (sum_list (map (\<lambda>k. sq (q ! k) (r ! k)) distOrder)))"
    using assms quantized_query_diff [OF assms(1)]
    by (intro foldM_avx) (auto simp: set_distOrder)
  moreover have "sum_list (map (\<lambda>k. sq (q ! k) (r ! k)) distOrder) = sqdist q r"
    using sum_list_terms [of q r] by (simp add: terms_def)
  moreover have "sint (word_of_int (sqdist q r) :: u64) = sqdist q r"
    using sqdist_bound [of q r] sqdist_nonneg [of q r] wrap64_id [of "sqdist q r"]
    by (simp only: signed_of_int) (simp add: wrap64_def del: sqdist_nonneg)
  ultimately show ?thesis by (simp add: avx_lane_def)
qed

lemma those_map_Some: "(\<And>x. x \<in> set xs \<Longrightarrow> f x = Some (g x)) \<Longrightarrow> those (map f xs) = Some (map g xs)"
  by (induction xs) auto

text \<open>What a lane of a block inside the array holds, whether or not it is padding.\<close>

definition lane_vec :: "i16 list \<Rightarrow> nat \<Rightarrow> nat \<Rightarrow> i16 list" where
  "lane_vec blocks base lane = map (\<lambda>k. blocks ! (base + (k * ivfBlockSize + lane))) [0..<Dimensions]"

lemma length_lane_vec [simp]: "length (lane_vec blocks base lane) = Dimensions"
  by (simp add: lane_vec_def)

lemma lane_holds_lane_vec:
  assumes "base + ivfBlockStride \<le> length blocks" "lane < ivfBlockSize"
  shows "lane_holds blocks base lane (lane_vec blocks base lane)"
  using assms by (auto simp: lane_holds_def lane_vec_def layout)

lemma lane_holds_eq:
  "lane_holds blocks base lane r \<Longrightarrow> length r = Dimensions \<Longrightarrow> lane_vec blocks base lane = r"
  by (rule nth_equalityI) (auto simp: lane_holds_def lane_vec_def get_eq_Some)

lemma block8_exact:
  assumes "quantized_query q" "base + ivfBlockStride \<le> length blocks"
  shows "quantizedBlock8DistancesAVX2 q blocks base =
    Some (map (\<lambda>lane. sqdist q (lane_vec blocks base lane)) [0..<8])"
  unfolding quantizedBlock8DistancesAVX2_def
proof (intro those_map_Some avx_lane_exact [OF assms(1)])
  fix lane k
  assume "lane \<in> set [0..<8]" "k < Dimensions"
  then show "get blocks (base + (k * ivfBlockSize + lane)) = Some (lane_vec blocks base lane ! k)"
    using lane_holds_lane_vec [OF assms(2), of lane] by (simp add: lane_holds_def ivfBlockSize_def)
qed

text \<open>Lane \<open>i\<close> of four consecutive blocks is lane \<open>i mod 8\<close> of block \<open>i div 8\<close>.\<close>

lemma map_upt_shift8: "map (\<lambda>i. f (i div 8) (i mod 8)) [8 * b..<8 * b + 8] = map (f b) [0..<(8::nat)]"
proof (rule nth_equalityI)
  fix i
  assume "i < length (map (\<lambda>i. f (i div 8) (i mod 8)) [8 * b..<8 * b + 8])"
  then have i: "i < 8" by simp
  then have "(8 * b + i) div 8 = b" "(8 * b + i) mod 8 = i" by simp_all
  with i show "map (\<lambda>i. f (i div 8) (i mod 8)) [8 * b..<8 * b + 8] ! i = map (f b) [0..<8] ! i"
    by simp
qed simp

lemma block32_exact:
  assumes "quantized_query q" "base + 4 * ivfBlockStride \<le> length blocks"
  shows "quantizedBlock32DistancesAVX2 q blocks base =
    Some (map (\<lambda>i. sqdist q (lane_vec blocks (base + i div 8 * ivfBlockStride) (i mod 8))) [0..<32])"
proof -
  let ?f = "\<lambda>b lane. sqdist q (lane_vec blocks (base + b * ivfBlockStride) lane)"
  have "[0..<32] = [8 * 0..<8 * 0 + 8] @ [8 * 1..<8 * 1 + 8] @ [8 * 2..<8 * 2 + 8] @ [8 * 3..<8 * 3 + (8::nat)]"
    by code_simp
  then have "map (\<lambda>i. ?f (i div 8) (i mod 8)) [0..<32] =
      map (?f 0) [0..<8] @ map (?f 1) [0..<8] @ map (?f 2) [0..<8] @ map (?f 3) [0..<8]"
    by (simp only: map_append map_upt_shift8 [of ?f])
  moreover have "quantizedBlock8DistancesAVX2 q blocks (base + n * ivfBlockStride) = Some (map (?f n) [0..<8])"
    if "n < 4" for n
  proof (rule block8_exact [OF assms(1)])
    show "base + n * ivfBlockStride + ivfBlockStride \<le> length blocks"
      using block_fits [OF that, of ivfBlockStride] assms(2) by linarith
  qed
  from this [of 0] this [of 1] this [of 2] this [of 3]
  have "quantizedBlock8DistancesAVX2 q blocks base = Some (map (?f 0) [0..<8])"
    "quantizedBlock8DistancesAVX2 q blocks (base + 112) = Some (map (?f 1) [0..<8])"
    "quantizedBlock8DistancesAVX2 q blocks (base + 224) = Some (map (?f 2) [0..<8])"
    "quantizedBlock8DistancesAVX2 q blocks (base + 336) = Some (map (?f 3) [0..<8])"
    by (simp_all add: layout)
  ultimately show ?thesis by (simp add: quantizedBlock32DistancesAVX2_def)
qed

lemma rowmajor8_exact:
  assumes "quantized_query q" "base + 8 * Dimensions \<le> length vectors"
  shows "quantized8DistancesRowMajorAVX2 q vectors base =
    Some (map (\<lambda>lane. sqdist q (vec_at vectors (base + lane * Dimensions))) [0..<8])"
  unfolding quantized8DistancesRowMajorAVX2_def
proof (intro those_map_Some avx_lane_exact [OF assms(1)])
  fix lane k
  assume lane: "lane \<in> set [0..<8]" and k: "k < Dimensions"
  have le: "base + lane * Dimensions + Dimensions \<le> length vectors"
  proof -
    have "lane < 8" using lane by simp
    from block_fits [OF this, of Dimensions] assms(2) show ?thesis by linarith
  qed
  have "base + (k + lane * Dimensions) = base + lane * Dimensions + k" by simp
  with k le show "get vectors (base + (k + lane * Dimensions)) =
      Some (vec_at vectors (base + lane * Dimensions) ! k)"
    by (simp only: nth_vec_at get_Some)
qed

end
