(* ===== verification/Centroid_Select.thy ===== *)
theory Centroid_Select
  imports Topk Avx2_Kernels
begin

text \<open>
  \<open>topIVFCentroids\<close> of \<open>ivf_search.go\<close>: the \<open>nprobe\<close> clusters nearest to the query, by the scalar
  loop, by the AVX2 loop over transposed centroid blocks, and by its row-major fallback. A run's
  state is the triple of \<open>count\<close>, \<open>bestDist\<close> and \<open>out\<close>; \<open>probe_list\<close> reads it as a list of distance
  and cluster. All three loops insert the same sequence, so all three return the first \<open>nprobe\<close>
  clusters in a stable sort by distance.
\<close>

subsection \<open>The code\<close>

fun insertCentroid_from ::
  "nat \<Rightarrow> u32 \<Rightarrow> int \<Rightarrow> int list \<Rightarrow> u32 list \<Rightarrow> int list \<times> u32 list" where
  "insertCentroid_from i cluster dist bestDist bestID =
     (if i > 0 \<and> dist < bestDist ! (i - 1) then
        insertCentroid_from (i - 1) cluster dist
          (bestDist[i := bestDist ! (i - 1)]) (bestID[i := bestID ! (i - 1)])
      else (bestDist[i := dist], bestID[i := cluster]))"

declare insertCentroid_from.simps [simp del]

definition insertCentroid ::
  "nat \<Rightarrow> int \<Rightarrow> int list \<Rightarrow> u32 list \<Rightarrow> nat \<Rightarrow> int list \<times> u32 list" where
  "insertCentroid cluster dist bestDist bestID lastPos =
     insertCentroid_from lastPos (of_nat cluster) dist bestDist bestID"

type_synonym probe_state = "nat \<times> int list \<times> u32 list"

text \<open>The body shared by the five selection loops, once the distance is known.\<close>

definition centroid_step :: "nat \<Rightarrow> nat \<Rightarrow> int \<Rightarrow> probe_state \<Rightarrow> probe_state" where
  "centroid_step nprobe cluster d = (\<lambda>(count, bestDist, out).
     if count < nprobe then
       let (bestDist', out') = insertCentroid cluster d bestDist out count
       in (Suc count, bestDist', out')
     else if d < bestDist ! (nprobe - 1) then
       let (bestDist', out') = insertCentroid cluster d bestDist out (nprobe - 1)
       in (count, bestDist', out')
     else (count, bestDist, out))"

definition centroid_scalar_step ::
  "QuantizedIndex \<Rightarrow> i16 list \<Rightarrow> nat \<Rightarrow> nat \<Rightarrow> probe_state \<Rightarrow> probe_state option" where
  "centroid_scalar_step idx query nprobe c st = do {
     let start = c * Dimensions;
     ref \<leftarrow> slice (Centroids (IVF idx)) start (start + Dimensions);
     d \<leftarrow> quantizedDistance query ref (fst (snd st) ! (nprobe - 1));
     Some (centroid_step nprobe c d st) }"

definition clamp_nprobe :: "QuantizedIndex \<Rightarrow> int \<Rightarrow> nat" where
  "clamp_nprobe idx nprobe =
     (let n = (if nprobe > Clusters (IVF idx) then Clusters (IVF idx) else nprobe)
      in nat (if n > int maxIVFProbe then int maxIVFProbe else n))"

definition init_probe_state :: "nat \<Rightarrow> u32 list \<Rightarrow> probe_state" where
  "init_probe_state nprobe out =
     (0, fold (\<lambda>i bestDist. bestDist[i := maxInt64Value]) [0..<nprobe] (replicate maxIVFProbe 0), out)"

definition topIVFCentroidsScalar ::
  "QuantizedIndex \<Rightarrow> i16 list \<Rightarrow> int \<Rightarrow> u32 list \<Rightarrow> (nat \<times> u32 list) option" where
  "topIVFCentroidsScalar idx query nprobe out =
     (if nprobe \<le> 0 then Some (0, out)
      else do {
        let n = clamp_nprobe idx nprobe;
        (count, _, out') \<leftarrow> foldM (centroid_scalar_step idx query n) [0..<nat (Clusters (IVF idx))]
          (init_probe_state n out);
        Some (count, out') })"

text \<open>
  The vector loops \<open>for ; c+8 <= Clusters; c += 8\<close> run for \<open>c = 8 * b\<close> with \<open>b < Clusters div 8\<close>;
  the scalar step finishes the remainder.
\<close>

definition lanes8 :: "nat \<Rightarrow> nat \<Rightarrow> int list \<Rightarrow> probe_state \<Rightarrow> probe_state option" where
  "lanes8 nprobe c dist st =
     foldM (\<lambda>lane st. do { d \<leftarrow> get dist lane; Some (centroid_step nprobe (c + lane) d st) }) [0..<8] st"

definition centroid_vector_loop ::
  "QuantizedIndex \<Rightarrow> i16 list \<Rightarrow> nat \<Rightarrow> (nat \<Rightarrow> int list option) \<Rightarrow> u32 list \<Rightarrow> (nat \<times> u32 list) option" where
  "centroid_vector_loop idx query n distances out = do {
     let clusters = nat (Clusters (IVF idx));
     st \<leftarrow> foldM (\<lambda>b st. do { dist \<leftarrow> distances (8 * b); lanes8 n (8 * b) dist st })
       [0..<clusters div 8] (init_probe_state n out);
     (count, _, out') \<leftarrow> foldM (centroid_scalar_step idx query n) [8 * (clusters div 8)..<clusters] st;
     Some (count, out') }"

definition topIVFCentroidsRowMajorAVX2 ::
  "QuantizedIndex \<Rightarrow> i16 list \<Rightarrow> nat \<Rightarrow> u32 list \<Rightarrow> (nat \<times> u32 list) option" where
  "topIVFCentroidsRowMajorAVX2 idx query nprobe out =
     centroid_vector_loop idx query nprobe
       (\<lambda>c. quantized8DistancesRowMajorAVX2 query (Centroids (IVF idx)) (c * Dimensions)) out"

definition topIVFCentroidsAVX2 ::
  "QuantizedIndex \<Rightarrow> i16 list \<Rightarrow> int \<Rightarrow> u32 list \<Rightarrow> (nat \<times> u32 list) option" where
  "topIVFCentroidsAVX2 idx query nprobe out =
     (if nprobe \<le> 0 then Some (0, out)
      else
        let n = clamp_nprobe idx nprobe in
        if length (CentroidBlocks (IVF idx)) < blocksForRows (nat (Clusters (IVF idx))) * ivfBlockStride
        then topIVFCentroidsRowMajorAVX2 idx query n out
        else centroid_vector_loop idx query n
          (\<lambda>c. quantizedBlock8DistancesAVX2 query (CentroidBlocks (IVF idx)) (c div ivfBlockSize * ivfBlockStride)) out)"

definition topIVFCentroids ::
  "bool \<Rightarrow> QuantizedIndex \<Rightarrow> i16 list \<Rightarrow> int \<Rightarrow> u32 list \<Rightarrow> (nat \<times> u32 list) option" where
  "topIVFCentroids useIVFAVX2 idx query nprobe out =
     (if useIVFAVX2 then topIVFCentroidsAVX2 idx query nprobe out
      else topIVFCentroidsScalar idx query nprobe out)"

subsection \<open>Inserting a centroid\<close>

definition prefix_list :: "nat \<Rightarrow> int list \<Rightarrow> u32 list \<Rightarrow> (int \<times> u32) list" where
  "prefix_list k bd out = map (\<lambda>j. (bd ! j, out ! j)) [0..<k]"

lemma length_prefix_list [simp]: "length (prefix_list k bd out) = k"
  by (simp add: prefix_list_def)

lemma prefix_list_Suc: "prefix_list (Suc k) bd out = prefix_list k bd out @ [(bd ! k, out ! k)]"
  by (simp add: prefix_list_def)

lemma prefix_list_update:
  "k \<le> i \<Longrightarrow> prefix_list k (bd[i := x]) (out[i := y]) = prefix_list k bd out"
  by (simp add: prefix_list_def)

lemma prefix_list_cong:
  "(\<And>j. j < k \<Longrightarrow> bd ! j = bd' ! j \<and> out ! j = out' ! j) \<Longrightarrow> prefix_list k bd out = prefix_list k bd' out'"
  by (simp add: prefix_list_def)

lemma ins_after_snoc: "key e < key x \<Longrightarrow> ins_after key e (xs @ [x]) = ins_after key e xs @ [x]"
  by (induction xs) auto

lemma insertCentroid_from_ok:
  assumes "i < length bd" "i < length out" "sorted (map fst (prefix_list i bd out))"
    and "insertCentroid_from i c d bd out = (bd', out')"
  shows "prefix_list (Suc i) bd' out' = ins_after fst (d, c) (prefix_list i bd out) \<and>
    length bd' = length bd \<and> length out' = length out \<and>
    (\<forall>j > i. bd' ! j = bd ! j \<and> out' ! j = out ! j)"
  using assms
proof (induction i arbitrary: bd out bd' out')
  case 0
  then show ?case by (auto simp: insertCentroid_from.simps prefix_list_def)
next
  case (Suc i)
  show ?case
  proof (cases "d < bd ! i")
    case True
    let ?bd = "bd[Suc i := bd ! i]" and ?out = "out[Suc i := out ! i]"
    have rec: "insertCentroid_from i c d ?bd ?out = (bd', out')"
      using Suc.prems(4) True by (simp add: insertCentroid_from.simps [of "Suc i"])
    have pre: "prefix_list i ?bd ?out = prefix_list i bd out" by (simp add: prefix_list_update)
    have "sorted (map fst (prefix_list i bd out))"
      using Suc.prems(3) by (simp add: prefix_list_Suc sorted_append)
    with Suc.IH [OF _ _ _ rec] Suc.prems(1,2) pre
    have *: "prefix_list (Suc i) bd' out' = ins_after fst (d, c) (prefix_list i bd out)"
      "length bd' = length bd" "length out' = length out"
      "\<forall>j > i. bd' ! j = ?bd ! j \<and> out' ! j = ?out ! j" by auto
    then have "bd' ! Suc i = bd ! i" "out' ! Suc i = out ! i" using Suc.prems(1,2) by auto
    with * True show ?thesis
      by (auto simp: prefix_list_Suc [of "Suc i"] prefix_list_Suc [of i bd] ins_after_snoc)
  next
    case False
    then have res: "bd' = bd[Suc i := d]" "out' = out[Suc i := c]"
      using Suc.prems(4) by (auto simp: insertCentroid_from.simps [of "Suc i"])
    have "\<forall>x \<in> set (prefix_list (Suc i) bd out). fst x \<le> fst (d, c)"
      using Suc.prems(3) False by (auto simp: prefix_list_Suc sorted_append intro: order_trans)
    from ins_after_append_le [OF this, of "[]"] res Suc.prems(1,2) show ?thesis
      by (auto simp: prefix_list_Suc [of "Suc i"] prefix_list_update)
  qed
qed

text \<open>The invariant of a run: the slots in use are sorted, the others still hold the maximum.\<close>

fun probe_list :: "probe_state \<Rightarrow> (int \<times> u32) list" where
  "probe_list (cnt, bd, out) = prefix_list cnt bd out"

fun probe_inv :: "nat \<Rightarrow> probe_state \<Rightarrow> bool" where
  "probe_inv n (cnt, bd, out) \<longleftrightarrow> 0 < n \<and> n \<le> 128 \<and> cnt \<le> n \<and> length bd = 128 \<and>
     length out = 128 \<and> sorted (map fst (prefix_list cnt bd out)) \<and>
     (\<forall>j < n. cnt \<le> j \<longrightarrow> bd ! j = maxInt64Value)"

fun insert_probe :: "nat \<Rightarrow> int \<times> u32 \<Rightarrow> probe_state \<Rightarrow> probe_state" where
  "insert_probe n (d, c) st = centroid_step n (unat c) d st"

lemma sorted_keep_fst: "sorted (map fst xs) \<Longrightarrow> sorted (map fst (keep k fst e xs))"
  by (simp add: keep_def sorted_ins_after sorted_wrt_take flip: take_map)

lemma centroid_step_ok:
  assumes inv: "probe_inv n st"
  shows "probe_list (centroid_step n c d st) = keep n fst (d, of_nat c) (probe_list st) \<and>
    probe_inv n (centroid_step n c d st)"
proof -
  obtain cnt bd out where st: "st = (cnt, bd, out)" by (cases st)
  note I = inv [unfolded st probe_inv.simps]
  consider (room) "cnt < n" | (better) "cnt = n" "d < bd ! (n - 1)" | (worse) "cnt = n" "\<not> d < bd ! (n - 1)"
    using I by linarith
  then show ?thesis
  proof cases
    case room
    obtain bd' out' where e: "insertCentroid c d bd out cnt = (bd', out')" by force
    with insertCentroid_from_ok [of cnt bd out "of_nat c" d bd' out'] I room
    have r: "prefix_list (Suc cnt) bd' out' = ins_after fst (d, of_nat c) (prefix_list cnt bd out)"
      "length bd' = 128" "length out' = 128" "\<forall>j > cnt. bd' ! j = bd ! j" by (auto simp: insertCentroid_def)
    with I room have "prefix_list (Suc cnt) bd' out' = keep n fst (d, of_nat c) (prefix_list cnt bd out)"
      by (simp add: keep_def)
    moreover from this have "sorted (map fst (prefix_list (Suc cnt) bd' out'))"
      using I by (simp only: sorted_keep_fst)
    ultimately show ?thesis using I room e r by (simp add: st centroid_step_def)
  next
    case better
    then obtain m where m: "n = Suc m" using I by (cases n) auto
    obtain bd' out' where e: "insertCentroid c d bd out m = (bd', out')" by force
    have sm: "sorted (map fst (prefix_list m bd out))" using I better m by (simp add: prefix_list_Suc sorted_append)
    with insertCentroid_from_ok [of m bd out "of_nat c" d bd' out'] e I m
    have r: "prefix_list n bd' out' = ins_after fst (d, of_nat c) (prefix_list m bd out)"
      "length bd' = 128" "length out' = 128" by (auto simp: insertCentroid_def)
    have "keep n fst (d, of_nat c) (prefix_list n bd out) = prefix_list n bd' out'"
      using better m by (simp add: keep_def prefix_list_Suc [of m bd] ins_after_snoc r(1) [unfolded m])
    moreover from this have "sorted (map fst (prefix_list n bd' out'))"
      using I better by (metis sorted_keep_fst)
    ultimately show ?thesis using I better e r m by (simp add: st centroid_step_def)
  next
    case worse
    then obtain m where m: "n = Suc m" using I by (cases n) auto
    have "keep n fst (d, of_nat c) (prefix_list n bd out) = prefix_list n bd out"
      unfolding keep_def using I worse m
      by (intro ins_after_full) (auto simp: prefix_list_Suc)
    with I worse show ?thesis by (simp add: st centroid_step_def)
  qed
qed


interpretation probe_best: bounded_best "insert_probe n" probe_list "probe_inv n" "\<lambda>_. True" fst n
  using centroid_step_ok by unfold_locales auto

subsection \<open>The loops\<close>

definition centroid_dist :: "QuantizedIndex \<Rightarrow> i16 list \<Rightarrow> nat \<Rightarrow> int" where
  "centroid_dist idx q c = sqdist q (vec_at (Centroids (IVF idx)) (c * Dimensions))"

definition step_at :: "QuantizedIndex \<Rightarrow> i16 list \<Rightarrow> nat \<Rightarrow> nat \<Rightarrow> probe_state \<Rightarrow> probe_state" where
  "step_at idx q n c st = centroid_step n c (centroid_dist idx q c) st"

abbreviation clusters_of :: "QuantizedIndex \<Rightarrow> nat" where
  "clusters_of idx \<equiv> nat (Clusters (IVF idx))"

lemma hasIVF_centroids:
  assumes "hasIVF idx" "c < clusters_of idx"
  shows "c * Dimensions + Dimensions \<le> length (Centroids (IVF idx))"
proof -
  have "clusters_of idx * Dimensions \<le> length (Centroids (IVF idx))"
    using assms(1) by (simp add: hasIVF_def Dimensions_def) linarith
  with block_fits [OF assms(2), of Dimensions] show ?thesis by linarith
qed

lemma scalar_step_exact:
  assumes "hasIVF idx" "c < clusters_of idx" "probe_inv n st"
  shows "centroid_scalar_step idx q n c st = Some (step_at idx q n c st)"
proof -
  obtain cnt bd out where st: "st = (cnt, bd, out)" by (cases st)
  let ?ref = "vec_at (Centroids (IVF idx)) (c * Dimensions)" and ?cut = "bd ! (n - 1)"
  have len: "c * Dimensions + Dimensions \<le> length (Centroids (IVF idx))"
    using assms(1,2) by (rule hasIVF_centroids)
  then have "centroid_scalar_step idx q n c st = Some (centroid_step n c (cutDist q ?ref ?cut) st)"
    by (simp add: centroid_scalar_step_def slice_vec_at quantizedDistance_cutDist length_vec_at st Let_def)
  moreover have "centroid_step n c (cutDist q ?ref ?cut) st = step_at idx q n c st"
  proof (cases "cnt < n")
    case True
    then have "?cut = maxInt64Value" using assms(3) by (auto simp: st)
    then show ?thesis by (simp add: step_at_def centroid_dist_def cutDist_max)
  next
    case False
    then show ?thesis
      using cutDist_less_iff [of q ?ref ?cut] cutDist_below [of q ?ref ?cut]
      by (cases "sqdist q ?ref < ?cut") (simp_all add: step_at_def centroid_dist_def centroid_step_def st)
  qed
  ultimately show ?thesis by simp
qed

lemma step_at_inv: "probe_inv n st \<Longrightarrow> probe_inv n (step_at idx q n c st)"
  using centroid_step_ok [of n st c] by (simp add: step_at_def)

lemma fold_step_at_inv: "probe_inv n st \<Longrightarrow> probe_inv n (fold (step_at idx q n) cs st)"
  by (induction cs arbitrary: st) (auto simp: step_at_inv)

lemma scalar_loop:
  assumes "hasIVF idx" "\<forall>c \<in> set cs. c < clusters_of idx" "probe_inv n st"
  shows "foldM (centroid_scalar_step idx q n) cs st = Some (fold (step_at idx q n) cs st) \<and>
    probe_inv n (fold (step_at idx q n) cs st)"
  using assms scalar_step_exact step_at_inv by (intro foldM_fold) auto

lemma lanes8_exact:
  "lanes8 n c (map (\<lambda>lane. centroid_dist idx q (c + lane)) [0..<8]) st =
     Some (fold (step_at idx q n) [c..<c + 8] st)"
proof -
  let ?ds = "map (\<lambda>lane. centroid_dist idx q (c + lane)) [0..<8]"
  have "lanes8 n c ?ds st = foldM (\<lambda>lane st. Some (step_at idx q n (c + lane) st)) [0..<8] st"
    unfolding lanes8_def by (rule foldM_cong) (auto simp: step_at_def get_def)
  also have "\<dots> = Some (fold (\<lambda>lane. step_at idx q n (c + lane)) [0..<8] st)"
    by (rule foldM_Some)
  also have "fold (\<lambda>lane. step_at idx q n (c + lane)) [0..<8] st = fold (step_at idx q n) (map ((+) c) [0..<8]) st"
    by (simp add: fold_map comp_def)
  finally show ?thesis by (simp only: map_add_upt)
qed

lemma vector_loop_exact:
  assumes "hasIVF idx" "probe_inv n (init_probe_state n out)"
    and "\<And>b. b < clusters_of idx div 8 \<Longrightarrow>
      distances (8 * b) = Some (map (\<lambda>lane. centroid_dist idx q (8 * b + lane)) [0..<8])"
  shows "centroid_vector_loop idx q n distances out =
    (case fold (step_at idx q n) [0..<clusters_of idx] (init_probe_state n out) of (cnt, _, out') \<Rightarrow> Some (cnt, out'))"
proof -
  let ?m = "clusters_of idx div 8" and ?st = "init_probe_state n out"
  let ?F = "\<lambda>b st. do { dist \<leftarrow> distances (8 * b); lanes8 n (8 * b) dist st }"
  have step: "?F b st = Some (fold (step_at idx q n) [8 * b..<8 * b + 8] st)" if "b < ?m" for b st
    using assms(3) [OF that] by (simp add: lanes8_exact)
  have fold8: "fold (\<lambda>b. fold (step_at idx q n) [8 * b..<8 * b + 8]) [0..<k] st = fold (step_at idx q n) [0..<8 * k] st"
    for k st
  proof (induction k)
    case (Suc k)
    have "[0..<8 * Suc k] = [0..<8 * k] @ [8 * k..<8 * k + 8]"
      using upt_add_eq_append [of 0 "8 * k" 8] by (simp add: add.commute)
    with Suc show ?case by simp
  qed simp
  have "foldM ?F [0..<?m] ?st = Some (fold (\<lambda>b. fold (step_at idx q n) [8 * b..<8 * b + 8]) [0..<?m] ?st)"
    using foldM_fold [of "[0..<?m]" "\<lambda>_. True" ?F "\<lambda>b. fold (step_at idx q n) [8 * b..<8 * b + 8]" ?st] step
    by simp
  then have vec: "foldM ?F [0..<?m] ?st = Some (fold (step_at idx q n) [0..<8 * ?m] ?st)"
    by (simp only: fold8)
  have "probe_inv n (fold (step_at idx q n) [0..<8 * ?m] ?st)"
    using assms(2) by (rule fold_step_at_inv)
  from scalar_loop [OF assms(1) _ this, of "[8 * ?m..<clusters_of idx]"]
  have "foldM (centroid_scalar_step idx q n) [8 * ?m..<clusters_of idx]
      (fold (step_at idx q n) [0..<8 * ?m] ?st) =
    Some (fold (step_at idx q n) ([0..<8 * ?m] @ [8 * ?m..<clusters_of idx]) ?st)" by simp
  moreover have "[0..<8 * ?m] @ [8 * ?m..<clusters_of idx] = [0..<clusters_of idx]"
    using upt_add_eq_append [of 0 "8 * ?m" "clusters_of idx - 8 * ?m"] by simp
  ultimately show ?thesis
    by (simp add: centroid_vector_loop_def vec Let_def split: prod.splits)
qed

subsection \<open>What every selection returns\<close>

text \<open>The centroids' transposed copy, where there is one, holds the centroids.\<close>

definition centroid_blocks_ok :: "QuantizedIndex \<Rightarrow> bool" where
  "centroid_blocks_ok idx \<longleftrightarrow> (\<forall>c < clusters_of idx.
     blocksForRows (clusters_of idx) * ivfBlockStride \<le> length (CentroidBlocks (IVF idx)) \<longrightarrow>
     lane_holds (CentroidBlocks (IVF idx)) (c div 8 * ivfBlockStride) (c mod 8)
       (vec_at (Centroids (IVF idx)) (c * Dimensions)))"

lemma no_centroid_blocks:
  assumes "CentroidBlocks (IVF idx) = []"
  shows "centroid_blocks_ok idx"
  unfolding centroid_blocks_ok_def
proof (intro allI impI)
  fix c
  assume "c < clusters_of idx" "blocksForRows (clusters_of idx) * ivfBlockStride \<le> length (CentroidBlocks (IVF idx))"
  moreover from this(1) have "0 < blocksForRows (clusters_of idx)" by (intro blocksForRows_pos) simp
  ultimately show "lane_holds (CentroidBlocks (IVF idx)) (c div 8 * ivfBlockStride) (c mod 8)
      (vec_at (Centroids (IVF idx)) (c * Dimensions))" using assms by (simp add: layout)
qed

definition centroid_cands :: "QuantizedIndex \<Rightarrow> i16 list \<Rightarrow> (int \<times> u32) list" where
  "centroid_cands idx q = map (\<lambda>c. (centroid_dist idx q c, of_nat c)) [0..<clusters_of idx]"

text \<open>The first \<open>n\<close> clusters by distance, ties in cluster order.\<close>

definition nearest_centroids :: "QuantizedIndex \<Rightarrow> i16 list \<Rightarrow> nat \<Rightarrow> u32 list" where
  "nearest_centroids idx q n = map snd (best n fst (centroid_cands idx q))"

lemma map_snd_prefix: "map snd (prefix_list k bd out) = take k out" if "k \<le> length out"
  using that by (intro nth_equalityI) (auto simp: prefix_list_def)

lemma fill_max:
  "n \<le> length bd \<Longrightarrow> length (fold (\<lambda>i bd. bd[i := maxInt64Value]) [0..<n] bd) = length bd \<and>
    (\<forall>j < n. fold (\<lambda>i bd. bd[i := maxInt64Value]) [0..<n] bd ! j = maxInt64Value)"
  by (induction n) (auto simp: nth_list_update less_Suc_eq)

lemma init_probe_inv:
  assumes "0 < n" "n \<le> 128" "length out = 128"
  shows "probe_inv n (init_probe_state n out)" "probe_list (init_probe_state n out) = []"
  using assms fill_max [of n "replicate maxIVFProbe 0"]
  by (auto simp: init_probe_state_def maxIVFProbe_def prefix_list_def)

lemma clamp_bounds:
  assumes "hasIVF idx" "0 < nprobe"
  shows "0 < clamp_nprobe idx nprobe" "clamp_nprobe idx nprobe \<le> 128" "clamp_nprobe idx nprobe \<le> clusters_of idx"
  using assms by (auto simp: clamp_nprobe_def hasIVF_def maxIVFProbe_def Let_def)

text \<open>What the insertions leave behind.\<close>

lemma fold_step_at:
  assumes "hasIVF idx" "0 < n" "n \<le> 128" "n \<le> clusters_of idx" "length out = 128"
    and "fold (step_at idx q n) [0..<clusters_of idx] (init_probe_state n out) = (cnt, bd, out')"
  shows "cnt = n" "length out' = 128" "take n out' = nearest_centroids idx q n"
proof -
  let ?ins = "\<lambda>e. centroid_step n (unat (snd e)) (fst e)"
  have run: "probe_inv n st \<Longrightarrow> probe_inv n (fold (step_at idx q n) cs st) \<and>
    probe_list (fold (step_at idx q n) cs st) =
      fold (keep n fst) (map (\<lambda>c. (centroid_dist idx q c, of_nat c)) cs) (probe_list st)" for cs st
    by (induction cs arbitrary: st) (auto simp: step_at_def centroid_step_ok)
  from run [OF init_probe_inv(1) [OF assms(2,3,5)], of "[0..<clusters_of idx]"]
  have inv: "probe_inv n (cnt, bd, out')"
    and l: "prefix_list cnt bd out' = best n fst (centroid_cands idx q)"
    using init_probe_inv(2) [OF assms(2,3,5)] assms(6)
    by (auto simp: best_fold centroid_cands_def)
  from arg_cong [OF l, of length] assms(4) show "cnt = n" by (simp add: centroid_cands_def)
  with l inv show "length out' = 128" "take n out' = nearest_centroids idx q n"
    using map_snd_prefix [of n out' bd] assms(3) by (auto simp: nearest_centroids_def)
qed

lemma topScalar_run:
  assumes "hasIVF idx" "0 < nprobe" "length out = 128"
  shows "topIVFCentroidsScalar idx q nprobe out =
    (case fold (step_at idx q (clamp_nprobe idx nprobe)) [0..<clusters_of idx]
       (init_probe_state (clamp_nprobe idx nprobe) out) of (cnt, _, out') \<Rightarrow> Some (cnt, out'))"
proof -
  let ?n = "clamp_nprobe idx nprobe"
  have "probe_inv ?n (init_probe_state ?n out)"
    using clamp_bounds [OF assms(1,2)] assms(3) by (intro init_probe_inv)
  from scalar_loop [OF assms(1) _ this, of "[0..<clusters_of idx]"] assms(2) show ?thesis
    by (auto simp: topIVFCentroidsScalar_def Let_def split: prod.splits)
qed

lemma topAVX2_run:
  assumes "hasIVF idx" "0 < nprobe" "length out = 128" "quantized_query q" "centroid_blocks_ok idx"
  shows "topIVFCentroidsAVX2 idx q nprobe out =
    (case fold (step_at idx q (clamp_nprobe idx nprobe)) [0..<clusters_of idx]
       (init_probe_state (clamp_nprobe idx nprobe) out) of (cnt, _, out') \<Rightarrow> Some (cnt, out'))"
proof -
  let ?n = "clamp_nprobe idx nprobe" and ?C = "Centroids (IVF idx)" and ?CB = "CentroidBlocks (IVF idx)"
  have inv: "probe_inv ?n (init_probe_state ?n out)"
    using clamp_bounds [OF assms(1,2)] assms(3) by (intro init_probe_inv)
  have lt: "8 * b + lane < clusters_of idx" if "b < clusters_of idx div 8" "lane < 8" for b lane
    using that by linarith
  show ?thesis
  proof (cases "length ?CB < blocksForRows (clusters_of idx) * ivfBlockStride")
    case True
    have "quantized8DistancesRowMajorAVX2 q ?C (8 * b * Dimensions) =
        Some (map (\<lambda>lane. centroid_dist idx q (8 * b + lane)) [0..<8])" if "b < clusters_of idx div 8" for b
    proof -
      have "(8 * b + 7) * Dimensions + Dimensions \<le> length ?C"
        using hasIVF_centroids [OF assms(1) lt [OF that, of 7]] by simp
      then have "8 * b * Dimensions + 8 * Dimensions \<le> length ?C" by (simp add: Dimensions_def)
      from rowmajor8_exact [OF assms(4) this] show ?thesis
        by (simp add: centroid_dist_def add_mult_distrib)
    qed
    from vector_loop_exact [OF assms(1) inv this] True assms(2) show ?thesis
      by (simp add: topIVFCentroidsAVX2_def topIVFCentroidsRowMajorAVX2_def Let_def)
  next
    case False
    have "quantizedBlock8DistancesAVX2 q ?CB (8 * b div ivfBlockSize * ivfBlockStride) =
        Some (map (\<lambda>lane. centroid_dist idx q (8 * b + lane)) [0..<8])" if b: "b < clusters_of idx div 8" for b
    proof -
      have "b < blocksForRows (clusters_of idx)"
        using blocksForRows_rel [OF lt [OF b, of 0]] by simp
      from block_fits [OF this, of ivfBlockStride] False
      have "b * ivfBlockStride + ivfBlockStride \<le> length ?CB" by linarith
      from block8_exact [OF assms(4) this]
      have "quantizedBlock8DistancesAVX2 q ?CB (b * ivfBlockStride) =
        Some (map (\<lambda>lane. sqdist q (lane_vec ?CB (b * ivfBlockStride) lane)) [0..<8])" .
      moreover have "lane_vec ?CB (b * ivfBlockStride) lane = vec_at ?C ((8 * b + lane) * Dimensions)"
        if "lane < 8" for lane
      proof (rule lane_holds_eq)
        have "(8 * b + lane) div 8 = b" "(8 * b + lane) mod 8 = lane" using that by simp_all
        with assms(5) False lt [OF b that]
        show "lane_holds ?CB (b * ivfBlockStride) lane (vec_at ?C ((8 * b + lane) * Dimensions))"
          unfolding centroid_blocks_ok_def by (metis not_less)
        show "length (vec_at ?C ((8 * b + lane) * Dimensions)) = Dimensions"
          by (rule length_vec_at [OF hasIVF_centroids [OF assms(1) lt [OF b that]]])
      qed
      ultimately show ?thesis by (simp add: centroid_dist_def ivfBlockSize_def)
    qed
    from vector_loop_exact [OF assms(1) inv this] False assms(2) show ?thesis
      by (simp add: topIVFCentroidsAVX2_def Let_def)
  qed
qed

text \<open>Both selections, stated once: they return, with the nearest centroids in front.\<close>

lemma topIVFCentroids_nearest:
  assumes "hasIVF idx" "0 < nprobe" "length out = 128"
    and "useAVX2 \<longrightarrow> quantized_query q \<and> centroid_blocks_ok idx"
  shows "\<exists>out'. topIVFCentroids useAVX2 idx q nprobe out = Some (clamp_nprobe idx nprobe, out') \<and>
    length out' = 128 \<and> take (clamp_nprobe idx nprobe) out' = nearest_centroids idx q (clamp_nprobe idx nprobe)"
proof -
  let ?n = "clamp_nprobe idx nprobe"
  obtain cnt bd out' where r: "fold (step_at idx q ?n) [0..<clusters_of idx] (init_probe_state ?n out) = (cnt, bd, out')"
    by (metis prod_cases3)
  note nearest = fold_step_at [OF assms(1) clamp_bounds(1,2,3) [OF assms(1,2)] assms(3) r]
  have "topIVFCentroids useAVX2 idx q nprobe out = Some (cnt, out')"
    using assms topScalar_run [OF assms(1-3), of q] topAVX2_run [OF assms(1-3), of q] r
    by (simp add: topIVFCentroids_def)
  with nearest show ?thesis by simp
qed

end
