(* ===== verification/Ivf_Scan.thy ===== *)
theory Ivf_Scan
  imports Search_State Centroid_Select
begin

text \<open>
  Scanning one cluster (\<open>scanIVFList\<close> and its three loops in \<open>ivf_search.go\<close>). The well-formedness
  \<open>wf_index\<close> is what a loaded or built index guarantees; under it no scan panics or reads out of
  bounds, the AVX2 scan offers every row of the cluster with its exact distance
  (\<open>scan_exact\<close>), and the two scalar scans offer it with the early-exit distance
  (\<open>scan_early\<close>).
\<close>

subsection \<open>The code\<close>

definition offer_row ::
  "u8 list \<Rightarrow> u32 \<Rightarrow> nat \<Rightarrow> int \<Rightarrow> ivfSearchState \<Rightarrow> ivfSearchState option" where
  "offer_row labels origID row d s =
     (if rejected d origID s then Some s
      else do { l \<leftarrow> get labels row; Some (ivf_insert d (l = 1) origID s) })"

definition offerIVF ::
  "QuantizedIndex \<Rightarrow> i16 list \<Rightarrow> nat \<Rightarrow> ivfSearchState \<Rightarrow> ivfSearchState option" where
  "offerIVF idx query row s = do {
     let start = row * Dimensions;
     ref \<leftarrow> slice (Vectors idx) start (start + Dimensions);
     d \<leftarrow> quantizedDistance query ref (bestDist s ! 4);
     let origID = (if length (OrigIDs (IVF idx)) > row then OrigIDs (IVF idx) ! row else of_nat row);
     offer_row (Labels idx) origID row d s }"

text \<open>The block scans read the id through a pointer that is nil when the table is short.\<close>

definition block_orig_id :: "QuantizedIndex \<Rightarrow> nat \<Rightarrow> nat \<Rightarrow> u32 option" where
  "block_orig_id idx rowEnd row =
     (if length (OrigIDs (IVF idx)) \<ge> rowEnd then get (OrigIDs (IVF idx)) row else Some (of_nat row))"

text \<open>The bounds \<open>rowStart\<close>, \<open>rowEnd\<close>, \<open>blockStart\<close>, \<open>blockEnd\<close> of a cluster.\<close>

definition cluster_bounds :: "QuantizedIndex \<Rightarrow> nat \<Rightarrow> (nat \<times> nat \<times> nat \<times> nat) option" where
  "cluster_bounds idx cluster = do {
     rowStart \<leftarrow> get (ListOffsets (IVF idx)) cluster;
     rowEnd \<leftarrow> get (ListOffsets (IVF idx)) (cluster + 1);
     blockStart \<leftarrow> get (BlockOffsets (IVF idx)) cluster;
     blockEnd \<leftarrow> get (BlockOffsets (IVF idx)) (cluster + 1);
     Some (unat rowStart, unat rowEnd, unat blockStart, unat blockEnd) }"

definition scanIVFBlocksUnsafe ::
  "QuantizedIndex \<Rightarrow> i16 list \<Rightarrow> nat \<Rightarrow> ivfSearchState \<Rightarrow> ivfSearchState option" where
  "scanIVFBlocksUnsafe idx query cluster state = do {
     (rowStart, rowEnd, blockStart, blockEnd) \<leftarrow> cluster_bounds idx cluster;
     if rowStart \<ge> rowEnd \<or> blockStart \<ge> blockEnd then Some state
     else foldM (\<lambda>block state.
         let rowBase = rowStart + (block - blockStart) * ivfBlockSize;
             lanes = min ivfBlockSize (rowEnd - rowBase)
         in foldM (\<lambda>lane state. do {
             let row = rowBase + lane;
             d \<leftarrow> quantizedBlockLaneDistanceUnsafe query (Blocks idx) (block * ivfBlockStride) lane (bestDist state ! 4);
             origID \<leftarrow> block_orig_id idx rowEnd row;
             offer_row (Labels idx) origID row d state }) [0..<lanes] state)
       [blockStart..<blockEnd] state }"

text \<open>
  Offering the lanes of one group whose distances a kernel has computed. The loop over groups of
  four blocks, \<open>for ; block+4 <= blockEnd; block += 4\<close>, runs
  for \<open>block = blockStart + g * 4\<close> with \<open>g < (blockEnd - blockStart) div 4\<close>.
\<close>

definition offer_lanes ::
  "QuantizedIndex \<Rightarrow> nat \<Rightarrow> nat \<Rightarrow> nat \<Rightarrow> int list \<Rightarrow> ivfSearchState \<Rightarrow> ivfSearchState option" where
  "offer_lanes idx rowEnd width rowBase dist state =
     (let lanes = min width (rowEnd - rowBase)
      in foldM (\<lambda>lane state. do {
          let row = rowBase + lane;
          d \<leftarrow> get dist lane;
          origID \<leftarrow> block_orig_id idx rowEnd row;
          offer_row (Labels idx) origID row d state }) [0..<lanes] state)"

definition scanIVFBlocksAVX2 ::
  "QuantizedIndex \<Rightarrow> i16 list \<Rightarrow> nat \<Rightarrow> ivfSearchState \<Rightarrow> ivfSearchState option" where
  "scanIVFBlocksAVX2 idx query cluster state = do {
     (rowStart, rowEnd, blockStart, blockEnd) \<leftarrow> cluster_bounds idx cluster;
     if rowStart \<ge> rowEnd \<or> blockStart \<ge> blockEnd then Some state
     else do {
       let groups = (blockEnd - blockStart) div 4;
       state \<leftarrow> foldM (\<lambda>g state. do {
           let block = blockStart + g * 4;
           dist32 \<leftarrow> quantizedBlock32DistancesAVX2 query (Blocks idx) (block * ivfBlockStride);
           offer_lanes idx rowEnd (ivfBlockSize * 4) (rowStart + (block - blockStart) * ivfBlockSize) dist32 state })
         [0..<groups] state;
       foldM (\<lambda>block state. do {
           dist \<leftarrow> quantizedBlock8DistancesAVX2 query (Blocks idx) (block * ivfBlockStride);
           offer_lanes idx rowEnd ivfBlockSize (rowStart + (block - blockStart) * ivfBlockSize) dist state })
         [blockStart + groups * 4..<blockEnd] state } }"

definition scanIVFList ::
  "bool \<Rightarrow> QuantizedIndex \<Rightarrow> i16 list \<Rightarrow> nat \<Rightarrow> ivfSearchState \<Rightarrow> ivfSearchState option" where
  "scanIVFList useIVFAVX2 idx query cluster state =
     (if hasIVFBlocks idx then
        (if useIVFAVX2 then scanIVFBlocksAVX2 idx query cluster state
         else scanIVFBlocksUnsafe idx query cluster state)
      else do {
        start \<leftarrow> get (ListOffsets (IVF idx)) cluster;
        end' \<leftarrow> get (ListOffsets (IVF idx)) (cluster + 1);
        foldM (\<lambda>row state. offerIVF idx query row state) [unat start..<unat end'] state })"

subsection \<open>Well-formed indexes and their rows\<close>

definition wf_index :: "QuantizedIndex \<Rightarrow> bool" where
  "wf_index idx \<longleftrightarrow> hasIVF idx \<and> Clusters (IVF idx) \<le> 8192 \<and>
     offsets_ok (length (Labels idx)) (clusters_of idx) (ListOffsets (IVF idx)) \<and>
     length (OrigIDs (IVF idx)) = length (Labels idx) \<and>
     (if hasIVFBlocks idx
      then block_offsets_ok (clusters_of idx) (ListOffsets (IVF idx)) (BlockOffsets (IVF idx))
      else length (Labels idx) * Dimensions \<le> length (Vectors idx))"

abbreviation rows_in :: "QuantizedIndex \<Rightarrow> nat \<Rightarrow> nat list" where
  "rows_in idx c \<equiv> rows_of (ListOffsets (IVF idx)) c"

text \<open>The vector of a row, from the layout the scan reads.\<close>

definition block_vec :: "QuantizedIndex \<Rightarrow> nat \<Rightarrow> nat \<Rightarrow> i16 list" where
  "block_vec idx c rel =
     lane_vec (Blocks idx) ((unat (BlockOffsets (IVF idx) ! c) + rel div 8) * ivfBlockStride) (rel mod 8)"

definition rowvec :: "QuantizedIndex \<Rightarrow> nat \<Rightarrow> nat \<Rightarrow> i16 list" where
  "rowvec idx c row =
     (if hasIVFBlocks idx then block_vec idx c (row - unat (ListOffsets (IVF idx) ! c))
      else vec_at (Vectors idx) (row * Dimensions))"

definition row_cand :: "QuantizedIndex \<Rightarrow> nat \<Rightarrow> int \<Rightarrow> cand" where
  "row_cand idx row d = Cand d (OrigIDs (IVF idx) ! row) (Labels idx ! row = 1)"

definition cand_at :: "QuantizedIndex \<Rightarrow> i16 list \<Rightarrow> nat \<Rightarrow> nat \<Rightarrow> cand" where
  "cand_at idx q c row = row_cand idx row (sqdist q (rowvec idx c row))"

text \<open>The candidates of a cluster, with their exact distances.\<close>

definition cluster_cands :: "QuantizedIndex \<Rightarrow> i16 list \<Rightarrow> nat \<Rightarrow> cand list" where
  "cluster_cands idx q c = map (cand_at idx q c) (rows_in idx c)"

text \<open>What an early-exit scan offers for a row depends on the state it meets.\<close>

definition offer_early :: "QuantizedIndex \<Rightarrow> i16 list \<Rightarrow> nat \<Rightarrow> nat \<Rightarrow> ivfSearchState \<Rightarrow> ivfSearchState" where
  "offer_early idx q c row s = offer (row_cand idx row (cutDist q (rowvec idx c row) (bestDist s ! 4))) s"

lemma offer_row_offer:
  "row < length (Labels idx) \<Longrightarrow>
   offer_row (Labels idx) (OrigIDs (IVF idx) ! row) row d s = Some (offer (row_cand idx row d) s)"
  by (simp add: offer_row_def offer_def row_cand_def)

lemma length_rowvec:
  assumes "wf_index idx" "c < clusters_of idx" "row \<in> set (rows_in idx c)"
  shows "length (rowvec idx c row) = Dimensions"
proof (cases "hasIVFBlocks idx")
  case False
  have "row < length (Labels idx)"
    using assms rows_of_less unfolding wf_index_def by blast
  from block_fits [OF this, of Dimensions] False assms(1)
  have "row * Dimensions + Dimensions \<le> length (Vectors idx)" by (simp add: wf_index_def)
  with False show ?thesis by (simp add: rowvec_def length_vec_at)
qed (simp add: rowvec_def block_vec_def)

lemma wf_row_less:
  "wf_index idx \<Longrightarrow> c < clusters_of idx \<Longrightarrow> row \<in> set (rows_in idx c) \<Longrightarrow> row < length (Labels idx)"
  using rows_of_less unfolding wf_index_def by blast

lemma wf_list_bounds:
  assumes "wf_index idx" "c < clusters_of idx"
  shows "get (ListOffsets (IVF idx)) c = Some (ListOffsets (IVF idx) ! c)"
    "get (ListOffsets (IVF idx)) (c + 1) = Some (ListOffsets (IVF idx) ! (c + 1))"
    "unat (ListOffsets (IVF idx) ! c) \<le> unat (ListOffsets (IVF idx) ! (c + 1))"
    "unat (ListOffsets (IVF idx) ! (c + 1)) \<le> length (Labels idx)"
proof -
  from assms have o: "offsets_ok (length (Labels idx)) (clusters_of idx) (ListOffsets (IVF idx))"
    by (simp add: wf_index_def)
  then show "get (ListOffsets (IVF idx)) c = Some (ListOffsets (IVF idx) ! c)"
    "get (ListOffsets (IVF idx)) (c + 1) = Some (ListOffsets (IVF idx) ! (c + 1))"
    using assms(2) by (auto simp: offsets_ok_def get_def)
  show "unat (ListOffsets (IVF idx) ! c) \<le> unat (ListOffsets (IVF idx) ! (c + 1))"
    using offsets_mono [OF o, of c "c + 1"] assms(2) by simp
  show "unat (ListOffsets (IVF idx) ! (c + 1)) \<le> length (Labels idx)"
    using offsets_mono [OF o, of "c + 1" "clusters_of idx"] assms(2) o by (simp add: offsets_ok_def)
qed

subsection \<open>The row-major scan\<close>

lemma offerIVF_early:
  assumes "wf_index idx" "\<not> hasIVFBlocks idx" "c < clusters_of idx" "row \<in> set (rows_in idx c)"
  shows "offerIVF idx q row s = Some (offer_early idx q c row s)"
proof -
  have row: "row < length (Labels idx)" using assms by (intro wf_row_less)
  from block_fits [OF this, of Dimensions] assms(1,2)
  have "row * Dimensions + Dimensions \<le> length (Vectors idx)" by (simp add: wf_index_def)
  with row assms(1,2) show ?thesis
    by (simp add: offerIVF_def slice_vec_at quantizedDistance_cutDist length_vec_at offer_row_offer
        offer_early_def rowvec_def wf_index_def Let_def)
qed

lemma scan_rows_early:
  assumes "wf_index idx" "\<not> hasIVFBlocks idx" "c < clusters_of idx"
  shows "scanIVFList avx2 idx q c s = Some (fold (offer_early idx q c) (rows_in idx c) s)"
proof -
  have "foldM (\<lambda>row. offerIVF idx q row) (rows_in idx c) s =
      foldM (\<lambda>row s. Some (offer_early idx q c row s)) (rows_in idx c) s"
    using offerIVF_early [OF assms] by (intro foldM_cong) auto
  with assms wf_list_bounds [OF assms(1,3)] show ?thesis
    by (simp add: scanIVFList_def rows_of_def foldM_Some)
qed

subsection \<open>The block scans\<close>

lemma wf_block_bounds:
  assumes "wf_index idx" "hasIVFBlocks idx" "c < clusters_of idx"
  defines "rs \<equiv> unat (ListOffsets (IVF idx) ! c)" and "re \<equiv> unat (ListOffsets (IVF idx) ! (c + 1))"
    and "bs \<equiv> unat (BlockOffsets (IVF idx) ! c)" and "be \<equiv> unat (BlockOffsets (IVF idx) ! (c + 1))"
  shows "cluster_bounds idx c = Some (rs, re, bs, be)" "be - bs = blocksForRows (re - rs)" "bs \<le> be"
    "be * ivfBlockStride \<le> length (Blocks idx)"
proof -
  have b: "block_offsets_ok (clusters_of idx) (ListOffsets (IVF idx)) (BlockOffsets (IVF idx))"
    using assms(1,2) by (simp add: wf_index_def)
  then show "cluster_bounds idx c = Some (rs, re, bs, be)"
    using wf_list_bounds(1,2) [OF assms(1,3)] assms(3)
    by (simp add: cluster_bounds_def block_offsets_ok_def rs_def re_def bs_def be_def)
  show "be - bs = blocksForRows (re - rs)"
    using b assms(3) by (simp add: block_offsets_ok_def rs_def re_def bs_def be_def)
  show "bs \<le> be"
    using block_offsets_mono [OF b, of c "c + 1"] assms(3) by (simp add: bs_def be_def)
  have "be \<le> unat (BlockOffsets (IVF idx) ! clusters_of idx)"
    using block_offsets_mono [OF b, of "c + 1" "clusters_of idx"] assms(3) by (simp add: be_def)
  then have "be * ivfBlockStride \<le> unat (BlockOffsets (IVF idx) ! clusters_of idx) * ivfBlockStride"
    by (rule mult_le_mono1)
  then show "be * ivfBlockStride \<le> length (Blocks idx)"
    using assms(2) unfolding hasIVFBlocks_def by linarith
qed

lemma block_orig_id_ok:
  assumes "wf_index idx" "c < clusters_of idx" "row \<in> set (rows_in idx c)"
  shows "block_orig_id idx (unat (ListOffsets (IVF idx) ! (c + 1))) row = Some (OrigIDs (IVF idx) ! row)"
  using wf_list_bounds(4) [OF assms(1,2)] wf_row_less [OF assms] assms(1)
  by (simp add: block_orig_id_def wf_index_def)

text \<open>Loops over blocks and lanes are one loop over the rows of the cluster.\<close>

lemma foldM_lanes:
  "foldM (\<lambda>lane. f (base + lane)) [0..<n] s = foldM f [base..<base + n] s" for base n :: nat
  using foldM_map [of f "(+) base" "[0..<n]" s] by (simp add: map_add_upt)

lemma foldM_blocks:
  fixes rs re w k :: nat
  shows "foldM (\<lambda>g s. foldM f [rs + g * w..<rs + g * w + min w (re - (rs + g * w))] s) [0..<k] s =
    foldM f [rs..<min re (rs + k * w)] s"
  using foldM_concat [of f "\<lambda>g. [rs + g * w..<rs + g * w + min w (re - (rs + g * w))]" "[0..<k]" s]
  by (simp only: concat_groups)

lemma foldM_from: "foldM f [a..<b] s = foldM (\<lambda>g. f (a + g)) [0..<b - a] s" if "a \<le> b" for a b :: nat
  using foldM_map [of f "(+) a" "[0..<b - a]" s] that by (simp add: map_add_upt)

lemma group_row: "lane < 8 \<Longrightarrow> (rs + g * 8 + lane - rs) div 8 = g \<and> (rs + g * 8 + lane - rs) mod 8 = (lane :: nat)"
  by simp

lemma blocks_as_rows:
  fixes f :: "nat \<Rightarrow> nat \<Rightarrow> nat \<Rightarrow> 's \<Rightarrow> 's option"
  shows "foldM (\<lambda>g. foldM (\<lambda>lane. f (bs + g) lane (rs + g * 8 + lane)) [0..<min 8 (re - (rs + g * 8))])
      [0..<k] s =
    foldM (\<lambda>row. f (bs + (row - rs) div 8) ((row - rs) mod 8) row) [rs..<min re (rs + k * 8)] s"
proof -
  define h where "h row = f (bs + (row - rs) div 8) ((row - rs) mod 8) row" for row
  have "foldM (\<lambda>g. foldM (\<lambda>lane. f (bs + g) lane (rs + g * 8 + lane)) [0..<min 8 (re - (rs + g * 8))])
      [0..<k] s =
    foldM (\<lambda>g. foldM (\<lambda>lane. h (rs + g * 8 + lane)) [0..<min 8 (re - (rs + g * 8))]) [0..<k] s"
  proof (intro foldM_cong refl)
    fix g lane :: nat and u v
    assume "lane \<in> set [0..<min 8 (re - (rs + g * 8))]"
    then have "lane < 8" by simp
    from group_row [OF this] show "f (bs + g) lane (rs + g * 8 + lane) v = h (rs + g * 8 + lane) v"
      by (simp only: h_def)
  qed
  also have "\<dots> = foldM (\<lambda>g. foldM h [rs + g * 8..<rs + g * 8 + min 8 (re - (rs + g * 8))]) [0..<k] s"
    by (intro foldM_cong refl foldM_lanes)
  also have "\<dots> = foldM h [rs..<min re (rs + k * 8)] s"
    by (rule foldM_blocks)
  finally show ?thesis unfolding h_def [abs_def] .
qed

lemma blocks_lane_ok:
  assumes "wf_index idx" "hasIVFBlocks idx" "c < clusters_of idx" "row \<in> set (rows_in idx c)"
  defines "rel \<equiv> row - unat (ListOffsets (IVF idx) ! c)"
  shows "lane_holds (Blocks idx) ((unat (BlockOffsets (IVF idx) ! c) + rel div 8) * ivfBlockStride) (rel mod 8)
    (rowvec idx c row)"
proof -
  note b = wf_block_bounds [OF assms(1-3)]
  let ?b = "unat (BlockOffsets (IVF idx) ! c) + rel div 8"
  have "rel < unat (ListOffsets (IVF idx) ! (c + 1)) - unat (ListOffsets (IVF idx) ! c)"
    using assms(4) by (auto simp: rows_of_def rel_def)
  from blocksForRows_rel [OF this] b(2) have "?b < unat (BlockOffsets (IVF idx) ! (c + 1))" by linarith
  from block_fits [OF this, of ivfBlockStride] b(4)
  have "?b * ivfBlockStride + ivfBlockStride \<le> length (Blocks idx)" by linarith
  then show ?thesis
    using assms(2) by (simp add: rowvec_def block_vec_def rel_def [symmetric] lane_holds_lane_vec ivfBlockSize_def)
qed

text \<open>Blocks built from row-major vectors hold those vectors.\<close>

lemma rowvec_built:
  assumes "wf_index idx" "hasIVFBlocks idx" "c < clusters_of idx" "row \<in> set (rows_in idx c)"
    and built: "buildIVFBlocks vectors (ListOffsets (IVF idx)) (BlockOffsets (IVF idx)) = Some (Blocks idx)"
    and len: "length (Labels idx) * Dimensions \<le> length vectors"
  shows "rowvec idx c row = vec_at vectors (row * Dimensions)"
proof -
  have lo: "offsets_ok (length (Labels idx)) (clusters_of idx) (ListOffsets (IVF idx))"
    and bo: "block_offsets_ok (clusters_of idx) (ListOffsets (IVF idx)) (BlockOffsets (IVF idx))"
    using assms(1,2) by (auto simp: wf_index_def)
  have "row * Dimensions + Dimensions \<le> length vectors"
    using block_fits [OF wf_row_less [OF assms(1,3,4)], of Dimensions] len by linarith
  then have "length (vec_at vectors (row * Dimensions)) = Dimensions" by (rule length_vec_at)
  moreover have "lane_holds (Blocks idx) ((unat (BlockOffsets (IVF idx) ! c) +
      (row - unat (ListOffsets (IVF idx) ! c)) div 8) * ivfBlockStride)
      ((row - unat (ListOffsets (IVF idx) ! c)) mod 8) (vec_at vectors (row * Dimensions))"
    using buildIVFBlocks_ok [OF lo bo len] built assms(3,4) by auto
  ultimately show ?thesis
    using assms(2) by (simp add: rowvec_def block_vec_def lane_holds_eq)
qed

lemma scan_blocks_early:
  assumes "wf_index idx" "hasIVFBlocks idx" "c < clusters_of idx"
  shows "scanIVFBlocksUnsafe idx q c s = Some (fold (offer_early idx q c) (rows_in idx c) s)"
proof -
  define rs where "rs = unat (ListOffsets (IVF idx) ! c)"
  define re where "re = unat (ListOffsets (IVF idx) ! (c + 1))"
  define bs where "bs = unat (BlockOffsets (IVF idx) ! c)"
  define be where "be = unat (BlockOffsets (IVF idx) ! (c + 1))"
  note b = wf_block_bounds [OF assms, folded rs_def re_def bs_def be_def]
  have rows: "rows_in idx c = [rs..<re]" by (simp add: rows_of_def rs_def re_def)
  define f where "f = (\<lambda>block lane row s. do {
      d \<leftarrow> quantizedBlockLaneDistanceUnsafe q (Blocks idx) (block * ivfBlockStride) lane (bestDist s ! 4);
      origID \<leftarrow> block_orig_id idx re row;
      offer_row (Labels idx) origID row d s })"
  have row: "f (bs + (row - rs) div 8) ((row - rs) mod 8) row s = Some (offer_early idx q c row s)"
    if "row \<in> set [rs..<re]" for row s
  proof -
    have r: "row \<in> set (rows_in idx c)" using that rows by simp
    show ?thesis
      using blockLaneDistance_cutDist [OF blocks_lane_ok [OF assms r]] block_orig_id_ok [OF assms(1,3) r]
        offer_row_offer [OF wf_row_less [OF assms(1,3) r]]
      by (simp add: f_def rs_def re_def bs_def offer_early_def)
  qed
  show ?thesis
  proof (cases "re \<le> rs")
    case True
    then show ?thesis by (simp add: scanIVFBlocksUnsafe_def b(1) rows)
  next
    case False
    then have "bs < be" using b(2,3) blocksForRows_pos [of "re - rs"] by simp
    with False have "scanIVFBlocksUnsafe idx q c s =
        foldM (\<lambda>block. foldM (\<lambda>lane. f block lane (rs + (block - bs) * 8 + lane))
          [0..<min 8 (re - (rs + (block - bs) * 8))]) [bs..<be] s"
      by (simp add: scanIVFBlocksUnsafe_def b(1) f_def ivfBlockSize_def Let_def)
    also have "\<dots> = foldM (\<lambda>g. foldM (\<lambda>lane. f (bs + g) lane (rs + g * 8 + lane))
        [0..<min 8 (re - (rs + g * 8))]) [0..<be - bs] s"
      by (subst foldM_from [OF b(3)]) simp
    also have "\<dots> = foldM (\<lambda>row. f (bs + (row - rs) div 8) ((row - rs) mod 8) row)
        [rs..<min re (rs + (be - bs) * 8)] s"
      by (rule blocks_as_rows)
    also have "min re (rs + (be - bs) * 8) = re"
      using b(2) blocksForRows_cover [of "re - rs"] by simp
    also have "foldM (\<lambda>row. f (bs + (row - rs) div 8) ((row - rs) mod 8) row) [rs..<re] s =
        foldM (\<lambda>row s. Some (offer_early idx q c row s)) [rs..<re] s"
      using row by (intro foldM_cong refl)
    finally show ?thesis by (simp only: foldM_Some rows)
  qed
qed

text \<open>A kernel's distances, offered lane by lane, are the rows offered with exact distances.\<close>

abbreviation offer_exact :: "QuantizedIndex \<Rightarrow> i16 list \<Rightarrow> nat \<Rightarrow> nat \<Rightarrow> ivfSearchState \<Rightarrow> ivfSearchState option" where
  "offer_exact idx q c row s \<equiv> Some (offer (cand_at idx q c row) s)"

lemma offer_lanes_rows:
  assumes "wf_index idx" "c < clusters_of idx"
  defines "rs \<equiv> unat (ListOffsets (IVF idx) ! c)" and "re \<equiv> unat (ListOffsets (IVF idx) ! (c + 1))"
  assumes "rs \<le> base"
    and dist: "\<And>lane. lane < min width (re - base) \<Longrightarrow> get dist lane = Some (sqdist q (rowvec idx c (base + lane)))"
  shows "offer_lanes idx re width base dist s =
    foldM (offer_exact idx q c) [base..<base + min width (re - base)] s"
proof -
  have "offer_lanes idx re width base dist s =
      foldM (\<lambda>lane. offer_exact idx q c (base + lane)) [0..<min width (re - base)] s"
    unfolding offer_lanes_def Let_def
  proof (intro foldM_cong refl)
    fix lane u
    assume "lane \<in> set [0..<min width (re - base)]"
    then have l: "lane < min width (re - base)" by simp
    then have row: "base + lane \<in> set (rows_in idx c)"
      using assms(5) by (auto simp: rows_of_def rs_def re_def)
    show "(do { d \<leftarrow> get dist lane; origID \<leftarrow> block_orig_id idx re (base + lane);
        offer_row (Labels idx) origID (base + lane) d u }) = offer_exact idx q c (base + lane) u"
      using dist [OF l] block_orig_id_ok [OF assms(1,2) row] offer_row_offer [OF wf_row_less [OF assms(1,2) row]]
      by (simp add: re_def cand_at_def)
  qed
  also have "\<dots> = foldM (offer_exact idx q c) [base..<base + min width (re - base)] s"
    by (rule foldM_lanes)
  finally show ?thesis .
qed

lemma rowvec_block:
  assumes "hasIVFBlocks idx"
  shows "rowvec idx c (unat (ListOffsets (IVF idx) ! c) + (g * 8 + i)) =
    lane_vec (Blocks idx) ((unat (BlockOffsets (IVF idx) ! c) + g) * ivfBlockStride + i div 8 * ivfBlockStride) (i mod 8)"
  using assms by (simp add: rowvec_def block_vec_def add.assoc flip: add_mult_distrib)

lemma scan_avx2_exact:
  assumes "wf_index idx" "hasIVFBlocks idx" "c < clusters_of idx" "quantized_query q"
  shows "scanIVFBlocksAVX2 idx q c s = Some (fold offer (cluster_cands idx q c) s)"
proof -
  define rs where "rs = unat (ListOffsets (IVF idx) ! c)"
  define re where "re = unat (ListOffsets (IVF idx) ! (c + 1))"
  define bs where "bs = unat (BlockOffsets (IVF idx) ! c)"
  define be where "be = unat (BlockOffsets (IVF idx) ! (c + 1))"
  define groups where "groups = (be - bs) div 4"
  note b = wf_block_bounds [OF assms(1-3), folded rs_def re_def bs_def be_def]
  note lanes = offer_lanes_rows [OF assms(1,3), folded rs_def re_def]
  note vec = rowvec_block [OF assms(2), of c, folded rs_def bs_def]
  let ?off = "offer_exact idx q c"
  have groups: "groups * 4 \<le> be - bs" by (simp add: groups_def)
  have rows: "rows_in idx c = [rs..<re]" by (simp add: rows_of_def rs_def re_def)
  have group: "(do { dist \<leftarrow> quantizedBlock32DistancesAVX2 q (Blocks idx) ((bs + g * 4) * ivfBlockStride);
      offer_lanes idx re 32 (rs + g * 32) dist s }) =
      foldM ?off [rs + g * 32..<rs + g * 32 + min 32 (re - (rs + g * 32))] s" if "g < groups" for g s
  proof -
    have "(bs + g * 4) + 4 \<le> be" using block_fits [OF that, of 4] groups b(3) by linarith
    then have "((bs + g * 4) + 4) * ivfBlockStride \<le> be * ivfBlockStride" by (rule mult_le_mono1)
    then have len: "(bs + g * 4) * ivfBlockStride + 4 * ivfBlockStride \<le> length (Blocks idx)"
      using b(4) by (simp add: add_mult_distrib)
    show ?thesis
      unfolding block32_exact [OF assms(4) len] bind.bind_lunit
      by (intro lanes) (use vec [of "g * 4"] in \<open>simp_all add: add.assoc mult.assoc\<close>)
  qed
  have single: "(do { dist \<leftarrow> quantizedBlock8DistancesAVX2 q (Blocks idx) ((bs + g) * ivfBlockStride);
      offer_lanes idx re 8 (rs + g * 8) dist s }) =
      foldM ?off [rs + g * 8..<rs + g * 8 + min 8 (re - (rs + g * 8))] s" if "bs + g < be" for g s
  proof -
    from block_fits [OF that, of ivfBlockStride] b(4)
    have len: "(bs + g) * ivfBlockStride + ivfBlockStride \<le> length (Blocks idx)" by linarith
    show ?thesis
      unfolding block8_exact [OF assms(4) len] bind.bind_lunit
      by (intro lanes) (use vec [of g] in \<open>simp_all add: add.assoc\<close>)
  qed
  have first: "foldM (\<lambda>g s. do {
        dist \<leftarrow> quantizedBlock32DistancesAVX2 q (Blocks idx) ((bs + g * 4) * ivfBlockStride);
        offer_lanes idx re 32 (rs + g * 32) dist s }) [0..<groups] s =
      foldM ?off [rs..<min re (rs + groups * 32)] s" for s
    unfolding foldM_blocks [symmetric] using group by (intro foldM_cong refl) simp
  have second: "foldM (\<lambda>block s. do {
        dist \<leftarrow> quantizedBlock8DistancesAVX2 q (Blocks idx) (block * ivfBlockStride);
        offer_lanes idx re 8 (rs + (block - bs) * 8) dist s }) [bs + groups * 4..<be] s =
      foldM ?off [rs + groups * 32..<re] s" for s
  proof -
    have ge: "bs + groups * 4 \<le> be" using groups b(3) by linarith
    have rb: "rs + (groups * 4 + g) * 8 = (rs + groups * 32) + g * 8" for g by simp
    have "re \<le> rs + groups * 32 + (be - (bs + groups * 4)) * 8"
      using b(2) blocksForRows_cover [of "re - rs"] ge by (simp add: add_mult_distrib diff_mult_distrib)
    then have m: "min re (rs + groups * 32 + (be - (bs + groups * 4)) * 8) = re" by simp
    have "foldM (\<lambda>block s. do {
        dist \<leftarrow> quantizedBlock8DistancesAVX2 q (Blocks idx) (block * ivfBlockStride);
        offer_lanes idx re 8 (rs + (block - bs) * 8) dist s }) [bs + groups * 4..<be] s =
      foldM (\<lambda>g. foldM ?off [rs + groups * 32 + g * 8..<rs + groups * 32 + g * 8 +
          min 8 (re - (rs + groups * 32 + g * 8))]) [0..<be - (bs + groups * 4)] s"
    proof (subst foldM_from [OF ge], intro foldM_cong refl)
      fix g u
      assume "g \<in> set [0..<be - (bs + groups * 4)]"
      then have "bs + (groups * 4 + g) < be" by simp
      from single [OF this, of u, unfolded rb]
      show "(do { dist \<leftarrow> quantizedBlock8DistancesAVX2 q (Blocks idx) ((bs + groups * 4 + g) * ivfBlockStride);
          offer_lanes idx re 8 (rs + (bs + groups * 4 + g - bs) * 8) dist u }) =
        foldM ?off [rs + groups * 32 + g * 8..<rs + groups * 32 + g * 8 +
          min 8 (re - (rs + groups * 32 + g * 8))] u"
        by (simp add: add.assoc mult.commute [of groups])
    qed
    also have "\<dots> = foldM ?off [rs + groups * 32..<re] s"
      unfolding foldM_blocks m ..
    finally show ?thesis .
  qed
  show ?thesis
  proof (cases "re \<le> rs")
    case True
    then show ?thesis by (simp add: scanIVFBlocksAVX2_def b(1) rows cluster_cands_def)
  next
    case False
    then have "bs < be" using b(2,3) blocksForRows_pos [of "re - rs"] by simp
    with False have "scanIVFBlocksAVX2 idx q c s =
        do { s' \<leftarrow> foldM ?off [rs..<min re (rs + groups * 32)] s; foldM ?off [rs + groups * 32..<re] s' }"
      by (simp add: scanIVFBlocksAVX2_def b(1) ivfBlockSize_def groups_def [symmetric] mult.assoc first ext [OF second])
    also have "\<dots> = foldM ?off ([rs..<min re (rs + groups * 32)] @ [rs + groups * 32..<re]) s"
      by (simp only: foldM_append)
    also have "\<dots> = foldM ?off [rs..<re] s"
      by (simp only: upt_min_join [OF le_add1])
    finally show ?thesis by (simp only: foldM_Some rows cluster_cands_def fold_map comp_def)
  qed
qed

subsection \<open>The two kinds of scan\<close>

text \<open>Whether the scans of a search compute exact distances.\<close>

definition exact_scans :: "bool \<Rightarrow> QuantizedIndex \<Rightarrow> bool" where
  "exact_scans useAVX2 idx \<longleftrightarrow> useAVX2 \<and> hasIVFBlocks idx"

lemma scan_exact:
  assumes "wf_index idx" "c < clusters_of idx" "quantized_query q" "exact_scans useAVX2 idx"
  shows "scanIVFList useAVX2 idx q c s = Some (fold offer (cluster_cands idx q c) s)"
  using assms scan_avx2_exact by (simp add: scanIVFList_def exact_scans_def)

lemma scan_early:
  assumes "wf_index idx" "c < clusters_of idx" "\<not> exact_scans useAVX2 idx"
  shows "scanIVFList useAVX2 idx q c s = Some (fold (offer_early idx q c) (rows_in idx c) s)"
  using assms scan_rows_early scan_blocks_early
  by (cases "hasIVFBlocks idx") (auto simp: scanIVFList_def exact_scans_def)

end
