(* ===== verification/Scan_Contract.thy ===== *)
theory Scan_Contract
  imports Ivf_Scan
begin

text \<open>
  What a sequence of cluster scans establishes. \<open>top5 cs\<close> is the exact answer for the candidates
  \<open>cs\<close>: the five smallest ranks, padded with sentinels. An AVX2 block scan keeps the state equal to
  it. A scalar scan, whose early exit may report a partial sum, keeps it in agreement (\<open>agree\<close>): the five
  distances are exact, and so is every entry strictly below the fifth distance. \<open>found\<close> covers both,
  the locale \<open>cluster_scan\<close> is the contract the search loops rely on, and its interpretation
  \<open>scans\<close> discharges it for \<open>scanIVFList\<close>.
\<close>

subsection \<open>The five best of a set of candidates\<close>

definition top5 :: "cand list \<Rightarrow> cand list" where
  "top5 cs = take 5 (sort_key rank_of cs @ replicate 5 sentinel)"

definition proper :: "cand list \<Rightarrow> bool" where
  "proper cs \<longleftrightarrow> (\<forall>c \<in> set cs. cdist c < maxInt64Value)"

lemma proper_simps [simp]:
  "proper []" "proper (c # cs) \<longleftrightarrow> cdist c < maxInt64Value \<and> proper cs"
  "proper (cs @ ds) \<longleftrightarrow> proper cs \<and> proper ds"
  by (auto simp: proper_def)

lemma top5_best: "proper cs \<Longrightarrow> top5 cs = best 5 rank_of (replicate 5 sentinel @ cs)"
  by (simp add: top5_def best_pad rank_less_sentinel proper_def)

lemma length_top5 [simp]: "length (top5 cs) = 5"
  by (simp add: top5_def)

lemma sorted_top5: "proper cs \<Longrightarrow> sorted (map rank_of (top5 cs))"
  by (simp add: top5_best)

lemma top5_snoc: "proper cs \<Longrightarrow> cdist c < maxInt64Value \<Longrightarrow> top5 (cs @ [c]) = keep 5 rank_of c (top5 cs)"
  using fold_keep_best [of 5 rank_of "[c]" "replicate 5 sentinel @ cs"] by (simp add: top5_best)

lemma top5_perm: "mset cs = mset ds \<Longrightarrow> distinct (map rank_of cs) \<Longrightarrow> top5 cs = top5 ds"
  using sort_key_inj_key_eq [of cs "sort_key rank_of ds" rank_of] by (simp add: top5_def distinct_map)

lemma top5_full: "5 \<le> length cs \<Longrightarrow> top5 cs = best 5 rank_of cs"
  by (simp add: top5_def best_def)

text \<open>Candidates farther than the fifth do not change the answer.\<close>

lemma last_sorted_ge: "sorted (map key xs) \<Longrightarrow> x \<in> set xs \<Longrightarrow> key x \<le> key (last xs)"
  by (induction xs rule: rev_induct) (auto simp: sorted_append)

lemma top5_prune:
  assumes "5 \<le> length cs" "\<And>d. d \<in> set ds \<Longrightarrow> cdist (last (top5 cs)) < cdist d"
  shows "top5 (cs @ ds) = top5 cs"
proof -
  have "rank_of c \<le> rank_of d" if "c \<in> set (best 5 rank_of cs)" "d \<in> set ds" for c d
  proof -
    have "rank_of c \<le> rank_of (last (top5 cs))"
      using that(1) assms(1) by (intro last_sorted_ge) (simp_all add: top5_full)
    moreover have "rank_of (last (top5 cs)) \<le> rank_of d"
      using assms(2) [OF that(2)] by (cases "last (top5 cs)"; cases d) simp
    ultimately show ?thesis by (rule order_trans)
  qed
  from best_prune [OF assms(1) this] show ?thesis using assms(1) by (simp add: top5_full)
qed

subsection \<open>Agreement up to the fifth distance\<close>

definition below :: "int \<Rightarrow> cand list \<Rightarrow> cand list" where
  "below t xs = filter (\<lambda>c. cdist c < t) xs"

definition agree :: "cand list \<Rightarrow> cand list \<Rightarrow> bool" where
  "agree xs es \<longleftrightarrow> map cdist xs = map cdist es \<and> below (cdist (last es)) xs = below (cdist (last es)) es"

lemma agree_refl [simp]: "agree xs xs"
  by (simp add: agree_def)

lemma rank_le_cdist: "rank_of c \<le> rank_of d \<Longrightarrow> cdist c \<le> cdist d"
  by (cases c; cases d) auto

lemma sorted_cdist: "sorted (map rank_of xs) \<Longrightarrow> sorted (map cdist xs)"
  by (induction xs) (auto intro: rank_le_cdist)

lemma map_cdist_ins_after:
  assumes "sorted (map rank_of xs)"
  shows "map cdist (ins_after rank_of e xs) = ins_after id (cdist e) (map cdist xs)"
proof -
  have "sorted (map cdist (ins_after rank_of e xs))" "sorted (ins_after id (cdist e) (map cdist xs))"
    using assms sorted_ins_after [of id "map cdist xs" "cdist e"]
    by (auto intro!: sorted_cdist sorted_ins_after)
  moreover have "mset (map cdist (ins_after rank_of e xs)) = mset (ins_after id (cdist e) (map cdist xs))"
    by simp
  ultimately show ?thesis by (metis properties_for_sort)
qed

lemma below_ins_after:
  "sorted (map rank_of xs) \<Longrightarrow>
   below t (ins_after rank_of e xs) = (if cdist e < t then ins_after rank_of e (below t xs) else below t xs)"
proof (induction xs)
  case Nil
  then show ?case by (simp add: below_def)
next
  case (Cons x xs)
  show ?case
  proof (cases "rank_of e < rank_of x")
    case True
    then have le: "cdist e \<le> cdist x" by (simp add: rank_le_cdist)
    have "below t (x # xs) = []" if "\<not> cdist x < t"
      using that Cons.prems by (auto simp: below_def filter_empty_conv dest!: rank_le_cdist)
    with True le show ?thesis by (cases "cdist x < t") (auto simp: below_def)
  next
    case False
    with Cons show ?thesis
      using rank_le_cdist [of x e] by (auto simp: below_def)
  qed
qed

lemma below_keep:
  assumes "sorted (map rank_of xs)" "length xs = 5" "t \<le> cdist (last xs)"
  shows "below t (keep 5 rank_of e xs) = (if cdist e < t then ins_after rank_of e (below t xs) else below t xs)"
proof -
  let ?ys = "ins_after rank_of e xs"
  have "rank_of (last xs) \<le> rank_of (last ?ys)"
    using assms(1,2) last_in_set [of xs] by (intro last_sorted_ge sorted_ins_after) fastforce+
  then have "\<not> cdist (last ?ys) < t" using assms(3) rank_le_cdist by fastforce
  moreover have "?ys = keep 5 rank_of e xs @ [last ?ys]"
  proof -
    have "butlast ?ys = take 5 ?ys" using assms(2) by (simp add: butlast_conv_take)
    then show ?thesis by (metis append_butlast_last_id keep_def length_0_conv length_ins_after nat.distinct(1))
  qed
  ultimately have "below t ?ys = below t (keep 5 rank_of e xs)"
    by (metis (no_types, lifting) append_Nil2 below_def filter.simps filter_append)
  then show ?thesis using below_ins_after [OF assms(1)] by metis
qed

lemma last_map_cdist: "xs \<noteq> [] \<Longrightarrow> cdist (last xs) = last (map cdist xs)"
  by (simp add: last_map)

lemma map_cdist_keep:
  "sorted (map rank_of xs) \<Longrightarrow> map cdist (keep 5 rank_of e xs) = keep 5 id (cdist e) (map cdist xs)"
  by (simp add: keep_def map_cdist_ins_after flip: take_map)

lemma keep_far:
  assumes "sorted (map rank_of xs)" "length xs = 5" "cdist (last xs) \<le> cdist e"
  shows "map cdist (keep 5 rank_of e xs) = map cdist xs"
    "below (cdist (last xs)) (keep 5 rank_of e xs) = below (cdist (last xs)) xs"
proof -
  have "xs \<noteq> []" using assms(2) by auto
  then show "map cdist (keep 5 rank_of e xs) = map cdist xs"
    using ins_after_full [of "map cdist xs" 5 id "cdist e"] assms
    by (simp add: map_cdist_keep [unfolded keep_def] keep_def sorted_cdist last_map)
  show "below (cdist (last xs)) (keep 5 rank_of e xs) = below (cdist (last xs)) xs"
    using assms by (simp add: below_keep)
qed

lemma below_below: "t \<le> u \<Longrightarrow> below t (below u xs) = below t xs"
  by (auto simp: below_def intro!: filter_cong)

lemma last_ins_after_less: "xs \<noteq> [] \<Longrightarrow> key e < key (last xs) \<Longrightarrow> last (ins_after key e xs) = last xs"
proof (induction xs)
  case (Cons x xs)
  then show ?case by (cases xs) (auto split: if_splits)
qed simp

lemma keep_near_last:
  assumes "sorted (map rank_of xs)" "length xs = 5" "cdist e < cdist (last xs)"
  shows "cdist (last (keep 5 rank_of e xs)) \<le> cdist (last xs)"
proof -
  let ?ys = "ins_after rank_of e xs"
  have "rank_of e < rank_of (last xs)" using assms(3) by (cases e; cases "last xs") simp
  then have last: "last ?ys = last xs" using assms(2) by (intro last_ins_after_less) auto
  have "last (take 5 ?ys) \<in> set (take 5 ?ys)" using assms(2) by (intro last_in_set) auto
  then have "last (keep 5 rank_of e xs) \<in> set ?ys"
    unfolding keep_def by (rule in_set_takeD)
  then have "rank_of (last (keep 5 rank_of e xs)) \<le> rank_of (last ?ys)"
    using assms(1) by (intro last_sorted_ge sorted_ins_after)
  with last show ?thesis by (simp add: rank_le_cdist)
qed

text \<open>One offer of a scalar scan against one offer of the exact candidate.\<close>

lemma agree_keep:
  assumes "agree xs es" "sorted (map rank_of xs)" "sorted (map rank_of es)" "length xs = 5" "length es = 5"
    and "cdist e < cdist (last es) \<Longrightarrow> c = e" "cdist (last es) \<le> cdist e \<Longrightarrow> cdist (last es) \<le> cdist c"
  shows "agree (keep 5 rank_of c xs) (keep 5 rank_of e es)"
proof -
  have ne: "xs \<noteq> []" "es \<noteq> []" using assms(4,5) by auto
  from assms(1) have d: "map cdist xs = map cdist es" by (simp add: agree_def)
  have last: "cdist (last xs) = cdist (last es)" using d ne by (simp add: last_map_cdist)
  show ?thesis
  proof (cases "cdist e < cdist (last es)")
    case True
    with assms(6) have "c = e" by simp
    let ?t = "cdist (last (keep 5 rank_of e es))"
    have t: "?t \<le> cdist (last es)" using assms(3,5) True by (rule keep_near_last)
    have "below ?t xs = below ?t es"
      using assms(1) below_below [OF t, of xs] below_below [OF t, of es] by (simp add: agree_def)
    with \<open>c = e\<close> t last show ?thesis
      using assms(2-5) d by (simp add: agree_def below_keep map_cdist_keep)
  next
    case False
    then have far: "cdist (last es) \<le> cdist e" "cdist (last xs) \<le> cdist c"
      using assms(7) last by simp_all
    note x = keep_far [OF assms(2,4) far(2)] and e = keep_far [OF assms(3,5) far(1)]
    have "keep 5 rank_of e es \<noteq> []" using assms(5) by (auto simp: keep_def)
    then have "cdist (last (keep 5 rank_of e es)) = cdist (last es)"
      using e(1) ne by (simp add: last_map_cdist)
    with x e d last assms(1) show ?thesis by (simp add: agree_def)
  qed
qed


subsection \<open>What the scans of a search have found\<close>

definition scan_cands :: "QuantizedIndex \<Rightarrow> i16 list \<Rightarrow> nat list \<Rightarrow> cand list" where
  "scan_cands idx q cs = concat (map (cluster_cands idx q) cs)"

definition found :: "bool \<Rightarrow> cand list \<Rightarrow> ivfSearchState \<Rightarrow> bool" where
  "found exact cs s \<longleftrightarrow> state_inv s \<and> proper cs \<and>
     (if exact then entries s = top5 cs else agree (entries s) (top5 cs))"

lemma proper_cluster_cands [simp]: "proper (cluster_cands idx q c)"
  by (auto simp: proper_def cluster_cands_def cand_at_def row_cand_def)

lemma proper_scan_cands [simp]: "proper (scan_cands idx q cs)"
  by (induction cs) (auto simp: scan_cands_def)

lemma scan_cands_append: "scan_cands idx q (cs @ ds) = scan_cands idx q cs @ scan_cands idx q ds"
  by (simp add: scan_cands_def)

lemma found_agree: "found exact cs s \<Longrightarrow> agree (entries s) (top5 cs)"
  by (simp add: found_def split: if_splits)

lemma found_dists: "found exact cs s \<Longrightarrow> i < 5 \<Longrightarrow> bestDist s ! i = cdist (top5 cs ! i)"
proof -
  assume "found exact cs s" and i: "i < 5"
  then have "map cdist (entries s) = map cdist (top5 cs)"
    using found_agree by (simp add: agree_def)
  from arg_cong [OF this, of "\<lambda>ds. ds ! i"] i show ?thesis by simp
qed

lemma last_top5: "last (top5 cs) = top5 cs ! 4"
  using last_conv_nth [of "top5 cs"] by (simp flip: length_0_conv)

lemma found_offer_exact:
  assumes "found True cs s" "cdist c < maxInt64Value"
  shows "found True (cs @ [c]) (offer c s)"
  using assms by (simp add: found_def entries_offer top5_snoc)

lemma found_offer_early:
  assumes "found False cs s"
  shows "found False (cs @ [cand_at idx q c row]) (offer_early idx q c row s)"
proof -
  let ?e = "cand_at idx q c row" and ?v = "rowvec idx c row"
  let ?c = "row_cand idx row (cutDist q ?v (bestDist s ! 4))"
  have last: "cdist (last (top5 cs)) = bestDist s ! 4"
    using found_dists [OF assms, of 4] by (simp add: last_top5)
  have "agree (keep 5 rank_of ?c (entries s)) (keep 5 rank_of ?e (top5 cs))"
  proof (rule agree_keep)
    show "agree (entries s) (top5 cs)" using assms by (rule found_agree)
    show "sorted (map rank_of (entries s))" "sorted (map rank_of (top5 cs))"
      using assms by (auto simp: found_def state_inv_def sorted_top5)
    show "cdist ?e < cdist (last (top5 cs)) \<Longrightarrow> ?c = ?e"
      unfolding last by (simp add: cand_at_def row_cand_def cutDist_below)
    show "cdist (last (top5 cs)) \<le> cdist ?e \<Longrightarrow> cdist (last (top5 cs)) \<le> cdist ?c"
      unfolding last by (simp add: cand_at_def row_cand_def cutDist_above)
  qed simp_all
  moreover have "cdist ?e < maxInt64Value" by (simp add: cand_at_def row_cand_def)
  ultimately show ?thesis
    using assms by (simp add: found_def offer_early_def entries_offer top5_snoc)
qed

lemma found_scan_exact:
  "found True cs s \<Longrightarrow> proper ds \<Longrightarrow> found True (cs @ ds) (fold offer ds s)"
proof (induction ds arbitrary: cs s)
  case Nil
  then show ?case by simp
next
  case (Cons d ds)
  then show ?case using Cons.IH [OF found_offer_exact [OF Cons.prems(1)]] by simp
qed

lemma found_scan_early:
  "found False cs s \<Longrightarrow> found False (cs @ map (cand_at idx q c) rows) (fold (offer_early idx q c) rows s)"
proof (induction rows arbitrary: cs s)
  case Nil
  then show ?case by simp
next
  case (Cons row rows)
  then show ?case using Cons.IH [OF found_offer_early [OF Cons.prems(1)]] by simp
qed

lemma visited_early [simp]: "visited (fold (offer_early idx q c) rows s) = visited s"
  by (induction rows arbitrary: s) (auto simp: offer_early_def)

lemma found_new: "found exact [] newIVFSearchState"
  using holds_new by (simp add: found_def holds_def top5_best)

lemma found_cong: "found exact cs s \<Longrightarrow> state_inv t \<Longrightarrow> entries t = entries s \<Longrightarrow> found exact cs t"
  by (simp add: found_def)

text \<open>Scanning one cluster, whichever scan the index and the machine select.\<close>

definition search_ok :: "bool \<Rightarrow> QuantizedIndex \<Rightarrow> i16 list \<Rightarrow> bool" where
  "search_ok useAVX2 idx q \<longleftrightarrow> wf_index idx \<and> (useAVX2 \<longrightarrow> quantized_query q \<and> centroid_blocks_ok idx)"

lemma search_ok_few: "search_ok useAVX2 idx q \<Longrightarrow> clusters_of idx \<le> 8192"
  by (auto simp: search_ok_def wf_index_def nat_le_iff)

lemma scanIVFList_found:
  assumes "search_ok useAVX2 idx q" "c < clusters_of idx" "found (exact_scans useAVX2 idx) cs s"
  shows "\<exists>t. scanIVFList useAVX2 idx q c s = Some t \<and> visited t = visited s \<and>
    found (exact_scans useAVX2 idx) (cs @ cluster_cands idx q c) t"
proof (cases "exact_scans useAVX2 idx")
  case True
  then have "quantized_query q" using assms(1) by (simp add: exact_scans_def search_ok_def)
  with True assms scan_exact [of idx c q useAVX2 s] found_scan_exact [of cs s "cluster_cands idx q c"]
  show ?thesis by (simp add: search_ok_def)
next
  case False
  with assms scan_early [of idx c useAVX2 q s] found_scan_early [of cs s idx q c "rows_in idx c"]
  show ?thesis by (simp add: search_ok_def cluster_cands_def)
qed

end
