(* ===== verification/Ivf_Search.thy ===== *)
theory Ivf_Search
  imports Scan_Contract
begin

text \<open>
  The search itself (\<open>searchIVF\<close> and what it calls in \<open>ivf_search.go\<close>, \<open>Search5Quantized\<close> in
  \<open>quantized.go\<close>): probe the nearest clusters, expand or repair an ambiguous answer, and the
  hand-tuned approval and denial repairs. The locale \<open>cluster_scan\<close> states what the loops need of a
  cluster scan; its interpretation \<open>scans\<close> discharges it for \<open>scanIVFList\<close>.
\<close>

subsection \<open>The code\<close>

primrec ivfBBoxDistance_from ::
  "QuantizedIndex \<Rightarrow> i16 list \<Rightarrow> nat \<Rightarrow> int \<Rightarrow> nat list \<Rightarrow> int \<Rightarrow> int option" where
  "ivfBBoxDistance_from idx query base cutoff [] acc = Some acc"
| "ivfBBoxDistance_from idx query base cutoff (d # ds) acc = do {
     let q = query ! d;
     minV \<leftarrow> get (BBoxMin (IVF idx)) (base + d);
     maxV \<leftarrow> get (BBoxMax (IVF idx)) (base + d);
     let acc' =
       (if sint q < sint minV then
          let delta = sub64 (sint minV) (sint q) in add64 acc (mul64 delta delta)
        else if sint q > sint maxV then
          let delta = sub64 (sint q) (sint maxV) in add64 acc (mul64 delta delta)
        else acc);
     if acc' > cutoff then Some acc' else ivfBBoxDistance_from idx query base cutoff ds acc' }"

definition ivfBBoxDistance :: "QuantizedIndex \<Rightarrow> i16 list \<Rightarrow> nat \<Rightarrow> int \<Rightarrow> int option" where
  "ivfBBoxDistance idx query cluster cutoff =
     ivfBBoxDistance_from idx query (cluster * Dimensions) cutoff [0..<Dimensions] 0"

definition repairIVF ::
  "bool \<Rightarrow> QuantizedIndex \<Rightarrow> i16 list \<Rightarrow> ivfSearchState \<Rightarrow> ivfSearchState option" where
  "repairIVF useAVX2 idx query state =
     (if int (length (BBoxMin (IVF idx))) < Clusters (IVF idx) * int Dimensions
         \<or> int (length (BBoxMax (IVF idx))) < Clusters (IVF idx) * int Dimensions
      then Some state
      else
        let cutoff = bestDist state ! 4
        in if cutoff = maxInt64Value then Some state
        else foldM (\<lambda>c state. do {
            seen \<leftarrow> hasProbe (of_nat c) state;
            if seen then Some state
            else do {
              d \<leftarrow> ivfBBoxDistance idx query c cutoff;
              if d \<le> cutoff then scanIVFList useAVX2 idx query c state else Some state } })
          [0..<nat (Clusters (IVF idx))] state)"

definition searchIVFProbes ::
  "bool \<Rightarrow> QuantizedIndex \<Rightarrow> i16 list \<Rightarrow> int \<Rightarrow> bool \<Rightarrow> (nat \<times> ivfSearchState) option" where
  "searchIVFProbes useAVX2 idx query nprobe repair = do {
     (probeCount, probeIDs) \<leftarrow> topIVFCentroids useAVX2 idx query nprobe (replicate maxIVFProbe 0);
     state \<leftarrow> foldM (\<lambda>i state. do {
         cluster \<leftarrow> get probeIDs i;
         state \<leftarrow> addProbe cluster state;
         scanIVFList useAVX2 idx query (unat cluster) state }) [0..<probeCount] newIVFSearchState;
     state \<leftarrow> (if repair then repairIVF useAVX2 idx query state else Some state);
     Some (countFrauds state, state) }"

definition expandIVFProbes ::
  "bool \<Rightarrow> QuantizedIndex \<Rightarrow> i16 list \<Rightarrow> ivfSearchState \<Rightarrow> int \<Rightarrow> ivfSearchState option" where
  "expandIVFProbes useAVX2 idx query state nprobe = do {
     (probeCount, probeIDs) \<leftarrow> topIVFCentroids useAVX2 idx query nprobe (replicate maxIVFProbe 0);
     foldM (\<lambda>i state. do {
         cluster \<leftarrow> get probeIDs i;
         seen \<leftarrow> hasProbe cluster state;
         if seen then Some state
         else do {
           state \<leftarrow> addProbe cluster state;
           scanIVFList useAVX2 idx query (unat cluster) state } }) [0..<probeCount] state }"

definition isIVFAmbiguousFraudCount :: "i16 list \<Rightarrow> nat \<Rightarrow> bool" where
  "isIVFAmbiguousFraudCount query frauds \<longleftrightarrow>
     (if frauds > 1 \<and> frauds < 5 then True else frauds = 1 \<and> query ! 9 = 0)"

definition needsKnownBoundaryApprovalRepair :: "i16 list \<Rightarrow> bool" where
  "needsKnownBoundaryApprovalRepair query \<longleftrightarrow>
     (if query ! 5 \<noteq> - QuantScale \<or> query ! 6 \<noteq> - QuantScale then False
      else if query ! 9 = QuantScale \<and> query ! 10 = 0 \<and> sint (query ! 7) \<ge> 800 \<and> sint (query ! 7) \<le> 900
        \<and> sint (query ! 2) \<ge> 1000 \<and> sint (query ! 2) \<le> 2000 \<and> query ! 12 = 2000 then True
      else query ! 9 = 0 \<and> query ! 10 = QuantScale \<and> sint (query ! 7) \<ge> 3500 \<and> sint (query ! 7) \<le> 4000
        \<and> query ! 2 = QuantScale \<and> query ! 12 = 8000 \<and> sint (query ! 8) \<le> 4000)"

definition needsApprovalRepair :: "i16 list \<Rightarrow> bool" where
  "needsApprovalRepair query \<longleftrightarrow>
     (if needsKnownBoundaryApprovalRepair query then True
      else if sint (query ! 9) < sint QuantScale \<or> query ! 10 \<noteq> 0 then False
      else if sint (query ! 2) < 5000 then False
      else if sint (query ! 7) < 3000 \<or> sint (query ! 7) > 3600 then False
      else query ! 12 = 3000 \<or> sint (query ! 12) \<ge> 8500)"

definition needsKnownLateDenialRepair :: "i16 list \<Rightarrow> bool" where
  "needsKnownLateDenialRepair query \<longleftrightarrow>
     query ! 9 = QuantScale \<and> query ! 10 = 0 \<and> query ! 11 = 0 \<and> query ! 12 = 3000 \<and> query ! 2 = QuantScale
     \<and> sint (query ! 5) \<ge> 250 \<and> sint (query ! 5) \<le> 350 \<and> sint (query ! 6) \<ge> 300 \<and> sint (query ! 6) \<le> 450
     \<and> sint (query ! 7) \<ge> 3300 \<and> sint (query ! 7) \<le> 3500 \<and> query ! 8 = 2000
     \<and> sint (query ! 0) \<ge> 1400 \<and> sint (query ! 0) \<le> 1550"

definition needsDenialRepair :: "i16 list \<Rightarrow> bool" where
  "needsDenialRepair query \<longleftrightarrow>
     query ! 5 = - QuantScale \<and> query ! 6 = - QuantScale \<and> query ! 9 = 0 \<and> query ! 10 = QuantScale
     \<and> sint (query ! 7) \<le> 1000 \<and> sint (query ! 2) \<ge> 5000 \<and> sint (query ! 2) \<le> 10000 \<and> query ! 12 = 2500"

definition searchIVF :: "bool \<Rightarrow> QuantizedIndex \<Rightarrow> i16 list \<Rightarrow> nat option" where
  "searchIVF useAVX2 idx query = do {
     (frauds, state) \<leftarrow> searchIVFProbes useAVX2 idx query (NProbe (IVF idx)) False;
     (frauds, state) \<leftarrow>
       (if isIVFAmbiguousFraudCount query frauds \<and> AmbiguousNProbe (IVF idx) > NProbe (IVF idx) then do {
          state \<leftarrow> expandIVFProbes useAVX2 idx query state (AmbiguousNProbe (IVF idx));
          state \<leftarrow> (if Repair (IVF idx) then repairIVF useAVX2 idx query state else Some state);
          Some (countFrauds state, state) }
        else if Repair (IVF idx) \<and> isIVFAmbiguousFraudCount query frauds then do {
          state \<leftarrow> repairIVF useAVX2 idx query state;
          Some (countFrauds state, state) }
        else Some (frauds, state));
     if Repair (IVF idx) \<and> frauds < 3 \<and> needsApprovalRepair query then do {
       state \<leftarrow> expandIVFProbes useAVX2 idx query state (int maxIVFProbe);
       let frauds = countFrauds state;
       if frauds < 3 \<and> needsKnownLateDenialRepair query then Some 3 else Some frauds }
     else if Repair (IVF idx) \<and> frauds \<ge> 3 \<and> needsDenialRepair query then do {
       state \<leftarrow> expandIVFProbes useAVX2 idx query state (int maxIVFProbe);
       Some (countFrauds state) }
     else Some frauds }"

definition Search5Quantized :: "bool \<Rightarrow> QuantizedIndex \<Rightarrow> i16 list \<Rightarrow> nat option" where
  "Search5Quantized useAVX2 idx query =
     (if \<not> hasIVF idx then Some 0 else searchIVF useAVX2 idx query)"

subsection \<open>The contract of a cluster scan, and the search loops over it\<close>

locale cluster_scan =
  fixes scan :: "nat \<Rightarrow> ivfSearchState \<Rightarrow> ivfSearchState option"
    and cands :: "nat \<Rightarrow> cand list"
    and result :: "cand list \<Rightarrow> ivfSearchState \<Rightarrow> bool"
    and clusters :: nat
    and ready :: bool
  assumes scan_ok: "ready \<Longrightarrow> c < clusters \<Longrightarrow> result ds s \<Longrightarrow>
      \<exists>t. scan c s = Some t \<and> visited t = visited s \<and> result (ds @ cands c) t"
    and result_inv: "result ds s \<Longrightarrow> state_inv s"
    and result_cong: "result ds s \<Longrightarrow> state_inv t \<Longrightarrow> entries t = entries s \<Longrightarrow> result ds t"
    and few_clusters: "ready \<Longrightarrow> clusters \<le> 8192"
begin

lemma in_mask: "ready \<Longrightarrow> unat c < clusters \<Longrightarrow> cluster_ok c"
  using few_clusters by (simp add: cluster_ok_def)

lemma visit_ok:
  assumes "ready" "unat c < clusters" "result ds s"
  shows "\<exists>t. (do { s \<leftarrow> addProbe c s; scan (unat c) s }) = Some t \<and>
    visited t = insert c (visited s) \<and> result (ds @ cands (unat c)) t"
proof -
  obtain u where u: "addProbe c s = Some u" "state_inv u" "visited u = insert c (visited s)" "entries u = entries s"
    using addProbe_ok [OF result_inv [OF assms(3)] in_mask [OF assms(1,2)]] by blast
  from scan_ok [OF assms(1,2) result_cong [OF assms(3) u(2,4)]] u show ?thesis by auto
qed

lemma probe_loop:
  "ready \<Longrightarrow> \<forall>c \<in> set cs. unat c < clusters \<Longrightarrow> result ds s \<Longrightarrow>
   \<exists>t. foldM (\<lambda>c s. do { s \<leftarrow> addProbe c s; scan (unat c) s }) cs s = Some t \<and>
     visited t = set cs \<union> visited s \<and> result (ds @ concat (map (\<lambda>c. cands (unat c)) cs)) t"
proof (induction cs arbitrary: ds s)
  case Nil
  then show ?case by simp
next
  case (Cons c cs)
  then obtain u where "(do { s \<leftarrow> addProbe c s; scan (unat c) s }) = Some u"
      "visited u = insert c (visited s)" "result (ds @ cands (unat c)) u"
    using visit_ok [of c ds s] by auto
  with Cons.IH [of "ds @ cands (unat c)" u] Cons.prems show ?case by auto
qed

lemma expand_loop:
  "ready \<Longrightarrow> \<forall>c \<in> set cs. unat c < clusters \<Longrightarrow> distinct cs \<Longrightarrow> result ds s \<Longrightarrow>
   \<exists>t. foldM (\<lambda>c s. do { seen \<leftarrow> hasProbe c s;
       if seen then Some s else do { s \<leftarrow> addProbe c s; scan (unat c) s } }) cs s = Some t \<and>
     visited t = set cs \<union> visited s \<and>
     result (ds @ concat (map (\<lambda>c. cands (unat c)) (filter (\<lambda>c. c \<notin> visited s) cs))) t"
proof (induction cs arbitrary: ds s)
  case Nil
  then show ?case by simp
next
  case (Cons c cs)
  then have seen: "hasProbe c s = Some (c \<in> visited s)"
    by (intro hasProbe_visited result_inv in_mask) auto
  show ?case
  proof (cases "c \<in> visited s")
    case True
    with Cons.IH [of ds s] Cons.prems seen show ?thesis by auto
  next
    case False
    obtain u where u: "(do { s \<leftarrow> addProbe c s; scan (unat c) s }) = Some u"
        "visited u = insert c (visited s)" "result (ds @ cands (unat c)) u"
      using visit_ok [of c ds s] Cons.prems by auto
    have "filter (\<lambda>d. d \<notin> visited u) cs = filter (\<lambda>d. d \<notin> visited s) cs"
      using u(2) Cons.prems(3) by (auto intro!: filter_cong)
    with Cons.IH [of "ds @ cands (unat c)" u] Cons.prems seen u False show ?thesis by auto
  qed
qed

text \<open>The repair loop: it scans every unvisited cluster that passes the test, and marks none.\<close>

lemma repair_loop:
  assumes "ready" "\<And>c. c \<in> set cs \<Longrightarrow> near c = Some (d c)"
  shows "\<forall>c \<in> set cs. c < clusters \<Longrightarrow> result ds s \<Longrightarrow>
   \<exists>t. foldM (\<lambda>c s. do { seen \<leftarrow> hasProbe (of_nat c) s;
       if seen then Some s else do { b \<leftarrow> near c; if b \<le> (cutoff :: int) then scan c s else Some s } }) cs s = Some t \<and>
     visited t = visited s \<and>
     result (ds @ concat (map cands (filter (\<lambda>c. of_nat c \<notin> visited s \<and> d c \<le> cutoff) cs))) t"
  using assms(2)
proof (induction cs arbitrary: ds s)
  case Nil
  then show ?case by simp
next
  case (Cons c cs)
  then have "c < clusters" by simp
  with few_clusters [OF assms(1)] have "cluster_ok (of_nat c)"
    by (simp add: cluster_ok_def take_bit_nat_eq_self unsigned_of_nat)
  then have seen: "hasProbe (of_nat c) s = Some (of_nat c \<in> visited s)"
    using Cons.prems by (intro hasProbe_visited result_inv) auto
  show ?case
  proof (cases "of_nat c \<notin> visited s \<and> d c \<le> cutoff")
    case True
    obtain u where "scan c s = Some u" "visited u = visited s" "result (ds @ cands c) u"
      using scan_ok [OF assms(1) \<open>c < clusters\<close> Cons.prems(2)] by blast
    with Cons.IH [of "ds @ cands c" u] Cons.prems seen True show ?thesis by auto
  next
    case False
    with Cons.IH [of ds s] Cons.prems seen show ?thesis by auto
  qed
qed

end

interpretation scans: cluster_scan "scanIVFList useAVX2 idx q" "cluster_cands idx q"
  "found (exact_scans useAVX2 idx)" "clusters_of idx" "search_ok useAVX2 idx q" for useAVX2 idx q
proof
  show "found (exact_scans useAVX2 idx) ds s \<Longrightarrow> state_inv s" for ds s by (simp add: found_def)
  show "search_ok useAVX2 idx q \<Longrightarrow> clusters_of idx \<le> 8192" by (rule search_ok_few)
qed (auto intro: scanIVFList_found found_cong)

end
