(* ===== verification/Search_Correct.thy ===== *)
theory Search_Correct
  imports Ivf_Search
begin

text \<open>
  What the search returns. Every stage returns normally on a well-formed index; the states it
  passes are described by the list of clusters scanned so far. The bounding boxes prune only rows
  that cannot be among the five, so a repaired search and a search that probes every cluster have
  the five nearest rows of the whole index.
\<close>

subsection \<open>The probed clusters\<close>

definition nearest :: "QuantizedIndex \<Rightarrow> i16 list \<Rightarrow> nat \<Rightarrow> nat list" where
  "nearest idx q n = map unat (nearest_centroids idx q n)"

lemma nearest_prefix: "n \<le> m \<Longrightarrow> take n (nearest_centroids idx q m) = nearest_centroids idx q n"
  by (simp add: nearest_centroids_def best_def take_map min_absorb1)

lemma unat_of_nat_cluster: "c < clusters_of idx \<Longrightarrow> clusters_of idx \<le> 8192 \<Longrightarrow> unat (of_nat c :: u32) = c"
  by (simp add: take_bit_nat_eq_self unsigned_of_nat)

lemma set_nearest:
  assumes "clusters_of idx \<le> 8192" "c \<in> set (nearest_centroids idx q n)"
  shows "unat c < clusters_of idx"
proof -
  from assms(2) obtain d where "(d, c) \<in> set (centroid_cands idx q)"
    using set_best_subset [of n fst "centroid_cands idx q"] by (auto simp: nearest_centroids_def)
  then show ?thesis using assms(1) unat_of_nat_cluster [of _ idx] by (auto simp: centroid_cands_def)
qed

lemma distinct_nearest:
  assumes "clusters_of idx \<le> 8192"
  shows "distinct (nearest_centroids idx q n)"
proof -
  have "inj_on (of_nat :: nat \<Rightarrow> u32) {0..<clusters_of idx}"
    using unat_of_nat_cluster [OF _ assms] by (metis atLeastLessThan_iff inj_onI)
  then have "distinct (map snd (centroid_cands idx q))"
    by (simp add: centroid_cands_def comp_def distinct_map)
  then have "distinct (map snd (sort_key fst (centroid_cands idx q)))"
    by (simp add: distinct_map)
  then show ?thesis by (simp add: nearest_centroids_def best_def flip: take_map)
qed

lemma inj_on_unat: "inj_on unat (A :: u32 set)"
  by (rule inj_onI) (rule unsigned_word_eqI)

lemma distinct_nearest_nat: "clusters_of idx \<le> 8192 \<Longrightarrow> distinct (nearest idx q n)"
  by (simp add: nearest_def distinct_map distinct_nearest inj_on_unat)

lemma length_nearest: "length (nearest idx q n) = min (clusters_of idx) n"
  by (simp add: nearest_def nearest_centroids_def centroid_cands_def)

lemma nearest_all:
  assumes "clusters_of idx \<le> 8192" "clusters_of idx \<le> n"
  shows "set (nearest idx q n) = {0..<clusters_of idx}"
proof (rule card_subset_eq)
  show "set (nearest idx q n) \<subseteq> {0..<clusters_of idx}"
    using set_nearest [OF assms(1)] by (auto simp: nearest_def)
  show "card (set (nearest idx q n)) = card {0..<clusters_of idx}"
    using distinct_card [OF distinct_nearest_nat [OF assms(1)], of q n] assms(2) by (simp add: length_nearest)
qed simp

text \<open>The probe loops run over the first \<open>count\<close> ids of the array the selection filled.\<close>

lemma foldM_prefix:
  assumes "n \<le> length xs"
  shows "foldM (\<lambda>i s. do { x \<leftarrow> get xs i; f x s }) [0..<n] s = foldM f (take n xs) s"
proof -
  have "take n xs = map ((!) xs) [0..<n]" using assms by (intro nth_equalityI) auto
  then show ?thesis
    using assms by (auto simp: foldM_map intro!: foldM_cong)
qed

definition probe_clusters :: "QuantizedIndex \<Rightarrow> i16 list \<Rightarrow> int \<Rightarrow> u32 list" where
  "probe_clusters idx q nprobe = nearest_centroids idx q (clamp_nprobe idx nprobe)"

lemma top_ok:
  assumes "search_ok useAVX2 idx q" "0 < nprobe"
  shows "\<exists>out. topIVFCentroids useAVX2 idx q nprobe (replicate maxIVFProbe 0) = Some (clamp_nprobe idx nprobe, out) \<and>
    (\<forall>f s. foldM (\<lambda>i s. do { c \<leftarrow> get out i; f c s }) [0..<clamp_nprobe idx nprobe] s =
      foldM f (probe_clusters idx q nprobe) (s :: ivfSearchState))"
proof -
  have idx: "hasIVF idx" "useAVX2 \<longrightarrow> quantized_query q \<and> centroid_blocks_ok idx"
    using assms(1) by (auto simp: search_ok_def wf_index_def)
  have len: "length (replicate maxIVFProbe (0 :: u32)) = 128" by (simp add: maxIVFProbe_def)
  from topIVFCentroids_nearest [OF idx(1) assms(2) len idx(2)] obtain out
    where o: "topIVFCentroids useAVX2 idx q nprobe (replicate maxIVFProbe 0) = Some (clamp_nprobe idx nprobe, out)"
      "length out = 128" "take (clamp_nprobe idx nprobe) out = probe_clusters idx q nprobe"
    unfolding probe_clusters_def by blast
  have "clamp_nprobe idx nprobe \<le> length out" using clamp_bounds(2) [OF idx(1) assms(2)] o(2) by simp
  from foldM_prefix [OF this] o show ?thesis by metis
qed

lemma probe_clusters_less:
  "search_ok useAVX2 idx q \<Longrightarrow> \<forall>c \<in> set (probe_clusters idx q n). unat c < clusters_of idx"
  using set_nearest [OF search_ok_few] by (auto simp: probe_clusters_def)

subsection \<open>Probing and expanding\<close>

abbreviation probed_cands :: "QuantizedIndex \<Rightarrow> i16 list \<Rightarrow> int \<Rightarrow> cand list" where
  "probed_cands idx q nprobe \<equiv> scan_cands idx q (map unat (probe_clusters idx q nprobe))"

lemma scan_cands_map: "concat (map (\<lambda>c. cluster_cands idx q (f c)) cs) = scan_cands idx q (map f cs)"
  by (simp add: scan_cands_def comp_def)

lemma searchIVFProbes_found:
  assumes "search_ok useAVX2 idx q" "0 < nprobe"
  shows "\<exists>s. searchIVFProbes useAVX2 idx q nprobe False = Some (countFrauds s, s) \<and>
    visited s = set (probe_clusters idx q nprobe) \<and>
    found (exact_scans useAVX2 idx) (probed_cands idx q nprobe) s"
proof -
  from top_ok [OF assms] obtain out
    where "topIVFCentroids useAVX2 idx q nprobe (replicate maxIVFProbe 0) = Some (clamp_nprobe idx nprobe, out)"
      "\<forall>f s. foldM (\<lambda>i s. do { c \<leftarrow> get out i; f c s }) [0..<clamp_nprobe idx nprobe] s =
        foldM f (probe_clusters idx q nprobe) (s :: ivfSearchState)" by blast
  moreover from scans.probe_loop [OF assms(1) probe_clusters_less [OF assms(1)] found_new, of nprobe]
  obtain s where "foldM (\<lambda>c s. do { s \<leftarrow> addProbe c s; scanIVFList useAVX2 idx q (unat c) s })
      (probe_clusters idx q nprobe) newIVFSearchState = Some s"
    "visited s = set (probe_clusters idx q nprobe)"
    "found (exact_scans useAVX2 idx) (probed_cands idx q nprobe) s"
    by (auto simp: scan_cands_map)
  ultimately show ?thesis by (intro exI [of _ s]) (simp add: searchIVFProbes_def)
qed

lemma expandIVFProbes_found:
  assumes "search_ok useAVX2 idx q" "0 < nprobe" "found (exact_scans useAVX2 idx) ds s"
  shows "\<exists>t. expandIVFProbes useAVX2 idx q s nprobe = Some t \<and>
    visited t = set (probe_clusters idx q nprobe) \<union> visited s \<and>
    found (exact_scans useAVX2 idx)
      (ds @ scan_cands idx q (map unat (filter (\<lambda>c. c \<notin> visited s) (probe_clusters idx q nprobe)))) t"
proof -
  from top_ok [OF assms(1,2)] obtain out
    where "topIVFCentroids useAVX2 idx q nprobe (replicate maxIVFProbe 0) = Some (clamp_nprobe idx nprobe, out)"
      "\<forall>f s. foldM (\<lambda>i s. do { c \<leftarrow> get out i; f c s }) [0..<clamp_nprobe idx nprobe] s =
        foldM f (probe_clusters idx q nprobe) (s :: ivfSearchState)" by blast
  moreover have "distinct (probe_clusters idx q nprobe)"
    unfolding probe_clusters_def using search_ok_few [OF assms(1)] by (rule distinct_nearest)
  from scans.expand_loop [OF assms(1) probe_clusters_less [OF assms(1)] this assms(3)]
  obtain t where "foldM (\<lambda>c s. do { seen \<leftarrow> hasProbe c s;
       if seen then Some s else do { s \<leftarrow> addProbe c s; scanIVFList useAVX2 idx q (unat c) s } })
      (probe_clusters idx q nprobe) s = Some t"
    "visited t = set (probe_clusters idx q nprobe) \<union> visited s"
    "found (exact_scans useAVX2 idx)
      (ds @ scan_cands idx q (map unat (filter (\<lambda>c. c \<notin> visited s) (probe_clusters idx q nprobe)))) t"
    by (auto simp: scan_cands_map)
  ultimately show ?thesis by (intro exI [of _ t]) (simp add: expandIVFProbes_def)
qed

text \<open>Expanding a probe of \<open>n\<close> clusters to \<open>m\<close> is a probe of \<open>m\<close> clusters.\<close>

lemma clamp_mono: "n \<le> m \<Longrightarrow> clamp_nprobe idx n \<le> clamp_nprobe idx m"
  by (auto simp: clamp_nprobe_def Let_def maxIVFProbe_def)

lemma filter_out_prefix: "distinct xs \<Longrightarrow> filter (\<lambda>x. x \<notin> set (take n xs)) xs = drop n xs"
proof -
  assume "distinct xs"
  then have "distinct (take n xs @ drop n xs)" by simp
  then have "filter (\<lambda>x. x \<notin> set (take n xs)) (take n xs @ drop n xs) = drop n xs"
    by (auto simp only: filter_append distinct_append) (auto simp: filter_empty_conv filter_id_conv)
  then show ?thesis by simp
qed

lemma expand_probed:
  assumes "search_ok useAVX2 idx q" "0 < n" "n \<le> m" "visited s = set (probe_clusters idx q n)"
    and "found (exact_scans useAVX2 idx) (probed_cands idx q n) s"
  shows "\<exists>t. expandIVFProbes useAVX2 idx q s m = Some t \<and> visited t = set (probe_clusters idx q m) \<and>
    found (exact_scans useAVX2 idx) (probed_cands idx q m) t"
proof -
  let ?n = "clamp_nprobe idx n" and ?m = "probe_clusters idx q m"
  have pre: "probe_clusters idx q n = take ?n ?m"
    using nearest_prefix [OF clamp_mono [OF assms(3)]] by (simp add: probe_clusters_def)
  have "distinct ?m"
    unfolding probe_clusters_def using search_ok_few [OF assms(1)] by (rule distinct_nearest)
  then have rest: "filter (\<lambda>c. c \<notin> visited s) ?m = drop ?n ?m"
    unfolding assms(4) pre by (rule filter_out_prefix)
  have "probed_cands idx q n @ scan_cands idx q (map unat (drop ?n ?m)) = probed_cands idx q m"
    unfolding pre by (simp flip: scan_cands_append map_append)
  moreover have "set ?m \<union> visited s = set ?m"
    unfolding assms(4) pre using set_take_subset by fast
  ultimately show ?thesis
    using expandIVFProbes_found [OF assms(1) _ assms(5), of m] assms(2,3) rest by simp
qed

subsection \<open>Bounding boxes\<close>

definition box_gap :: "i16 \<Rightarrow> i16 \<Rightarrow> i16 \<Rightarrow> int" where
  "box_gap q mn mx = (if sint q < sint mn then sq mn q else if sint q > sint mx then sq q mx else 0)"

definition box_dist :: "QuantizedIndex \<Rightarrow> i16 list \<Rightarrow> nat \<Rightarrow> int" where
  "box_dist idx q c = (\<Sum>k < Dimensions. box_gap (q ! k)
     (BBoxMin (IVF idx) ! (c * Dimensions + k)) (BBoxMax (IVF idx) ! (c * Dimensions + k)))"

definition has_boxes :: "QuantizedIndex \<Rightarrow> bool" where
  "has_boxes idx \<longleftrightarrow> clusters_of idx * Dimensions \<le> length (BBoxMin (IVF idx)) \<and>
     clusters_of idx * Dimensions \<le> length (BBoxMax (IVF idx))"

text \<open>Every row lies in the box of its cluster.\<close>

definition boxes_ok :: "QuantizedIndex \<Rightarrow> bool" where
  "boxes_ok idx \<longleftrightarrow> has_boxes idx \<and> (\<forall>c < clusters_of idx. \<forall>row \<in> set (rows_in idx c). \<forall>k < Dimensions.
     sint (BBoxMin (IVF idx) ! (c * Dimensions + k)) \<le> sint (rowvec idx c row ! k) \<and>
     sint (rowvec idx c row ! k) \<le> sint (BBoxMax (IVF idx) ! (c * Dimensions + k)))"

text \<open>The same, read off the row-major vectors the blocks were built from.\<close>

definition in_boxes :: "nat \<Rightarrow> u32 list \<Rightarrow> i16 list \<Rightarrow> i16 list \<Rightarrow> i16 list \<Rightarrow> bool" where
  "in_boxes n lo mins maxs vectors \<longleftrightarrow> (\<forall>c < n. \<forall>row \<in> set (rows_of lo c). \<forall>k < Dimensions.
     sint (mins ! (c * Dimensions + k)) \<le> sint (vec_at vectors (row * Dimensions) ! k) \<and>
     sint (vec_at vectors (row * Dimensions) ! k) \<le> sint (maxs ! (c * Dimensions + k)))"

definition vectors_in_boxes :: "QuantizedIndex \<Rightarrow> i16 list \<Rightarrow> bool" where
  "vectors_in_boxes idx vectors \<longleftrightarrow> has_boxes idx \<and>
     in_boxes (clusters_of idx) (ListOffsets (IVF idx)) (BBoxMin (IVF idx)) (BBoxMax (IVF idx)) vectors"

lemma boxes_ok_built:
  assumes "wf_index idx" "hasIVFBlocks idx"
    and "buildIVFBlocks vectors (ListOffsets (IVF idx)) (BlockOffsets (IVF idx)) = Some (Blocks idx)"
    and "length (Labels idx) * Dimensions \<le> length vectors"
  shows "boxes_ok idx \<longleftrightarrow> vectors_in_boxes idx vectors"
  using rowvec_built [OF assms(1,2) _ _ assms(3,4)] by (auto simp: boxes_ok_def vectors_in_boxes_def in_boxes_def)

lemma box_gap_bounds: "0 \<le> box_gap q mn mx \<and> box_gap q mn mx \<le> 4294836225"
  by (simp add: box_gap_def sq_bound)

lemma square_mono: "0 \<le> (a :: int) \<Longrightarrow> a \<le> b \<Longrightarrow> a\<^sup>2 \<le> b\<^sup>2"
  by (rule power_mono)

lemma box_gap_le:
  assumes "sint mn \<le> sint v" "sint v \<le> sint mx"
  shows "box_gap q mn mx \<le> sq q v"
  using assms square_mono [of "sint mn - sint q" "sint v - sint q"] square_mono [of "sint q - sint mx" "sint q - sint v"]
  by (auto simp: box_gap_def sq_def power2_commute)

lemma bbox_from_cut_sum:
  assumes "\<And>d. d \<in> set ds \<Longrightarrow> base + d < length (BBoxMin (IVF idx)) \<and> base + d < length (BBoxMax (IVF idx))"
    and "0 \<le> acc" "acc + 4294836225 * int (length ds) \<le> 9223372036854775807"
  shows "ivfBBoxDistance_from idx q base cutoff ds acc = Some (cut_sum (cutoff + 1)
    (map (\<lambda>d. box_gap (q ! d) (BBoxMin (IVF idx) ! (base + d)) (BBoxMax (IVF idx) ! (base + d))) ds) acc)"
  using assms
proof (induction ds arbitrary: acc)
  case Nil
  then show ?case by simp
next
  case (Cons d ds)
  let ?mn = "BBoxMin (IVF idx) ! (base + d)" and ?mx = "BBoxMax (IVF idx) ! (base + d)"
  let ?g = "box_gap (q ! d) ?mn ?mx"
  have g: "0 \<le> ?g" "?g \<le> 4294836225" using box_gap_bounds by auto
  have add: "add64 acc ?g = acc + ?g"
    using g Cons.prems(2,3) by (intro add64_id) simp_all
  have step: "(if sint (q ! d) < sint ?mn
      then let delta = sub64 (sint ?mn) (sint (q ! d)) in add64 acc (mul64 delta delta)
      else if sint (q ! d) > sint ?mx
      then let delta = sub64 (sint (q ! d)) (sint ?mx) in add64 acc (mul64 delta delta) else acc) = acc + ?g"
    using add by (auto simp: box_gap_def Let_def split: if_splits)
  have ih: "ivfBBoxDistance_from idx q base cutoff ds (acc + ?g) = Some (cut_sum (cutoff + 1)
    (map (\<lambda>d. box_gap (q ! d) (BBoxMin (IVF idx) ! (base + d)) (BBoxMax (IVF idx) ! (base + d))) ds) (acc + ?g))"
    using g Cons.prems by (intro Cons.IH) auto
  have exit: "acc + ?g > cutoff \<longleftrightarrow> cutoff + 1 \<le> acc + ?g" by linarith
  show ?case
    using Cons.prems(1) ih unfolding ivfBBoxDistance_from.simps
    by (simp add: step exit)
qed

definition box_cut :: "QuantizedIndex \<Rightarrow> i16 list \<Rightarrow> int \<Rightarrow> nat \<Rightarrow> int" where
  "box_cut idx q cutoff c = cut_sum (cutoff + 1) (map (\<lambda>k. box_gap (q ! k)
     (BBoxMin (IVF idx) ! (c * Dimensions + k)) (BBoxMax (IVF idx) ! (c * Dimensions + k))) [0..<Dimensions]) 0"

lemma ivfBBoxDistance_cut:
  assumes "has_boxes idx" "c < clusters_of idx"
  shows "ivfBBoxDistance idx q c cutoff = Some (box_cut idx q cutoff c)"
proof -
  have "c * Dimensions + Dimensions \<le> clusters_of idx * Dimensions" by (rule block_fits [OF assms(2)])
  with assms(1) show ?thesis
    unfolding ivfBBoxDistance_def box_cut_def
    by (intro bbox_from_cut_sum) (auto simp: has_boxes_def Dimensions_def)
qed

text \<open>The early exit never changes the outcome of the test against the cutoff.\<close>

lemma box_cut_iff: "box_cut idx q cutoff c \<le> cutoff \<longleftrightarrow> box_dist idx q c \<le> cutoff"
proof -
  let ?ts = "map (\<lambda>k. box_gap (q ! k) (BBoxMin (IVF idx) ! (c * Dimensions + k))
      (BBoxMax (IVF idx) ! (c * Dimensions + k))) [0..<Dimensions]"
  have "sum_list ?ts = box_dist idx q c"
    by (simp add: box_dist_def sum_list_distinct_conv_sum_set atLeast0LessThan)
  then show ?thesis
    using cut_sum_exit [of "cutoff + 1" ?ts 0] cut_sum_bounds [of ?ts 0 "cutoff + 1"] box_gap_bounds
    by (fastforce simp: box_cut_def)
qed

lemma box_dist_le:
  assumes "boxes_ok idx" "c < clusters_of idx" "row \<in> set (rows_in idx c)"
  shows "box_dist idx q c \<le> sqdist q (rowvec idx c row)"
  unfolding box_dist_def sqdist_def using assms by (intro sum_mono box_gap_le) (auto simp: boxes_ok_def)

lemma box_prunes:
  assumes "boxes_ok idx" "c < clusters_of idx" "cutoff < box_dist idx q c" "d \<in> set (cluster_cands idx q c)"
  shows "cutoff < cdist d"
  using assms(3,4) box_dist_le [OF assms(1,2), of _ q]
  by (fastforce simp: cluster_cands_def cand_at_def row_cand_def)

subsection \<open>All rows of the index\<close>

definition all_cands :: "QuantizedIndex \<Rightarrow> i16 list \<Rightarrow> cand list" where
  "all_cands idx q = scan_cands idx q [0..<clusters_of idx]"

lemma proper_all_cands [simp]: "proper (all_cands idx q)"
  by (simp add: all_cands_def)

definition distinct_ids :: "QuantizedIndex \<Rightarrow> bool" where
  "distinct_ids idx \<longleftrightarrow> distinct (OrigIDs (IVF idx))"

lemma map_cid_all_cands:
  assumes "wf_index idx"
  shows "map cid (all_cands idx q) = OrigIDs (IVF idx)"
proof -
  let ?lo = "ListOffsets (IVF idx)" and ?ids = "OrigIDs (IVF idx)"
  have o: "offsets_ok (length (Labels idx)) (clusters_of idx) ?lo" "length ?ids = length (Labels idx)"
    using assms by (auto simp: wf_index_def)
  have "map cid (cluster_cands idx q c) = map ((!) ?ids) (rows_in idx c)" for c
    by (simp add: cluster_cands_def cand_at_def row_cand_def)
  then have "map cid (all_cands idx q) = map ((!) ?ids) (concat (map (rows_of ?lo) [0..<clusters_of idx]))"
    by (simp add: all_cands_def scan_cands_def map_concat comp_def)
  also have "concat (map (rows_of ?lo) [0..<clusters_of idx]) = [0..<length ?ids]"
    using concat_rows_of [OF o(1) order_refl] o by (simp add: offsets_ok_def)
  finally show ?thesis by (simp add: map_nth)
qed

lemma distinct_ranks:
  assumes "wf_index idx" "distinct_ids idx"
  shows "distinct (map rank_of (all_cands idx q))"
proof -
  have "distinct (map cid (all_cands idx q))"
    using assms by (simp add: map_cid_all_cands distinct_ids_def)
  moreover have "cid c = (case rank_of c of Rank d i \<Rightarrow> i)" for c by (cases c) simp
  then have "map cid (all_cands idx q) = map (\<lambda>r. case r of Rank d i \<Rightarrow> i) (map rank_of (all_cands idx q))"
    by simp
  ultimately show ?thesis by (metis distinct_map)
qed

lemma mset_scan_cands: "mset cs = mset ds \<Longrightarrow> mset (scan_cands idx q cs) = mset (scan_cands idx q ds)"
proof -
  have "mset (scan_cands idx q cs) = (\<Sum>c \<in># mset cs. mset (cluster_cands idx q c))" for cs
    by (induction cs) (auto simp: scan_cands_def)
  then show "mset cs = mset ds \<Longrightarrow> ?thesis" by simp
qed

lemma top5_all:
  assumes "wf_index idx" "distinct_ids idx" "mset cs = mset [0..<clusters_of idx]"
  shows "top5 (scan_cands idx q cs) = top5 (all_cands idx q)"
  using top5_perm [OF mset_scan_cands [OF assms(3) [symmetric]] distinct_ranks [OF assms(1,2), unfolded all_cands_def]]
  by (simp add: all_cands_def)

lemma found_top5: "found exact cs s \<Longrightarrow> top5 cs = top5 ds \<Longrightarrow> proper ds \<Longrightarrow> found exact ds s"
  by (auto simp: found_def split: if_splits)

lemma top5_append_cong:
  assumes "proper xs" "proper ys" "proper zs" "top5 xs = top5 ys"
  shows "top5 (xs @ zs) = top5 (ys @ zs)"
  using assms fold_keep_best [of 5 rank_of zs "replicate 5 sentinel @ xs"]
    fold_keep_best [of 5 rank_of zs "replicate 5 sentinel @ ys"]
  by (simp add: top5_best)

lemma last_top5_full:
  assumes "proper cs"
  shows "cdist (last (top5 cs)) \<noteq> maxInt64Value \<longleftrightarrow> 5 \<le> length cs"
proof (cases "5 \<le> length cs")
  case True
  then have "top5 cs ! 4 = sort_key rank_of cs ! 4" by (simp add: top5_def nth_append)
  moreover have "sort_key rank_of cs ! 4 \<in> set (sort_key rank_of cs)" using True by (intro nth_mem) simp
  ultimately have "cdist (last (top5 cs)) < maxInt64Value"
    using assms by (simp add: last_top5 proper_def)
  with True show ?thesis by simp
next
  case False
  then have "top5 cs ! 4 = sentinel" by (simp add: top5_def nth_append)
  with False show ?thesis by (simp add: last_top5 sentinel_def)
qed

subsection \<open>Repair\<close>

text \<open>The repair loop returns, whatever the boxes hold; what it adds are candidates of the index.\<close>

lemma repairIVF_found:
  assumes "search_ok useAVX2 idx q" "found (exact_scans useAVX2 idx) ds s"
  defines "near \<equiv> filter (\<lambda>c. of_nat c \<notin> visited s \<and> box_dist idx q c \<le> bestDist s ! 4) [0..<clusters_of idx]"
  shows "\<exists>t. repairIVF useAVX2 idx q s = Some t \<and> visited t = visited s \<and>
    found (exact_scans useAVX2 idx)
      (ds @ scan_cands idx q (if has_boxes idx \<and> bestDist s ! 4 \<noteq> maxInt64Value then near else [])) t"
proof (cases "has_boxes idx \<and> bestDist s ! 4 \<noteq> maxInt64Value")
  case True
  let ?cut = "bestDist s ! 4"
  have pos: "0 < Clusters (IVF idx)" using assms(1) by (simp add: search_ok_def wf_index_def hasIVF_def)
  then have len: "int (length xs) < Clusters (IVF idx) * int Dimensions \<longleftrightarrow> length xs < clusters_of idx * Dimensions"
    for xs :: "i16 list" by (simp add: Dimensions_def) linarith
  have "ivfBBoxDistance idx q c ?cut = Some (box_cut idx q ?cut c)" if "c \<in> set [0..<clusters_of idx]" for c
    using that True by (intro ivfBBoxDistance_cut) auto
  from scans.repair_loop [where cs = "[0..<clusters_of idx]" and d = "box_cut idx q ?cut" and cutoff = ?cut,
      OF assms(1) this _ assms(2)]
  obtain t where "foldM (\<lambda>c s. do { seen \<leftarrow> hasProbe (of_nat c) s; if seen then Some s
        else do { b \<leftarrow> ivfBBoxDistance idx q c ?cut; if b \<le> ?cut then scanIVFList useAVX2 idx q c s else Some s } })
      [0..<clusters_of idx] s = Some t" "visited t = visited s"
    "found (exact_scans useAVX2 idx) (ds @ scan_cands idx q near) t"
    by (auto simp: near_def box_cut_iff scan_cands_def)
  with True len show ?thesis by (intro exI [of _ t]) (simp add: repairIVF_def has_boxes_def not_less)
next
  case False
  have pos: "0 < Clusters (IVF idx)" using assms(1) by (simp add: search_ok_def wf_index_def hasIVF_def)
  then have len: "int (length xs) < Clusters (IVF idx) * int Dimensions \<longleftrightarrow> length xs < clusters_of idx * Dimensions"
    for xs :: "i16 list" by (simp add: Dimensions_def) linarith
  show ?thesis
    using False assms(2) len by (auto simp: repairIVF_def has_boxes_def not_less scan_cands_def Let_def)
qed

text \<open>With boxes that contain their rows, repair completes the search: nothing it skips is closer
  than the fifth candidate.\<close>

lemma mset_partition: "mset (filter P xs @ filter (\<lambda>x. \<not> P x) xs) = mset xs"
  using multiset_partition [of "mset xs" P] by simp

lemma repair_complete:
  assumes "search_ok useAVX2 idx q" "boxes_ok idx" "distinct_ids idx"
    and "found (exact_scans useAVX2 idx) (scan_cands idx q cs) s"
    and "distinct cs" "set cs \<subseteq> {0..<clusters_of idx}" "visited s = of_nat ` set cs"
    and "5 \<le> length (scan_cands idx q cs)"
  shows "\<exists>t. repairIVF useAVX2 idx q s = Some t \<and> found (exact_scans useAVX2 idx) (all_cands idx q) t"
proof -
  let ?C = "scan_cands idx q" and ?cut = "bestDist s ! 4" and ?all = "[0..<clusters_of idx]"
  have wf: "wf_index idx" using assms(1) by (simp add: search_ok_def)
  have few: "clusters_of idx \<le> 8192" using assms(1) by (rule search_ok_few)
  have cut: "?cut = cdist (last (top5 (?C cs)))"
    using found_dists [OF assms(4), of 4] by (simp add: last_top5)
  have full: "?cut \<noteq> maxInt64Value" using last_top5_full [of "?C cs"] assms(8) cut by simp
  let ?P = "\<lambda>c. of_nat c \<notin> visited s \<and> box_dist idx q c \<le> ?cut"
  define near where "near = filter ?P ?all"
  define far where "far = filter (\<lambda>c. c \<notin> set cs \<and> \<not> box_dist idx q c \<le> ?cut) ?all"
  have seen: "of_nat c \<in> visited s \<longleftrightarrow> c \<in> set cs" if "c < clusters_of idx" for c
  proof
    assume "of_nat c \<in> visited s"
    then obtain d where d: "d \<in> set cs" "(of_nat c :: u32) = of_nat d" using assms(7) by auto
    then have "d < clusters_of idx" using assms(6) by auto
    with d that show "c \<in> set cs" using unat_of_nat_cluster [OF _ few] by metis
  qed (simp add: assms(7))
  have near: "near = filter (\<lambda>c. c \<notin> set cs \<and> box_dist idx q c \<le> ?cut) ?all"
    unfolding near_def using seen by (intro filter_cong) auto
  have "mset (cs @ far @ near) = mset ?all"
  proof -
    have "mset cs = mset (filter (\<lambda>c. c \<in> set cs) ?all)"
      using assms(5,6) by (intro set_eq_iff_mset_eq_distinct [THEN iffD1]) auto
    moreover have "mset (far @ near) = mset (filter (\<lambda>c. c \<notin> set cs) ?all)"
      using mset_partition [of "\<lambda>c. box_dist idx q c \<le> ?cut" "filter (\<lambda>c. c \<notin> set cs) ?all"]
      by (simp add: far_def near conj_commute add.commute)
    ultimately show ?thesis
      using mset_partition [of "\<lambda>c. c \<in> set cs" ?all] by simp
  qed
  from top5_all [OF wf assms(3) this, of q]
  have "top5 (?C cs @ ?C far @ ?C near) = top5 (all_cands idx q)"
    by (simp only: scan_cands_append)
  moreover have "top5 (?C cs @ ?C far) = top5 (?C cs)"
  proof (rule top5_prune [OF assms(8)])
    fix d
    assume "d \<in> set (?C far)"
    then obtain c where "c \<in> set far" "d \<in> set (cluster_cands idx q c)" by (auto simp: scan_cands_def)
    then show "cdist (last (top5 (?C cs))) < cdist d"
      using box_prunes [OF assms(2), of c] cut by (auto simp: far_def not_le)
  qed
  then have "top5 ((?C cs @ ?C far) @ ?C near) = top5 (?C cs @ ?C near)"
    by (intro top5_append_cong) simp_all
  ultimately have "top5 (?C cs @ ?C near) = top5 (all_cands idx q)" by simp
  moreover from repairIVF_found [OF assms(1,4)] full assms(2)
  obtain t where "repairIVF useAVX2 idx q s = Some t" "found (exact_scans useAVX2 idx) (?C cs @ ?C near) t"
    by (auto simp: near_def boxes_ok_def)
  ultimately show ?thesis using found_top5 proper_all_cands by blast
qed

end
