(* ===== verification/Search_Result.thy ===== *)
theory Search_Result
  imports Search_Correct
begin

text \<open>
  The fraud count that \<open>searchIVF\<close> returns: it always returns, with a count of at most five; with
  exact scans it is the count among the five best of the clusters probed, of the whole index once
  every cluster is probed, and of the whole index after a repair. With scalar scans the count is
  exact up to the ties at the fifth distance.
\<close>

definition frauds_of :: "cand list \<Rightarrow> nat" where
  "frauds_of cs = length (filter cfraud (top5 cs))"

lemma top5_cases:
  assumes "proper cs" "c \<in> set (top5 cs)"
  shows "c = sentinel \<or> c \<in> set cs \<and> cdist c < maxInt64Value"
proof -
  have "c \<in> set (sort_key rank_of cs @ replicate 5 sentinel)"
    using assms(2) unfolding top5_def by (rule in_set_takeD)
  with assms(1) show ?thesis by (auto simp: proper_def)
qed

lemma frauds_of_filter:
  "proper cs \<Longrightarrow> length (filter (\<lambda>c. cdist c \<noteq> maxInt64Value \<and> cfraud c) (top5 cs)) = frauds_of cs"
  unfolding frauds_of_def
  by (intro arg_cong [where f = length] filter_cong) (auto dest!: top5_cases simp: sentinel_def)

lemma countFrauds_exact: "found True cs s \<Longrightarrow> countFrauds s = frauds_of cs"
  using frauds_of_filter [of cs] by (simp add: found_def countFrauds_entries)

lemma frauds_of_le: "frauds_of cs \<le> 5"
  using length_filter_le [of cfraud "top5 cs"] by (simp add: frauds_of_def)

subsection \<open>Ties at the fifth distance\<close>

definition ties :: "cand list \<Rightarrow> nat" where
  "ties cs = length (filter (\<lambda>c. \<not> cdist c < cdist (last (top5 cs))) (top5 cs))"

lemma count_split:
  "length (filter P xs) = length (filter P (below t xs)) + length (filter P (filter (\<lambda>c. \<not> cdist c < t) xs))"
  by (induction xs) (auto simp: below_def)

lemma length_split: "length xs = length (below t xs) + length (filter (\<lambda>c. \<not> cdist c < t) xs)"
  using count_split [of "\<lambda>_. True" xs t] by simp

lemma agree_ties:
  assumes "agree xs es" "t = cdist (last es)"
  shows "\<bar>int (length (filter P xs)) - int (length (filter P es))\<bar> \<le> int (length (filter (\<lambda>c. \<not> cdist c < t) es))"
proof -
  have below: "below t xs = below t es" and len: "length xs = length es"
    using assms map_eq_imp_length_eq by (auto simp: agree_def)
  have "length (filter P (filter (\<lambda>c. \<not> cdist c < t) zs)) \<le> length (filter (\<lambda>c. \<not> cdist c < t) zs)" for zs
    by (rule length_filter_le)
  from this [of xs] this [of es] show ?thesis
    using below len count_split [of P xs t] count_split [of P es t] length_split [of xs t] length_split [of es t]
    by simp
qed

lemma countFrauds_ties:
  assumes "found exact cs s"
  shows "\<bar>int (countFrauds s) - int (frauds_of cs)\<bar> \<le> int (ties cs)"
  using agree_ties [OF found_agree [OF assms] refl, of "\<lambda>c. cdist c \<noteq> maxInt64Value \<and> cfraud c"] assms
  by (simp add: found_def countFrauds_entries frauds_of_filter ties_def)

subsection \<open>What an invariant of the stages says of the result\<close>

lemma searchIVF_stages:
  assumes probe: "\<exists>s. searchIVFProbes useAVX2 idx q (NProbe (IVF idx)) False = Some (countFrauds s, s) \<and> P s"
    and expand: "\<And>s m. P s \<Longrightarrow> 0 < m \<Longrightarrow> \<exists>t. expandIVFProbes useAVX2 idx q s m = Some t \<and> P t"
    and repair: "\<And>s. P s \<Longrightarrow> \<exists>t. repairIVF useAVX2 idx q s = Some t \<and> P t"
    and pos: "0 < NProbe (IVF idx)"
  shows "\<exists>s k. searchIVF useAVX2 idx q = Some k \<and> P s \<and> (k = countFrauds s \<or>
    k = 3 \<and> Repair (IVF idx) \<and> countFrauds s < 3 \<and> needsApprovalRepair q \<and> needsKnownLateDenialRepair q)"
proof -
  obtain s where s: "searchIVFProbes useAVX2 idx q (NProbe (IVF idx)) False = Some (countFrauds s, s)" "P s"
    using probe by blast
  obtain u where u: "P u" "(if isIVFAmbiguousFraudCount q (countFrauds s) \<and> AmbiguousNProbe (IVF idx) > NProbe (IVF idx) then do {
          state \<leftarrow> expandIVFProbes useAVX2 idx q s (AmbiguousNProbe (IVF idx));
          state \<leftarrow> (if Repair (IVF idx) then repairIVF useAVX2 idx q state else Some state);
          Some (countFrauds state, state) }
        else if Repair (IVF idx) \<and> isIVFAmbiguousFraudCount q (countFrauds s) then do {
          state \<leftarrow> repairIVF useAVX2 idx q s;
          Some (countFrauds state, state) }
        else Some (countFrauds s, s)) = Some (countFrauds u, u)"
  proof (cases "isIVFAmbiguousFraudCount q (countFrauds s) \<and> AmbiguousNProbe (IVF idx) > NProbe (IVF idx)")
    case True
    with pos have "0 < AmbiguousNProbe (IVF idx)" by simp
    from expand [OF s(2) this] obtain t where t: "expandIVFProbes useAVX2 idx q s (AmbiguousNProbe (IVF idx)) = Some t" "P t"
      by blast
    from repair [OF t(2)] obtain w where "repairIVF useAVX2 idx q t = Some w" "P w" by blast
    with t True that [of "if Repair (IVF idx) then w else t"] show ?thesis by auto
  next
    case False
    from repair [OF s(2)] obtain w where "repairIVF useAVX2 idx q s = Some w" "P w" by blast
    with s False that [of "if Repair (IVF idx) \<and> isIVFAmbiguousFraudCount q (countFrauds s) then w else s"]
    show ?thesis by auto
  qed
  obtain t where t: "expandIVFProbes useAVX2 idx q u (int maxIVFProbe) = Some t" "P t"
    using expand [OF u(1), of "int maxIVFProbe"] by (auto simp: maxIVFProbe_def)
  show ?thesis
    using s u t by (auto simp: searchIVF_def Let_def)
qed

text \<open>When every state the stages can reach has the same count, the result is that count.\<close>

lemma searchIVF_constant:
  assumes probe: "\<exists>s. searchIVFProbes useAVX2 idx q (NProbe (IVF idx)) False = Some (countFrauds s, s) \<and> P s"
    and expand: "\<And>s m. P s \<Longrightarrow> 0 < m \<Longrightarrow> \<exists>t. expandIVFProbes useAVX2 idx q s m = Some t \<and> P t"
    and repair: "\<And>s. P s \<Longrightarrow> \<exists>t. repairIVF useAVX2 idx q s = Some t \<and> P t"
    and pos: "0 < NProbe (IVF idx)"
    and const: "\<And>s. P s \<Longrightarrow> countFrauds s = k"
  shows "searchIVF useAVX2 idx q = Some
    (if Repair (IVF idx) \<and> k < 3 \<and> needsApprovalRepair q \<and> needsKnownLateDenialRepair q then 3 else k)"
proof -
  obtain s where s: "searchIVFProbes useAVX2 idx q (NProbe (IVF idx)) False = Some (k, s)" "P s"
    using probe const by metis
  have rep: "\<exists>t. repairIVF useAVX2 idx q u = Some t \<and> P t \<and> countFrauds t = k" if "P u" for u
    using repair [OF that] const by blast
  have exp: "\<exists>t. expandIVFProbes useAVX2 idx q u m = Some t \<and> P t \<and> countFrauds t = k" if "P u" "0 < m" for u m
    using expand [OF that] const by blast
  have u: "\<exists>u. (if isIVFAmbiguousFraudCount q k \<and> AmbiguousNProbe (IVF idx) > NProbe (IVF idx) then do {
          state \<leftarrow> expandIVFProbes useAVX2 idx q s (AmbiguousNProbe (IVF idx));
          state \<leftarrow> (if Repair (IVF idx) then repairIVF useAVX2 idx q state else Some state);
          Some (countFrauds state, state) }
        else if Repair (IVF idx) \<and> isIVFAmbiguousFraudCount q k then do {
          state \<leftarrow> repairIVF useAVX2 idx q s;
          Some (countFrauds state, state) }
        else Some (k, s)) = Some (k, u) \<and> P u"
    using exp [OF s(2), of "AmbiguousNProbe (IVF idx)"] rep s(2) pos by fastforce
  then obtain u where u: "(if isIVFAmbiguousFraudCount q k \<and> AmbiguousNProbe (IVF idx) > NProbe (IVF idx) then do {
          state \<leftarrow> expandIVFProbes useAVX2 idx q s (AmbiguousNProbe (IVF idx));
          state \<leftarrow> (if Repair (IVF idx) then repairIVF useAVX2 idx q state else Some state);
          Some (countFrauds state, state) }
        else if Repair (IVF idx) \<and> isIVFAmbiguousFraudCount q k then do {
          state \<leftarrow> repairIVF useAVX2 idx q s;
          Some (countFrauds state, state) }
        else Some (k, s)) = Some (k, u)" "P u" by blast
  obtain t where t: "expandIVFProbes useAVX2 idx q u (int maxIVFProbe) = Some t" "countFrauds t = k"
    using exp [OF u(2), of "int maxIVFProbe"] by (auto simp: maxIVFProbe_def)
  show ?thesis using s(1) u(1) t by (simp add: searchIVF_def Let_def)
qed

subsection \<open>The search always returns\<close>

lemma searchIVF_total:
  assumes "search_ok useAVX2 idx q" "0 < NProbe (IVF idx)"
  shows "\<exists>k \<le> 5. searchIVF useAVX2 idx q = Some k"
proof -
  let ?P = "\<lambda>s. \<exists>ds. found (exact_scans useAVX2 idx) ds s"
  have "\<exists>s k. searchIVF useAVX2 idx q = Some k \<and> ?P s \<and> (k = countFrauds s \<or>
    k = 3 \<and> Repair (IVF idx) \<and> countFrauds s < 3 \<and> needsApprovalRepair q \<and> needsKnownLateDenialRepair q)"
  proof (rule searchIVF_stages [OF _ _ _ assms(2)])
    show "\<exists>s. searchIVFProbes useAVX2 idx q (NProbe (IVF idx)) False = Some (countFrauds s, s) \<and> ?P s"
      using searchIVFProbes_found [OF assms] by blast
    show "\<exists>t. expandIVFProbes useAVX2 idx q s m = Some t \<and> ?P t" if "?P s" "0 < m" for s m
      using that expandIVFProbes_found [OF assms(1)] by blast
    show "\<exists>t. repairIVF useAVX2 idx q s = Some t \<and> ?P t" if "?P s" for s
      using that repairIVF_found [OF assms(1)] by blast
  qed
  then show ?thesis using countFrauds_le by fastforce
qed

subsection \<open>Every cluster probed\<close>

definition probes_all :: "QuantizedIndex \<Rightarrow> bool" where
  "probes_all idx \<longleftrightarrow> Clusters (IVF idx) \<le> NProbe (IVF idx) \<and> Clusters (IVF idx) \<le> int maxIVFProbe"

lemma probe_clusters_all:
  assumes "search_ok useAVX2 idx q" "Clusters (IVF idx) \<le> n" "Clusters (IVF idx) \<le> int maxIVFProbe"
  shows "set (map unat (probe_clusters idx q n)) = {0..<clusters_of idx}"
    "mset (map unat (probe_clusters idx q n)) = mset [0..<clusters_of idx]"
proof -
  have few: "clusters_of idx \<le> 8192" using assms(1) by (rule search_ok_few)
  have "clamp_nprobe idx n = clusters_of idx"
    using assms(2,3) by (simp add: clamp_nprobe_def Let_def)
  then show set: "set (map unat (probe_clusters idx q n)) = {0..<clusters_of idx}"
    using nearest_all [OF few order_refl, of q] by (simp add: probe_clusters_def nearest_def)
  show "mset (map unat (probe_clusters idx q n)) = mset [0..<clusters_of idx]"
    using distinct_nearest_nat [OF few, of q "clamp_nprobe idx n"] set
    by (intro set_eq_iff_mset_eq_distinct [THEN iffD1]) (simp_all add: probe_clusters_def nearest_def)
qed

lemma probe_clusters_in:
  assumes "search_ok useAVX2 idx q"
  shows "set (probe_clusters idx q n) \<subseteq> {c. unat c < clusters_of idx}"
  using probe_clusters_less [OF assms] by blast

text \<open>A state that has every row and has marked every cluster is left alone by every stage.\<close>

definition complete :: "bool \<Rightarrow> QuantizedIndex \<Rightarrow> i16 list \<Rightarrow> ivfSearchState \<Rightarrow> bool" where
  "complete useAVX2 idx q s \<longleftrightarrow> found (exact_scans useAVX2 idx) (all_cands idx q) s \<and>
     {c. unat c < clusters_of idx} \<subseteq> visited s"

lemma probe_complete:
  assumes "search_ok useAVX2 idx q" "distinct_ids idx" "probes_all idx" "0 < NProbe (IVF idx)"
  shows "\<exists>s. searchIVFProbes useAVX2 idx q (NProbe (IVF idx)) False = Some (countFrauds s, s) \<and>
    complete useAVX2 idx q s"
proof -
  let ?n = "NProbe (IVF idx)"
  note all = probe_clusters_all [OF assms(1) assms(3) [unfolded probes_all_def, THEN conjunct1]
    assms(3) [unfolded probes_all_def, THEN conjunct2]]
  obtain s where s: "searchIVFProbes useAVX2 idx q ?n False = Some (countFrauds s, s)"
    "visited s = set (probe_clusters idx q ?n)" "found (exact_scans useAVX2 idx) (probed_cands idx q ?n) s"
    using searchIVFProbes_found [OF assms(1,4)] by blast
  have "found (exact_scans useAVX2 idx) (all_cands idx q) s"
    using assms(1) top5_all [OF _ assms(2) all(2), of q] by (intro found_top5 [OF s(3)]) (simp_all add: search_ok_def)
  moreover have "c \<in> visited s" if "unat c < clusters_of idx" for c
  proof -
    have "unat c \<in> unat ` visited s" using all(1) that s(2) by auto
    then obtain d where "d \<in> visited s" "unat c = unat d" by blast
    moreover from this(2) have "c = d" by (rule unsigned_word_eqI)
    ultimately show ?thesis by simp
  qed
  ultimately show ?thesis using s(1) by (auto simp: complete_def)
qed

lemma expand_complete:
  assumes "search_ok useAVX2 idx q" "complete useAVX2 idx q s" "0 < m"
  shows "\<exists>t. expandIVFProbes useAVX2 idx q s m = Some t \<and> complete useAVX2 idx q t"
proof -
  have "filter (\<lambda>c. c \<notin> visited s) (probe_clusters idx q m) = []"
    using probe_clusters_in [OF assms(1), of m] assms(2) by (auto simp: complete_def filter_empty_conv)
  then show ?thesis
    using expandIVFProbes_found [OF assms(1,3)] assms(2) by (fastforce simp: complete_def scan_cands_def)
qed

lemma repair_keeps_complete:
  assumes "search_ok useAVX2 idx q" "complete useAVX2 idx q s"
  shows "\<exists>t. repairIVF useAVX2 idx q s = Some t \<and> complete useAVX2 idx q t"
proof -
  have few: "clusters_of idx \<le> 8192" using assms(1) by (rule search_ok_few)
  have "of_nat c \<in> visited s" if "c < clusters_of idx" for c
    using that assms(2) unat_of_nat_cluster [OF that few] unfolding complete_def by fastforce
  then have "filter (\<lambda>c. of_nat c \<notin> visited s \<and> box_dist idx q c \<le> bestDist s ! 4) [0..<clusters_of idx] = []"
    by (auto simp: filter_empty_conv)
  then show ?thesis
    using repairIVF_found [OF assms(1), of "all_cands idx q" s] assms(2)
    by (auto simp: complete_def scan_cands_def split: if_splits)
qed

lemma searchIVF_all_probed:
  assumes "search_ok useAVX2 idx q" "exact_scans useAVX2 idx" "distinct_ids idx" "probes_all idx"
    and "0 < NProbe (IVF idx)"
  defines "k \<equiv> frauds_of (all_cands idx q)"
  shows "searchIVF useAVX2 idx q = Some
    (if Repair (IVF idx) \<and> k < 3 \<and> needsApprovalRepair q \<and> needsKnownLateDenialRepair q then 3 else k)"
proof (rule searchIVF_constant [where P = "complete useAVX2 idx q"])
  show "complete useAVX2 idx q s \<Longrightarrow> countFrauds s = k" for s
    using assms(2) by (simp add: complete_def k_def countFrauds_exact)
qed (use assms probe_complete expand_complete repair_keeps_complete in auto)

subsection \<open>No repair: the best of the probed clusters\<close>

lemma searchIVF_no_repair:
  assumes "search_ok useAVX2 idx q" "exact_scans useAVX2 idx" "0 < NProbe (IVF idx)" "\<not> Repair (IVF idx)"
  defines "k \<equiv> frauds_of (probed_cands idx q (NProbe (IVF idx)))"
  shows "searchIVF useAVX2 idx q = Some
    (if isIVFAmbiguousFraudCount q k \<and> AmbiguousNProbe (IVF idx) > NProbe (IVF idx)
     then frauds_of (probed_cands idx q (AmbiguousNProbe (IVF idx))) else k)"
proof -
  obtain s where s: "searchIVFProbes useAVX2 idx q (NProbe (IVF idx)) False = Some (k, s)"
    "visited s = set (probe_clusters idx q (NProbe (IVF idx)))"
    "found (exact_scans useAVX2 idx) (probed_cands idx q (NProbe (IVF idx))) s"
    using searchIVFProbes_found [OF assms(1,3)] assms(2) countFrauds_exact unfolding k_def by fastforce
  have "\<exists>t. expandIVFProbes useAVX2 idx q s (AmbiguousNProbe (IVF idx)) = Some t \<and>
      countFrauds t = frauds_of (probed_cands idx q (AmbiguousNProbe (IVF idx)))"
    if "NProbe (IVF idx) < AmbiguousNProbe (IVF idx)"
    using expand_probed [OF assms(1,3) less_imp_le [OF that] s(2,3)] assms(2) countFrauds_exact by fastforce
  with s(1) assms(4) show ?thesis by (auto simp: searchIVF_def)
qed

subsection \<open>A repaired search is exact\<close>

lemma repair_probed:
  assumes "search_ok useAVX2 idx q" "boxes_ok idx" "distinct_ids idx"
    and "visited u = set (probe_clusters idx q p)" "found (exact_scans useAVX2 idx) (probed_cands idx q p) u"
    and "5 \<le> length (probed_cands idx q p)"
  shows "\<exists>t. repairIVF useAVX2 idx q u = Some t \<and> found (exact_scans useAVX2 idx) (all_cands idx q) t"
proof (rule repair_complete [OF assms(1-3,5) _ _ _ assms(6)])
  show "distinct (map unat (probe_clusters idx q p))"
    using distinct_nearest_nat [OF search_ok_few [OF assms(1)], of q] by (simp add: probe_clusters_def nearest_def)
  show "set (map unat (probe_clusters idx q p)) \<subseteq> {0..<clusters_of idx}"
    using probe_clusters_in [OF assms(1), of p] by auto
  show "visited u = of_nat ` set (map unat (probe_clusters idx q p))"
    by (simp add: assms(4) image_image)
qed

lemma searchIVFProbes_repaired:
  assumes "search_ok useAVX2 idx q" "boxes_ok idx" "distinct_ids idx" "0 < nprobe"
    and "5 \<le> length (probed_cands idx q nprobe)"
  shows "\<exists>t. searchIVFProbes useAVX2 idx q nprobe True = Some (countFrauds t, t) \<and>
    found (exact_scans useAVX2 idx) (all_cands idx q) t"
proof -
  obtain s where s: "searchIVFProbes useAVX2 idx q nprobe False = Some (countFrauds s, s)"
    "visited s = set (probe_clusters idx q nprobe)" "found (exact_scans useAVX2 idx) (probed_cands idx q nprobe) s"
    using searchIVFProbes_found [OF assms(1,4)] by blast
  from repair_probed [OF assms(1-3) s(2,3) assms(5)] obtain t
    where "repairIVF useAVX2 idx q s = Some t" "found (exact_scans useAVX2 idx) (all_cands idx q) t" by blast
  moreover from this(1) s(1) have "searchIVFProbes useAVX2 idx q nprobe True = Some (countFrauds t, t)"
    by (auto simp: searchIVFProbes_def split: bind_splits prod.splits)
  ultimately show ?thesis by blast
qed

lemma searchIVF_repaired:
  assumes "search_ok useAVX2 idx q" "exact_scans useAVX2 idx" "boxes_ok idx" "distinct_ids idx"
    and "0 < NProbe (IVF idx)" "Repair (IVF idx)"
    and amb: "isIVFAmbiguousFraudCount q (frauds_of (probed_cands idx q (NProbe (IVF idx))))"
    and five: "5 \<le> length (probed_cands idx q (NProbe (IVF idx)))"
  defines "k \<equiv> frauds_of (all_cands idx q)"
  assumes "\<not> (k < 3 \<and> needsApprovalRepair q)" "\<not> (3 \<le> k \<and> needsDenialRepair q)"
  shows "searchIVF useAVX2 idx q = Some k"
proof -
  let ?n = "NProbe (IVF idx)" and ?m = "AmbiguousNProbe (IVF idx)"
  obtain s where s: "searchIVFProbes useAVX2 idx q ?n False = Some (frauds_of (probed_cands idx q ?n), s)"
    "visited s = set (probe_clusters idx q ?n)" "found (exact_scans useAVX2 idx) (probed_cands idx q ?n) s"
    using searchIVFProbes_found [OF assms(1,5)] assms(2) countFrauds_exact by fastforce
  have rep: "\<exists>t. repairIVF useAVX2 idx q u = Some t \<and> countFrauds t = k"
    if "visited u = set (probe_clusters idx q p)" "found (exact_scans useAVX2 idx) (probed_cands idx q p) u"
      "5 \<le> length (probed_cands idx q p)" for u p
    using repair_probed [OF assms(1,3,4) that] assms(2) countFrauds_exact unfolding k_def by fastforce
  show ?thesis
  proof (cases "?n < ?m")
    case True
    obtain t where t: "expandIVFProbes useAVX2 idx q s ?m = Some t"
      "visited t = set (probe_clusters idx q ?m)" "found (exact_scans useAVX2 idx) (probed_cands idx q ?m) t"
      using expand_probed [OF assms(1,5) less_imp_le [OF True] s(2,3)] by blast
    have "probe_clusters idx q ?n = take (clamp_nprobe idx ?n) (probe_clusters idx q ?m)"
      using nearest_prefix [OF clamp_mono [OF less_imp_le [OF True]]] by (simp add: probe_clusters_def)
    then have "probed_cands idx q ?m = probed_cands idx q ?n @
        scan_cands idx q (map unat (drop (clamp_nprobe idx ?n) (probe_clusters idx q ?m)))"
      by (simp flip: scan_cands_append map_append)
    then have "5 \<le> length (probed_cands idx q ?m)" using five by simp
    from rep [OF t(2,3) this] t(1) s(1) True amb assms(6,10,11) show ?thesis
      by (auto simp: searchIVF_def k_def)
  next
    case False
    from rep [OF s(2,3) five] s(1) False amb assms(6,10,11) show ?thesis
      by (auto simp: searchIVF_def k_def)
  qed
qed

text \<open>With fewer than five rows found there is no cutoff, and a repair leaves the state as it is.\<close>

lemma repair_few:
  assumes "search_ok useAVX2 idx q" "found (exact_scans useAVX2 idx) cs s" "length cs < 5"
  shows "repairIVF useAVX2 idx q s = Some s"
proof -
  have "bestDist s ! 4 = cdist (last (top5 cs))"
    using found_dists [OF assms(2), of 4] by (simp add: last_top5)
  then have "bestDist s ! 4 = maxInt64Value"
    using last_top5_full [of cs] assms(2,3) by (auto simp: found_def)
  then show ?thesis by (simp add: repairIVF_def)
qed

subsection \<open>The answer of any search\<close>

text \<open>The probes that decide the first count: those of the configuration, or the wider ones when the first count is
  ambiguous; the rows that are then known, which are all when an ambiguous count is repaired; the rows that the
  hand-tuned rules look at besides, those of the unmarked clusters among the 128 nearest (a row that the repair has
  seen is counted again); and the answer.\<close>

definition first_ambiguous :: "QuantizedIndex \<Rightarrow> i16 list \<Rightarrow> bool" where
  "first_ambiguous idx q \<longleftrightarrow> isIVFAmbiguousFraudCount q (frauds_of (probed_cands idx q (NProbe (IVF idx))))"

definition deciding_probes :: "QuantizedIndex \<Rightarrow> i16 list \<Rightarrow> int" where
  "deciding_probes idx q =
     (if first_ambiguous idx q then max (NProbe (IVF idx)) (AmbiguousNProbe (IVF idx)) else NProbe (IVF idx))"

definition known_rows :: "QuantizedIndex \<Rightarrow> i16 list \<Rightarrow> cand list" where
  "known_rows idx q =
     (let rows = probed_cands idx q (deciding_probes idx q)
      in if first_ambiguous idx q \<and> Repair (IVF idx) \<and> 5 \<le> length rows then all_cands idx q else rows)"

definition more_rows :: "QuantizedIndex \<Rightarrow> i16 list \<Rightarrow> cand list" where
  "more_rows idx q = scan_cands idx q (map unat
     (filter (\<lambda>c. c \<notin> set (probe_clusters idx q (deciding_probes idx q))) (probe_clusters idx q (int maxIVFProbe))))"

definition search_answer :: "QuantizedIndex \<Rightarrow> i16 list \<Rightarrow> nat" where
  "search_answer idx q =
     (let k = frauds_of (known_rows idx q); wide = frauds_of (known_rows idx q @ more_rows idx q)
      in if Repair (IVF idx) \<and> k < 3 \<and> needsApprovalRepair q
         then (if wide < 3 \<and> needsKnownLateDenialRepair q then 3 else wide)
         else if Repair (IVF idx) \<and> 3 \<le> k \<and> needsDenialRepair q then wide else k)"

lemma repair_known:
  assumes "search_ok useAVX2 idx q" "boxes_ok idx" "distinct_ids idx"
    and "visited u = set (probe_clusters idx q p)" "found (exact_scans useAVX2 idx) (probed_cands idx q p) u"
  shows "\<exists>t. repairIVF useAVX2 idx q u = Some t \<and> visited t = visited u \<and> found (exact_scans useAVX2 idx)
    (if 5 \<le> length (probed_cands idx q p) then all_cands idx q else probed_cands idx q p) t"
proof (cases "5 \<le> length (probed_cands idx q p)")
  case True
  from repair_probed [OF assms True] repairIVF_found [OF assms(1,5)] True show ?thesis by auto
next
  case False
  then show ?thesis using repair_few [OF assms(1,5)] assms(5) by simp
qed

text \<open>The state before the rules.\<close>

lemma known_state:
  assumes "search_ok useAVX2 idx q" "boxes_ok idx" "distinct_ids idx" "0 < NProbe (IVF idx)"
    and "searchIVFProbes useAVX2 idx q (NProbe (IVF idx)) False = Some (countFrauds s, s)"
    and "visited s = set (probe_clusters idx q (NProbe (IVF idx)))"
    and "found (exact_scans useAVX2 idx) (probed_cands idx q (NProbe (IVF idx))) s"
    and "countFrauds s = frauds_of (probed_cands idx q (NProbe (IVF idx)))"
  shows "\<exists>t. (if isIVFAmbiguousFraudCount q (countFrauds s) \<and> AmbiguousNProbe (IVF idx) > NProbe (IVF idx) then do {
          state \<leftarrow> expandIVFProbes useAVX2 idx q s (AmbiguousNProbe (IVF idx));
          state \<leftarrow> (if Repair (IVF idx) then repairIVF useAVX2 idx q state else Some state);
          Some (countFrauds state, state) }
        else if Repair (IVF idx) \<and> isIVFAmbiguousFraudCount q (countFrauds s) then do {
          state \<leftarrow> repairIVF useAVX2 idx q s;
          Some (countFrauds state, state) }
        else Some (countFrauds s, s)) = Some (countFrauds t, t) \<and>
    visited t = set (probe_clusters idx q (deciding_probes idx q)) \<and> found (exact_scans useAVX2 idx) (known_rows idx q) t"
proof -
  let ?n = "NProbe (IVF idx)" and ?m = "AmbiguousNProbe (IVF idx)"
  have amb: "isIVFAmbiguousFraudCount q (countFrauds s) \<longleftrightarrow> first_ambiguous idx q" by (simp add: first_ambiguous_def assms(8))
  show ?thesis
  proof (cases "first_ambiguous idx q \<and> ?n < ?m")
    case True
    then have d: "deciding_probes idx q = ?m" by (simp add: deciding_probes_def)
    have le: "?n \<le> ?m" using True by simp
    obtain u where u: "expandIVFProbes useAVX2 idx q s ?m = Some u" "visited u = set (probe_clusters idx q ?m)"
      "found (exact_scans useAVX2 idx) (probed_cands idx q ?m) u"
      using expand_probed [OF assms(1,4) le assms(6,7)] by blast
    from repair_known [OF assms(1-3) u(2,3)] obtain t where t: "repairIVF useAVX2 idx q u = Some t" "visited t = visited u"
      "found (exact_scans useAVX2 idx) (if 5 \<le> length (probed_cands idx q ?m) then all_cands idx q else probed_cands idx q ?m) t"
      by blast
    show ?thesis using True u t by (cases "Repair (IVF idx)") (simp_all add: amb d known_rows_def Let_def)
  next
    case False
    then have d: "deciding_probes idx q = ?n" by (auto simp: deciding_probes_def)
    from repair_known [OF assms(1-3) assms(6,7)] obtain t where t: "repairIVF useAVX2 idx q s = Some t" "visited t = visited s"
      "found (exact_scans useAVX2 idx) (if 5 \<le> length (probed_cands idx q ?n) then all_cands idx q else probed_cands idx q ?n) t"
      by blast
    show ?thesis
    proof (cases "Repair (IVF idx) \<and> first_ambiguous idx q")
      case True
      with False t assms(6) show ?thesis by (simp add: amb d known_rows_def Let_def)
    next
      case no_repair: False
      with False assms(6,7) show ?thesis by (auto simp: amb d known_rows_def Let_def)
    qed
  qed
qed

lemma searchIVF_answer:
  assumes "search_ok useAVX2 idx q" "exact_scans useAVX2 idx" "boxes_ok idx" "distinct_ids idx" "0 < NProbe (IVF idx)"
  shows "searchIVF useAVX2 idx q = Some (search_answer idx q)"
proof -
  obtain s where s: "searchIVFProbes useAVX2 idx q (NProbe (IVF idx)) False = Some (countFrauds s, s)"
    "visited s = set (probe_clusters idx q (NProbe (IVF idx)))"
    "found (exact_scans useAVX2 idx) (probed_cands idx q (NProbe (IVF idx))) s"
    using searchIVFProbes_found [OF assms(1,5)] by blast
  have c: "countFrauds s = frauds_of (probed_cands idx q (NProbe (IVF idx)))"
    using s(3) assms(2) by (simp add: countFrauds_exact)
  obtain t where t: "(if isIVFAmbiguousFraudCount q (countFrauds s) \<and> AmbiguousNProbe (IVF idx) > NProbe (IVF idx) then do {
          state \<leftarrow> expandIVFProbes useAVX2 idx q s (AmbiguousNProbe (IVF idx));
          state \<leftarrow> (if Repair (IVF idx) then repairIVF useAVX2 idx q state else Some state);
          Some (countFrauds state, state) }
        else if Repair (IVF idx) \<and> isIVFAmbiguousFraudCount q (countFrauds s) then do {
          state \<leftarrow> repairIVF useAVX2 idx q s;
          Some (countFrauds state, state) }
        else Some (countFrauds s, s)) = Some (countFrauds t, t)"
    "visited t = set (probe_clusters idx q (deciding_probes idx q))" "found (exact_scans useAVX2 idx) (known_rows idx q) t"
    using known_state [OF assms(1,3-5) s c] by blast
  have k: "countFrauds t = frauds_of (known_rows idx q)" using t(3) assms(2) by (simp add: countFrauds_exact)
  obtain u where u: "expandIVFProbes useAVX2 idx q t (int maxIVFProbe) = Some u"
    "found (exact_scans useAVX2 idx) (known_rows idx q @ more_rows idx q) u"
    using expandIVFProbes_found [OF assms(1) _ t(3), of "int maxIVFProbe"] unfolding more_rows_def t(2)
    by (auto simp: maxIVFProbe_def)
  have w: "countFrauds u = frauds_of (known_rows idx q @ more_rows idx q)" using u(2) assms(2) by (simp add: countFrauds_exact)
  show ?thesis
    unfolding searchIVF_def by (simp add: s(1) t(1) u(1) k w search_answer_def Let_def)
qed

text \<open>With every cluster probed this is the count over the whole index, but for the late denial.\<close>

lemma search_answer_all_probed:
  assumes "search_ok True idx q" "exact_scans True idx" "boxes_ok idx" "distinct_ids idx" "probes_all idx" "0 < NProbe (IVF idx)"
  shows "search_answer idx q = (let k = frauds_of (all_cands idx q)
    in if Repair (IVF idx) \<and> k < 3 \<and> needsApprovalRepair q \<and> needsKnownLateDenialRepair q then 3 else k)"
  using searchIVF_answer [OF assms(1-4,6)] searchIVF_all_probed [OF assms(1,2,4-6)] by (simp add: Let_def)

text \<open>And so it is for an ambiguous count that was repaired, unless a hand-tuned rule applies.\<close>

definition repaired_exactly :: "QuantizedIndex \<Rightarrow> i16 list \<Rightarrow> bool" where
  "repaired_exactly idx q \<longleftrightarrow> Repair (IVF idx) \<and> first_ambiguous idx q \<and>
     5 \<le> length (probed_cands idx q (deciding_probes idx q)) \<and> \<not> needsApprovalRepair q \<and> \<not> needsDenialRepair q"

lemma search_answer_repaired:
  "repaired_exactly idx q \<Longrightarrow> search_answer idx q = frauds_of (all_cands idx q)"
  by (simp add: repaired_exactly_def search_answer_def known_rows_def Let_def)

end
