(* ===== verification/Go_Float.thy ===== *)
theory Go_Float
  imports Prelude Complex_Main
begin

text \<open>
  Go's \<open>float32\<close> and \<open>float64\<close>: IEEE 754 binary formats, round to nearest, ties to even. A finite
  value is the rational it stands for; the two zeros are not told apart, because the program never
  divides by a zero nor prints one. \<open>ftoi16\<close> is the amd64 conversion: through a 32-bit integer whose low
  half is kept, out of range (and NaN) the pattern \<open>0x80000000\<close>.
\<close>

subsection \<open>Rounding\<close>

datatype flt = Fin rat | Inf bool | NaN

record fformat =
  precision :: nat
  min_ulp :: int
  max_finite :: rat

definition pow2 :: "int \<Rightarrow> rat" where
  "pow2 k = (if 0 \<le> k then 2 ^ nat k else 1 / 2 ^ nat (- k))"

definition binary64 :: fformat where
  "binary64 = \<lparr>precision = 53, min_ulp = - 1074, max_finite = (2 ^ 53 - 1) * 2 ^ 971\<rparr>"

definition binary32 :: fformat where
  "binary32 = \<lparr>precision = 24, min_ulp = - 149, max_finite = (2 ^ 24 - 1) * 2 ^ 104\<rparr>"

definition round_half_even :: "rat \<Rightarrow> int" where
  "round_half_even x =
     (let f = \<lfloor>x\<rfloor>; r = x - of_int f
      in if r < 1 / 2 \<or> (r = 1 / 2 \<and> even f) then f else f + 1)"

text \<open>The exponent of the leading bit of a positive integer.\<close>

fun log2_int :: "int \<Rightarrow> int" where
  "log2_int n = (if n \<le> 1 then 0 else 1 + log2_int (n div 2))"

declare log2_int.simps [simp del]

definition ilog2 :: "rat \<Rightarrow> int" where
  "ilog2 x = (case quotient_of x of (a, b) \<Rightarrow>
     let e = log2_int a - log2_int b in if pow2 e \<le> x then e else e - 1)"

definition ulp_exp :: "fformat \<Rightarrow> rat \<Rightarrow> int" where
  "ulp_exp fmt x = max (ilog2 \<bar>x\<bar> - int (precision fmt - 1)) (min_ulp fmt)"

definition rnd :: "fformat \<Rightarrow> rat \<Rightarrow> flt" where
  "rnd fmt x =
     (if x = 0 then Fin 0
      else
        let k = ulp_exp fmt x;
            y = of_int (round_half_even (x / pow2 k)) * pow2 k
        in if \<bar>y\<bar> > max_finite fmt then Inf (0 < x) else Fin y)"

subsection \<open>Arithmetic and comparison\<close>

fun fneg :: "flt \<Rightarrow> flt" where
  "fneg (Fin a) = Fin (- a)"
| "fneg (Inf s) = Inf (\<not> s)"
| "fneg NaN = NaN"

fun fadd :: "fformat \<Rightarrow> flt \<Rightarrow> flt \<Rightarrow> flt" where
  "fadd fmt (Fin a) (Fin b) = rnd fmt (a + b)"
| "fadd fmt (Inf s) (Inf t) = (if s = t then Inf s else NaN)"
| "fadd fmt (Inf s) (Fin b) = Inf s"
| "fadd fmt (Fin a) (Inf t) = Inf t"
| "fadd fmt _ _ = NaN"

definition fsub :: "fformat \<Rightarrow> flt \<Rightarrow> flt \<Rightarrow> flt" where
  "fsub fmt a b = fadd fmt a (fneg b)"

fun fmul :: "fformat \<Rightarrow> flt \<Rightarrow> flt \<Rightarrow> flt" where
  "fmul fmt (Fin a) (Fin b) = rnd fmt (a * b)"
| "fmul fmt (Inf s) (Inf t) = Inf (s = t)"
| "fmul fmt (Inf s) (Fin b) = (if b = 0 then NaN else Inf (s = (0 < b)))"
| "fmul fmt (Fin a) (Inf t) = (if a = 0 then NaN else Inf (t = (0 < a)))"
| "fmul fmt _ _ = NaN"

fun fdiv :: "fformat \<Rightarrow> flt \<Rightarrow> flt \<Rightarrow> flt" where
  "fdiv fmt (Fin a) (Fin b) = (if b = 0 then (if a = 0 then NaN else Inf (0 < a)) else rnd fmt (a / b))"
| "fdiv fmt (Inf s) (Inf t) = NaN"
| "fdiv fmt (Inf s) (Fin b) = Inf (s = (0 \<le> b))"
| "fdiv fmt (Fin a) (Inf t) = Fin 0"
| "fdiv fmt _ _ = NaN"

fun fless :: "flt \<Rightarrow> flt \<Rightarrow> bool" where
  "fless (Fin a) (Fin b) \<longleftrightarrow> a < b"
| "fless (Inf s) (Inf t) \<longleftrightarrow> \<not> s \<and> t"
| "fless (Inf s) (Fin b) \<longleftrightarrow> \<not> s"
| "fless (Fin a) (Inf t) \<longleftrightarrow> t"
| "fless _ _ \<longleftrightarrow> False"

fun fleq :: "flt \<Rightarrow> flt \<Rightarrow> bool" where
  "fleq (Fin a) (Fin b) \<longleftrightarrow> a \<le> b"
| "fleq (Inf s) (Inf t) \<longleftrightarrow> \<not> s \<or> t"
| "fleq (Inf s) (Fin b) \<longleftrightarrow> \<not> s"
| "fleq (Fin a) (Inf t) \<longleftrightarrow> t"
| "fleq _ _ \<longleftrightarrow> False"

definition fconv :: "fformat \<Rightarrow> flt \<Rightarrow> flt" where
  "fconv fmt x = (case x of Fin a \<Rightarrow> rnd fmt a | _ \<Rightarrow> x)"

definition ffrom_int :: "fformat \<Rightarrow> int \<Rightarrow> flt" where
  "ffrom_int fmt n = rnd fmt (of_int n)"

definition trunc :: "rat \<Rightarrow> int" where
  "trunc x = (if 0 \<le> x then \<lfloor>x\<rfloor> else \<lceil>x\<rceil>)"

fun ftoi16 :: "flt \<Rightarrow> i16" where
  "ftoi16 (Fin x) =
     (let n = trunc x in if - 2147483648 \<le> n \<and> n \<le> 2147483647 then word_of_int n else 0)"
| "ftoi16 _ = 0"

subsection \<open>Facts about rounding\<close>

lemma pow2_pos [simp]: "0 < pow2 k"
  by (simp add: pow2_def)

lemma pow2_Suc: "pow2 (k + 1) = 2 * pow2 k"
proof (cases "0 \<le> k")
  case True
  then have "nat (k + 1) = Suc (nat k)" by simp
  with True show ?thesis by (simp add: pow2_def)
next
  case False
  then have "nat (- k) = Suc (nat (- (k + 1)))" by simp
  with False show ?thesis by (cases "k = - 1") (simp_all add: pow2_def)
qed

lemma pow2_add: "pow2 (j + k) = pow2 j * pow2 k"
proof (induction k rule: int_induct [where k = 0])
  case base
  then show ?case by (simp add: pow2_def)
next
  case (step1 i)
  then show ?case using pow2_Suc [of i] pow2_Suc [of "j + i"] by (simp add: add.assoc)
next
  case (step2 i)
  then show ?case using pow2_Suc [of "i - 1"] pow2_Suc [of "j + (i - 1)"] by simp
qed

lemma pow2_mono: "j \<le> k \<Longrightarrow> pow2 j \<le> pow2 k"
proof (induction k rule: int_ge_induct)
  case (step k)
  then show ?case using pow2_Suc [of k] pow2_pos [of k] by linarith
qed simp

lemma pow2_less_iff: "pow2 j < pow2 k \<longleftrightarrow> j < k"
proof
  show "pow2 j < pow2 k \<Longrightarrow> j < k" using pow2_mono [of k j] by force
  assume "j < k"
  then have "pow2 (j + 1) \<le> pow2 k" by (intro pow2_mono) simp
  then show "pow2 j < pow2 k" using pow2_Suc [of j] pow2_pos [of j] by linarith
qed

lemma log2_int_bounds: "1 \<le> n \<Longrightarrow> 0 \<le> log2_int n \<and> pow2 (log2_int n) \<le> of_int n \<and> of_int n < pow2 (log2_int n + 1)"
proof (induction n rule: log2_int.induct)
  case (1 n)
  show ?case
  proof (cases "n \<le> 1")
    case True
    with 1(2) show ?thesis by (simp add: log2_int.simps pow2_def)
  next
    case False
    let ?m = "n div 2"
    have ih: "0 \<le> log2_int ?m" "pow2 (log2_int ?m) \<le> of_int ?m" "of_int ?m < pow2 (log2_int ?m + 1)"
      using 1(1) [OF False] False by auto
    have n: "2 * ?m \<le> n" "n \<le> 2 * ?m + 1" by auto
    have lt: "of_int ?m + 1 \<le> pow2 (log2_int ?m + 1)"
    proof -
      have p: "pow2 (log2_int ?m + 1) = of_int (2 ^ nat (log2_int ?m + 1))" using ih(1) by (simp add: pow2_def)
      with ih(3) have "?m < 2 ^ nat (log2_int ?m + 1)" by (simp only: of_int_less_iff)
      then have "?m + 1 \<le> 2 ^ nat (log2_int ?m + 1)" by linarith
      then have "(of_int (?m + 1) :: rat) \<le> of_int (2 ^ nat (log2_int ?m + 1))" by (simp only: of_int_le_iff)
      then show ?thesis unfolding p by simp
    qed
    have log: "log2_int n = 1 + log2_int ?m" using False by (simp add: log2_int.simps [of n])
    have "pow2 (log2_int n) = 2 * pow2 (log2_int ?m)" using pow2_Suc [of "log2_int ?m"] log by (simp add: add.commute)
    moreover have "pow2 (log2_int n + 1) = 2 * pow2 (log2_int ?m + 1)"
      using pow2_Suc [of "log2_int ?m + 1"] log by (simp add: add.commute add.left_commute)
    moreover have "(of_int (2 * ?m) :: rat) \<le> of_int n" "(of_int n :: rat) \<le> of_int (2 * ?m + 1)"
      using n by (simp_all only: of_int_le_iff)
    ultimately show ?thesis using ih lt log by auto
  qed
qed

lemma ilog2_bounds:
  assumes "0 < x"
  shows "pow2 (ilog2 x) \<le> x" "x < pow2 (ilog2 x + 1)"
proof -
  obtain a b where q: "quotient_of x = (a, b)" by (cases "quotient_of x")
  have b: "0 < b" and x: "x = of_int a / of_int b"
    using quotient_of_denom_pos [OF q] quotient_of_div [OF q] by auto
  have a: "0 < a" using assms b x by (simp add: zero_less_divide_iff)
  let ?A = "log2_int a" and ?B = "log2_int b"
  have A: "pow2 ?A \<le> of_int a" "of_int a < pow2 (?A + 1)" and B: "pow2 ?B \<le> of_int b" "of_int b < pow2 (?B + 1)"
    using log2_int_bounds [of a] log2_int_bounds [of b] a b by auto
  have e: "pow2 (?A - ?B) * pow2 ?B = pow2 ?A" by (simp flip: pow2_add)
  have lo: "pow2 (?A - ?B - 1) \<le> x"
  proof -
    have "pow2 (?A - ?B - 1) * of_int b \<le> pow2 (?A - ?B - 1) * pow2 (?B + 1)"
      using B(2) by (intro mult_left_mono) (simp_all add: less_imp_le)
    also have "\<dots> = pow2 ?A" by (simp flip: pow2_add)
    finally show ?thesis using A(1) b by (simp add: x field_simps)
  qed
  have hi: "x < pow2 (?A - ?B + 1)"
  proof -
    have "pow2 (?A + 1) = pow2 (?A - ?B + 1) * pow2 ?B" by (simp flip: pow2_add)
    also have "\<dots> \<le> pow2 (?A - ?B + 1) * of_int b" using B(1) by (intro mult_left_mono) (simp_all add: less_imp_le)
    finally have "of_int a < pow2 (?A - ?B + 1) * of_int b" using A(2) by linarith
    then show ?thesis using b by (simp add: x field_simps)
  qed
  show "pow2 (ilog2 x) \<le> x" "x < pow2 (ilog2 x + 1)"
    using lo hi by (auto simp: ilog2_def q Let_def)
qed

lemma round_half_even_le: "x \<le> of_int n \<Longrightarrow> round_half_even x \<le> n"
  unfolding round_half_even_def Let_def by (auto simp: floor_le_iff)

lemma round_half_even_ge: "of_int n \<le> x \<Longrightarrow> n \<le> round_half_even x"
  using le_floor_iff [of n x] unfolding round_half_even_def Let_def by auto

lemma round_half_even_int [simp]: "round_half_even (of_int n) = n"
  by (simp add: round_half_even_def)

text \<open>The rounding error is at most half a unit in the last place.\<close>

lemma round_half_even_error: "\<bar>of_int (round_half_even x) - x\<bar> \<le> 1 / 2"
proof -
  define f :: rat where "f = of_int \<lfloor>x\<rfloor>"
  have "f \<le> x" "x < f + 1" unfolding f_def by linarith+
  then show ?thesis by (auto simp: round_half_even_def Let_def abs_if simp flip: f_def)
qed

lemma rnd_error:
  assumes "rnd fmt x = Fin y"
  shows "\<bar>y - x\<bar> \<le> pow2 (ulp_exp fmt x) / 2"
proof (cases "x = 0")
  case True
  with assms show ?thesis by (simp add: rnd_def less_imp_le)
next
  case False
  let ?u = "pow2 (ulp_exp fmt x)"
  have y: "y = of_int (round_half_even (x / ?u)) * ?u"
    using assms False by (simp add: rnd_def Let_def split: if_splits)
  have "y - x = (of_int (round_half_even (x / ?u)) - x / ?u) * ?u"
    unfolding y using less_imp_neq [OF pow2_pos [of "ulp_exp fmt x"]] by (simp add: left_diff_distrib)
  then have "\<bar>y - x\<bar> = \<bar>of_int (round_half_even (x / ?u)) - x / ?u\<bar> * ?u"
    by (simp add: abs_mult less_imp_le)
  also have "\<dots> \<le> 1 / 2 * ?u"
    by (intro mult_right_mono round_half_even_error) (simp add: less_imp_le)
  finally show ?thesis by simp
qed

text \<open>A multiple of the unit bounds what it bounds before the rounding.\<close>

lemma rnd_between:
  assumes "of_int a * pow2 j \<le> x" "x \<le> of_int b * pow2 j" "ulp_exp fmt x \<le> j"
    and "\<bar>of_int a * pow2 j\<bar> \<le> max_finite fmt" "\<bar>of_int b * pow2 j\<bar> \<le> max_finite fmt"
  shows "\<exists>y. rnd fmt x = Fin y \<and> of_int a * pow2 j \<le> y \<and> y \<le> of_int b * pow2 j"
proof (cases "x = 0")
  case True
  with assms(1,2) show ?thesis by (simp add: rnd_def)
next
  case False
  let ?k = "ulp_exp fmt x"
  let ?u = "pow2 ?k" and ?m = "2 ^ nat (j - ?k) :: int"
  have j: "pow2 j = of_int ?m * ?u"
    using pow2_add [of "j - ?k" ?k] assms(3) by (simp add: pow2_def [of "j - ?k"])
  have u: "0 < ?u" by simp
  let ?r = "round_half_even (x / ?u)"
  have "of_int (a * ?m) * ?u \<le> x" "x \<le> of_int (b * ?m) * ?u"
    using assms(1,2) j by (simp_all add: mult.assoc)
  then have "of_int (a * ?m) \<le> x / ?u" "x / ?u \<le> of_int (b * ?m)"
    using u by (simp_all only: pos_le_divide_eq pos_divide_le_eq)
  then have "a * ?m \<le> ?r" "?r \<le> b * ?m"
    by (auto intro: round_half_even_ge round_half_even_le simp del: of_int_mult)
  then have "of_int (a * ?m) * ?u \<le> of_int ?r * ?u" "of_int ?r * ?u \<le> of_int (b * ?m) * ?u"
    using u by (simp_all del: of_int_mult)
  then have y: "of_int a * pow2 j \<le> of_int ?r * ?u" "of_int ?r * ?u \<le> of_int b * pow2 j"
    unfolding j by (simp_all add: mult.assoc)
  then have "\<bar>of_int ?r * ?u\<bar> \<le> max_finite fmt" using assms(4,5) by linarith
  with False y show ?thesis by (simp add: rnd_def Let_def)
qed

lemma ulp_exp_le:
  assumes "\<bar>x\<bar> < pow2 e" "x \<noteq> 0" "e - int (precision fmt) \<le> j" "min_ulp fmt \<le> j" "0 < precision fmt"
  shows "ulp_exp fmt x \<le> j"
proof -
  have "pow2 (ilog2 \<bar>x\<bar>) < pow2 e" using ilog2_bounds(1) [of "\<bar>x\<bar>"] assms(1,2) by simp
  then have "ilog2 \<bar>x\<bar> < e" by (simp only: pow2_less_iff)
  then show ?thesis using assms(3-5) by (simp add: ulp_exp_def)
qed

text \<open>Rounding is monotone (nonnegative values are all that is needed).\<close>

lemma round_half_even_mono: "x \<le> y \<Longrightarrow> round_half_even x \<le> round_half_even y"
proof (cases "\<lfloor>x\<rfloor> = \<lfloor>y\<rfloor>")
  case True
  assume "x \<le> y"
  with True show ?thesis by (auto simp: round_half_even_def Let_def)
next
  case False
  assume "x \<le> y"
  with False have "\<lfloor>x\<rfloor> + 1 \<le> \<lfloor>y\<rfloor>" using floor_mono [of x y] by linarith
  moreover have "round_half_even x \<le> \<lfloor>x\<rfloor> + 1" "\<lfloor>y\<rfloor> \<le> round_half_even y"
    by (simp_all add: round_half_even_def Let_def)
  ultimately show ?thesis by linarith
qed

lemma ilog2_mono:
  assumes "0 < x" "x \<le> y"
  shows "ilog2 x \<le> ilog2 y"
proof -
  have "pow2 (ilog2 x) < pow2 (ilog2 y + 1)" using ilog2_bounds [of x] ilog2_bounds [of y] assms by linarith
  then show ?thesis by (simp add: pow2_less_iff)
qed

lemma rnd_power:
  assumes "rnd fmt x = Fin u" "x \<noteq> 0" "ulp_exp fmt x \<le> e"
  shows "x \<le> pow2 e \<Longrightarrow> u \<le> pow2 e" "pow2 e \<le> x \<Longrightarrow> pow2 e \<le> u"
proof -
  let ?k = "ulp_exp fmt x"
  let ?m = "2 ^ nat (e - ?k) :: int"
  have u: "u = of_int (round_half_even (x / pow2 ?k)) * pow2 ?k"
    using assms(1,2) by (simp add: rnd_def Let_def split: if_splits)
  have e: "pow2 e = of_int ?m * pow2 ?k"
    using pow2_add [of "e - ?k" ?k] assms(3) by (simp add: pow2_def [of "e - ?k"])
  { assume "x \<le> pow2 e"
    then have "x / pow2 ?k \<le> of_int ?m" unfolding e by (simp add: pos_divide_le_eq)
    then have "round_half_even (x / pow2 ?k) \<le> ?m" by (rule round_half_even_le)
    then have "(of_int (round_half_even (x / pow2 ?k)) :: rat) \<le> of_int ?m" by (simp only: of_int_le_iff)
    then show "u \<le> pow2 e" unfolding u e by (intro mult_right_mono) (simp_all add: less_imp_le) }
  { assume "pow2 e \<le> x"
    then have "of_int ?m \<le> x / pow2 ?k" unfolding e by (simp add: pos_le_divide_eq)
    then have "?m \<le> round_half_even (x / pow2 ?k)" by (rule round_half_even_ge)
    then have "(of_int ?m :: rat) \<le> of_int (round_half_even (x / pow2 ?k))" by (simp only: of_int_le_iff)
    then show "pow2 e \<le> u" unfolding u e by (intro mult_right_mono) (simp_all add: less_imp_le) }
qed

lemma rnd_mono:
  assumes "0 \<le> x" "x \<le> y" "rnd fmt x = Fin u" "rnd fmt y = Fin v" "0 < precision fmt"
  shows "u \<le> v"
proof (cases "x = 0")
  case True
  have "0 \<le> round_half_even (y / pow2 (ulp_exp fmt y))" using assms(1,2)
    by (intro round_half_even_ge) (simp add: less_imp_le)
  with assms(4) have "0 \<le> v" by (auto simp: rnd_def Let_def less_imp_le split: if_splits)
  with True assms(3) show ?thesis by (simp add: rnd_def)
next
  case False
  then have pos: "0 < x" "0 < y" using assms(1,2) by auto
  let ?j = "ulp_exp fmt x" and ?k = "ulp_exp fmt y"
  have log: "ilog2 x \<le> ilog2 y" using ilog2_mono pos(1) assms(2) .
  show ?thesis
  proof (cases "?j = ?k")
    case True
    have "x / pow2 ?k \<le> y / pow2 ?k" using assms(2) by (simp add: divide_right_mono less_imp_le)
    then have "(of_int (round_half_even (x / pow2 ?k)) :: rat) \<le> of_int (round_half_even (y / pow2 ?k))"
      unfolding of_int_le_iff by (rule round_half_even_mono)
    then have "of_int (round_half_even (x / pow2 ?k)) * pow2 ?k \<le> of_int (round_half_even (y / pow2 ?k)) * pow2 ?k"
      by (intro mult_right_mono) (simp_all add: less_imp_le)
    moreover have "u = of_int (round_half_even (x / pow2 ?j)) * pow2 ?j" "v = of_int (round_half_even (y / pow2 ?k)) * pow2 ?k"
      using assms(3,4) pos by (simp_all add: rnd_def Let_def split: if_splits)
    ultimately show ?thesis unfolding True by simp
  next
    case False
    with log pos have lt: "ilog2 x + 1 \<le> ilog2 y" "?j \<le> ?k" "?k = ilog2 y - int (precision fmt - 1)"
      by (auto simp: ulp_exp_def)
    then have "?k \<le> ilog2 y" "?j \<le> ilog2 y" by auto
    have "x \<le> pow2 (ilog2 y)" using ilog2_bounds(2) [OF pos(1)] pow2_mono [OF lt(1)] by linarith
    then have "u \<le> pow2 (ilog2 y)" using rnd_power(1) [OF assms(3)] pos \<open>?j \<le> ilog2 y\<close> by simp
    also have "\<dots> \<le> v" using rnd_power(2) [OF assms(4)] pos \<open>?k \<le> ilog2 y\<close> ilog2_bounds(1) [OF pos(2)] by simp
    finally show ?thesis .
  qed
qed

end
