(* ===== verification/Quantize.thy ===== *)
theory Quantize
  imports Go_Float Avx2_Kernels
begin

text \<open>
  Quantization of a feature vector: \<open>QuantizeVector\<close> (\<open>float32\<close>, \<open>quantized.go\<close>), \<open>quantizeFloat64\<close>
  and \<open>quantizeBool\<close> (\<open>vectorize_json.go\<close>). Every value, infinities and NaN included, lands in
  \<open>-10000..10000\<close>, so a quantized vector is a query for which the AVX2 kernels are exact, and a
  value between 0 and 1 is rounded to the nearest multiple of 1/10000, up to the error of
  the float product.
\<close>

definition quantize_value :: "fformat \<Rightarrow> flt \<Rightarrow> i16" where
  "quantize_value fmt value =
     (if fleq value (Fin (- 1)) then - QuantScale
      else
        let value = (if fless value (Fin 0) then Fin 0 else value);
            value = (if fless (Fin 1) value then Fin 1 else value)
        in ftoi16 (fadd fmt (fmul fmt value (ffrom_int fmt (sint QuantScale))) (Fin (1 / 2))))"

definition QuantizeVector :: "flt list \<Rightarrow> i16 list" where
  "QuantizeVector vector = map (quantize_value binary32) vector"

definition quantizeFloat64 :: "flt \<Rightarrow> i16" where
  "quantizeFloat64 value = quantize_value binary64 value"

definition quantizeBool :: "bool \<Rightarrow> i16" where
  "quantizeBool value = (if value then QuantScale else 0)"

text \<open>What the proofs need of a format; both formats have it.\<close>

definition fine :: "fformat \<Rightarrow> bool" where
  "fine fmt \<longleftrightarrow> 24 \<le> precision fmt \<and> min_ulp fmt \<le> - 10 \<and> 20000 \<le> max_finite fmt"

lemma sint_QuantScale [simp]: "sint QuantScale = 10000"
  by (simp add: QuantScale_def)

lemma fine_formats: "fine binary32" "fine binary64"
  by (simp_all add: fine_def binary32_def binary64_def)

lemma fine_ulp:
  assumes "fine fmt" "\<bar>x\<bar> < 16384" "x \<noteq> 0"
  shows "ulp_exp fmt x \<le> - 10"
  using assms by (intro ulp_exp_le [of x 14]) (auto simp: fine_def pow2_def)

lemma fine_rnd:
  assumes "fine fmt" "of_int a / 1024 \<le> x" "x \<le> of_int b / 1024" "0 \<le> a" "b \<le> 10240512"
  shows "\<exists>y. rnd fmt x = Fin y \<and> of_int a / 1024 \<le> y \<and> y \<le> of_int b / 1024 \<and> \<bar>y - x\<bar> \<le> 1 / 2048"
proof (cases "x = 0")
  case True
  with assms show ?thesis by (simp add: rnd_def)
next
  case False
  have p: "pow2 (- 10) = 1 / 1024" by (simp add: pow2_def)
  have "(of_int b :: rat) \<le> 10240512" using assms(5) by simp
  then have "\<bar>x\<bar> < 16384" using assms(2-4) by (auto simp: abs_if)
  then have u: "ulp_exp fmt x \<le> - 10" using fine_ulp [OF assms(1)] False by simp
  have "a \<le> b"
  proof -
    have "(of_int a :: rat) \<le> of_int b" using assms(2,3) by linarith
    then show ?thesis by simp
  qed
  moreover have "20000 \<le> max_finite fmt" using assms(1) by (simp add: fine_def)
  ultimately have "\<bar>of_int a * pow2 (- 10)\<bar> \<le> max_finite fmt" "\<bar>of_int b * pow2 (- 10)\<bar> \<le> max_finite fmt"
    using assms(4,5) \<open>of_int b \<le> (10240512 :: rat)\<close> by (auto simp: p abs_if)
  with rnd_between [of a "- 10" x b fmt] assms(2,3) u obtain y
    where y: "rnd fmt x = Fin y" "of_int a / 1024 \<le> y" "y \<le> of_int b / 1024" by (auto simp: p)
  have "\<bar>y - x\<bar> \<le> pow2 (ulp_exp fmt x) / 2" by (rule rnd_error [OF y(1)])
  also have "\<dots> \<le> pow2 (- 10) / 2" using pow2_mono [OF u] by simp
  finally show ?thesis using y by (simp add: p)
qed

lemma fine_scale: "fine fmt \<Longrightarrow> ffrom_int fmt (sint QuantScale) = Fin 10000"
  using fine_rnd [of fmt 10240000 10000 10240000] by (auto simp: ffrom_int_def)

lemma ftoi16_small:
  assumes "0 \<le> x" "x < 32768"
  shows "sint (ftoi16 (Fin x)) = \<lfloor>x\<rfloor>"
proof -
  have f: "0 \<le> \<lfloor>x\<rfloor>" "\<lfloor>x\<rfloor> < 32768" using assms by (simp_all add: floor_less_iff)
  then have "ftoi16 (Fin x) = word_of_int \<lfloor>x\<rfloor>" using assms by (simp add: trunc_def Let_def)
  moreover have "signed_take_bit 15 \<lfloor>x\<rfloor> = \<lfloor>x\<rfloor>"
    using f by (intro signed_take_bit_int_eq_self) auto
  ultimately show ?thesis by (simp add: signed_of_int)
qed

text \<open>A value of the unit interval.\<close>

lemma quantize_unit:
  assumes "fine fmt" "0 \<le> a" "a \<le> 1"
  defines "n \<equiv> sint (ftoi16 (fadd fmt (fmul fmt (Fin a) (ffrom_int fmt (sint QuantScale))) (Fin (1 / 2))))"
  shows "0 \<le> n" "n \<le> 10000" "\<bar>of_int n - 10000 * a\<bar> \<le> 1 / 2 + 1 / 1024"
proof -
  note scale = fine_scale [OF assms(1)]
  obtain y where y: "rnd fmt (a * 10000) = Fin y" "0 \<le> y" "y \<le> 10000" "\<bar>y - a * 10000\<bar> \<le> 1 / 2048"
    using fine_rnd [OF assms(1), of 0 "a * 10000" 10240000] assms(2,3) by auto
  obtain w where w: "rnd fmt (y + 1 / 2) = Fin w" "1 / 2 \<le> w" "w \<le> 10000 + 1 / 2" "\<bar>w - (y + 1 / 2)\<bar> \<le> 1 / 2048"
    using fine_rnd [OF assms(1), of 512 "y + 1 / 2" 10240512] y(2,3) by auto
  have n: "n = \<lfloor>w\<rfloor>"
    unfolding n_def scale using y(1) w ftoi16_small [of w] by simp
  show "0 \<le> n" using w(2) n by simp
  have "w < 10001" using w(3) by linarith
  then show "n \<le> 10000" using n by (simp add: floor_le_iff)
  have "of_int n \<le> w" "w < of_int n + 1" unfolding n by linarith+
  then show "\<bar>of_int n - 10000 * a\<bar> \<le> 1 / 2 + 1 / 1024"
    using y(4) w(4) unfolding abs_le_iff by linarith
qed

lemma quantize_value_range:
  assumes "fine fmt"
  shows "- 10000 \<le> sint (quantize_value fmt v) \<and> sint (quantize_value fmt v) \<le> 10000"
proof -
  have neg: "sint (- QuantScale) = - 10000" by (simp add: QuantScale_def)
  note unit = quantize_unit [OF assms]
  note scale = fine_scale [OF assms]
  show ?thesis
  proof (cases v)
    case (Fin a)
    then show ?thesis
      using unit [of 0] unit [of 1] unit [of a] neg
      by (auto simp: quantize_value_def Let_def simp del: fmul.simps sint_QuantScale)
  next
    case (Inf s)
    then show ?thesis
      using unit [of 1] neg by (cases s) (auto simp: quantize_value_def Let_def simp del: fmul.simps sint_QuantScale)
  next
    case NaN
    then show ?thesis using scale by (simp add: quantize_value_def)
  qed
qed

lemma quantize_value_nearest:
  assumes "fine fmt" "0 \<le> a" "a \<le> 1"
  shows "\<bar>of_int (sint (quantize_value fmt (Fin a))) - 10000 * a\<bar> \<le> 1 / 2 + 1 / 1024"
  using quantize_unit(3) [OF assms] assms(2,3)
  by (simp add: quantize_value_def Let_def del: fmul.simps sint_QuantScale)

lemma QuantizeVector_query:
  "length v = Dimensions \<Longrightarrow> quantized_query (QuantizeVector v)"
  using quantize_value_range [OF fine_formats(1)] by (auto simp: quantized_query_def QuantizeVector_def)

end
