(* ===== verification/Calendar.thy ===== *)
theory Calendar
  imports Prelude
begin

text \<open>
  Timestamps (\<open>parse2\<close> to \<open>divFloor\<close> in \<open>vectorize_json.go\<close>). A timestamp is its bytes; slicing one of
  at least 16 bytes never panics. Byte differences wrap at 8 bits, and everything after that is far
  from the bounds of 64-bit integers, so the integers are \<^typ>\<open>int\<close>. \<open>daysFromCivil_step\<close> relates
  \<open>daysFromCivil\<close> to the Gregorian calendar: the next day has the next number.
\<close>

subsection \<open>The code\<close>

text \<open>Go's \<open>/\<close> and \<open>%\<close> truncate toward zero.\<close>

definition rem64 :: "int \<Rightarrow> int \<Rightarrow> int" where
  "rem64 a b = sub64 a (mul64 (quot64 a b) b)"

definition digit :: "u8 \<Rightarrow> int" where
  "digit b = int (unat (b - 48))"

definition parse2 :: "u8 list \<Rightarrow> int" where
  "parse2 data = digit (data ! 0) * 10 + digit (data ! 1)"

definition parse4 :: "u8 list \<Rightarrow> int" where
  "parse4 data = parse2 (take 2 data) * 100 + parse2 (take 2 (drop 2 data))"

definition divFloor :: "int \<Rightarrow> int \<Rightarrow> int" where
  "divFloor a b =
     (let q = quot64 a b; r = rem64 a b
      in if r \<noteq> 0 \<and> ((r < 0) \<noteq> (b < 0)) then q - 1 else q)"

definition daysFromCivil :: "int \<Rightarrow> int \<Rightarrow> int \<Rightarrow> int" where
  "daysFromCivil y m d =
     (let y = (if m \<le> 2 then y - 1 else y);
          era = divFloor y 400;
          yoe = y - era * 400;
          mp = (if m > 2 then m - 3 else m + 9);
          doy = quot64 (153 * mp + 2) 5 + d - 1;
          doe = yoe * 365 + quot64 yoe 4 - quot64 yoe 100 + doy
      in era * 146097 + doe - 719468)"

definition window :: "u8 list \<Rightarrow> nat \<Rightarrow> nat \<Rightarrow> u8 list" where
  "window ts a b = take (b - a) (drop a ts)"

definition weekdayMonday0 :: "u8 list \<Rightarrow> int" where
  "weekdayMonday0 ts =
     (let y = parse4 (window ts 0 4); m = parse2 (window ts 5 7); d = parse2 (window ts 8 10)
      in rem64 (daysFromCivil y m d + 3) 7)"

definition epochMinutes :: "u8 list \<Rightarrow> int" where
  "epochMinutes ts =
     (let y = parse4 (window ts 0 4); m = parse2 (window ts 5 7); d = parse2 (window ts 8 10);
          hh = parse2 (window ts 11 13); mm = parse2 (window ts 14 16)
      in daysFromCivil y m d * 1440 + (hh * 60 + mm))"

subsection \<open>The Gregorian calendar\<close>

definition leap :: "int \<Rightarrow> bool" where
  "leap y \<longleftrightarrow> 4 dvd y \<and> (\<not> 100 dvd y \<or> 400 dvd y)"

definition days_in_month :: "int \<Rightarrow> int \<Rightarrow> int" where
  "days_in_month y m = (if m = 2 then (if leap y then 29 else 28) else if m \<in> {4, 6, 9, 11} then 30 else 31)"

definition valid_date :: "int \<times> int \<times> int \<Rightarrow> bool" where
  "valid_date = (\<lambda>(y, m, d). 0 \<le> y \<and> y \<le> 9999 \<and> 1 \<le> m \<and> m \<le> 12 \<and> 1 \<le> d \<and> d \<le> days_in_month y m)"

definition next_day :: "int \<times> int \<times> int \<Rightarrow> int \<times> int \<times> int" where
  "next_day = (\<lambda>(y, m, d). if d < days_in_month y m then (y, m, d + 1) else if m < 12 then (y, m + 1, 1) else (y + 1, 1, 1))"

subsection \<open>The closed form\<close>

lemma rem64_mod: "0 < b \<Longrightarrow> 0 \<le> a \<Longrightarrow> a \<le> 9223372036854775807 \<Longrightarrow> rem64 a b = a mod b"
proof -
  assume a: "0 < b" "0 \<le> a" "a \<le> 9223372036854775807"
  define q where "q = a div b"
  define r where "r = a mod b"
  have e: "q * b + r = a" "0 \<le> r" "0 \<le> q * b"
    using a by (simp_all add: q_def r_def pos_imp_zdiv_nonneg_iff)
  then have "mul64 q b = q * b" "sub64 a (q * b) = r" using a(3) by simp_all
  then show ?thesis unfolding rem64_def quot64_pos(1) [OF a] q_def [symmetric] r_def [symmetric] by simp
qed

lemma divFloor_div: "- 1 \<le> y \<Longrightarrow> y \<le> 1000000 \<Longrightarrow> divFloor y 400 = y div 400"
proof (cases "0 \<le> y")
  case True
  assume "y \<le> 1000000"
  then have "rem64 y 400 = y mod 400" "quot64 y 400 = y div 400" using True by (simp_all add: rem64_mod quot64_pos(1))
  moreover have "\<not> y mod 400 < 0" by (simp add: not_less)
  ultimately show ?thesis by (simp add: divFloor_def)
next
  case False
  assume "- 1 \<le> y"
  with False have "y = - 1" by simp
  then show ?thesis by (simp add: divFloor_def rem64_def quot64_def wrap64_id)
qed

definition year_days :: "int \<Rightarrow> int" where
  "year_days y = 365 * y + y div 4 - y div 100 + y div 400"

lemma year_days_era: "(y div 400) * 146097 + ((y mod 400) * 365 + (y mod 400) div 4 - (y mod 400) div 100) = year_days y"
proof -
  define q where "q = y div 400"
  define r where "r = y mod 400"
  have y: "y = r + q * 400" by (simp add: q_def r_def)
  have "y div 4 = (r + (100 * q) * 4) div 4" "y div 100 = (r + (4 * q) * 100) div 100" by (simp_all add: y)
  then have "y div 4 = 100 * q + r div 4" "y div 100 = 4 * q + r div 100"
    by (simp_all only: div_mult_self1 [of 4] div_mult_self1 [of 100] zero_neq_numeral not_False_eq_True)
  moreover have "y div 400 = q" by (simp add: q_def)
  ultimately show ?thesis unfolding year_days_def q_def [symmetric] r_def [symmetric] by (simp add: y)
qed

lemma div_Suc_int: "0 < k \<Longrightarrow> (y + 1) div k = y div k + (if k dvd y + 1 then 1 else 0)" for y k :: int
proof -
  assume k: "0 < k"
  define r where "r = y mod k"
  have r: "0 \<le> r" "r < k" and y: "y = y div k * k + r" using k by (simp_all add: r_def)
  show ?thesis
  proof (cases "r + 1 = k")
    case True
    then have "y + 1 = (y div k + 1) * k" using y by (simp add: algebra_simps)
    then have "k dvd y + 1" "(y + 1) div k = y div k + 1" using k by (simp_all only: dvd_triv_right nonzero_mult_div_cancel_right less_imp_neq [symmetric] simp_thms)
    then show ?thesis by simp
  next
    case False
    with r have s: "0 \<le> r + 1" "r + 1 < k" by auto
    have e: "y + 1 = (r + 1) + y div k * k" using y by simp
    have "(y + 1) div k = y div k" using s k by (subst e) simp
    moreover have "(y + 1) mod k = r + 1" using s k by (subst e) simp
    then have "\<not> k dvd y + 1" using r by (simp add: dvd_eq_mod_eq_0)
    ultimately show ?thesis by simp
  qed
qed

lemma year_days_Suc: "year_days (y + 1) = year_days y + (if leap (y + 1) then 366 else 365)"
proof -
  define D4 D100 D400 where D: "D4 \<longleftrightarrow> 4 dvd y + 1" "D100 \<longleftrightarrow> 100 dvd y + 1" "D400 \<longleftrightarrow> 400 dvd y + 1"
  have imp: "D400 \<Longrightarrow> D100" "D100 \<Longrightarrow> D4"
    unfolding D by (rule dvd_trans [of _ 400]; simp) (rule dvd_trans [of _ 100]; simp)
  have div: "(y + 1) div 4 = y div 4 + (if D4 then 1 else 0)"
    "(y + 1) div 100 = y div 100 + (if D100 then 1 else 0)"
    "(y + 1) div 400 = y div 400 + (if D400 then 1 else 0)"
    unfolding D by (rule div_Suc_int; simp)+
  define a b c where "a = y div 4" "b = y div 100" "c = y div 400"
  from imp show ?thesis
    unfolding year_days_def leap_def D [symmetric] div a_b_c_def [symmetric]
    by (cases D4; cases D100; cases D400) simp_all
qed

lemma daysFromCivil_closed:
  assumes "0 \<le> y" "y \<le> 1000000" "0 \<le> m" "m \<le> 100000"
  shows "daysFromCivil y m d =
    year_days (if m \<le> 2 then y - 1 else y) + (153 * (if m > 2 then m - 3 else m + 9) + 2) div 5 + d - 719469"
proof -
  define z where "z = (if m \<le> 2 then y - 1 else y)"
  define mp where "mp = (if m > 2 then m - 3 else m + 9)"
  have z: "- 1 \<le> z" "z \<le> 1000000" and mp: "0 \<le> mp" "mp \<le> 100000" using assms by (auto simp: z_def mp_def)
  have yoe: "z - z div 400 * 400 = z mod 400" by (simp add: minus_div_mult_eq_mod)
  have "0 \<le> z mod 400" "z mod 400 < 400" by simp_all
  then have "quot64 (z mod 400) 4 = z mod 400 div 4" "quot64 (z mod 400) 100 = z mod 400 div 100"
    by (intro quot64_pos(1); simp)+
  moreover have "quot64 (153 * mp + 2) 5 = (153 * mp + 2) div 5" using mp by (intro quot64_pos(1)) auto
  ultimately show ?thesis
    using year_days_era [of z]
    unfolding daysFromCivil_def Let_def z_def [symmetric] mp_def [symmetric] divFloor_div [OF z] yoe by linarith
qed

text \<open>Consecutive days have consecutive numbers, and day 0 is the first of January 1970.\<close>

lemma daysFromCivil_step:
  assumes "valid_date (y, m, d)"
  shows "case next_day (y, m, d) of (y', m', d') \<Rightarrow> daysFromCivil y' m' d' = daysFromCivil y m d + 1"
proof (cases "d < days_in_month y m")
  case True
  then show ?thesis using assms by (simp add: next_day_def valid_date_def daysFromCivil_closed)
next
  case False
  then have d: "d = days_in_month y m" using assms by (simp add: valid_date_def)
  have v: "0 \<le> y" "y \<le> 9999" "1 \<le> m" "m \<le> 12" using assms by (auto simp: valid_date_def)
  from v(3,4) have "m = 1 \<or> m = 2 \<or> m = 3 \<or> m = 4 \<or> m = 5 \<or> m = 6 \<or> m = 7 \<or> m = 8 \<or> m = 9 \<or> m = 10 \<or> m = 11 \<or> m = 12"
    by arith
  then show ?thesis
    using v(1,2) d year_days_Suc [of "y - 1"]
    by (auto simp: next_day_def daysFromCivil_closed days_in_month_def)
qed

lemma daysFromCivil_epoch: "daysFromCivil 1970 1 1 = 0"
  by (simp add: daysFromCivil_closed year_days_def)

text \<open>Days from the epoch on have numbers from zero on, so the weekday is between 0 and 6.\<close>

lemma year_days_mono: "x \<le> y \<Longrightarrow> year_days x \<le> year_days y"
proof (induction y rule: int_ge_induct)
  case (step y)
  then show ?case using year_days_Suc [of y] by (simp split: if_splits)
qed simp

lemma daysFromCivil_nonneg:
  assumes "1970 \<le> y" "y \<le> 9999" "1 \<le> m" "m \<le> 100" "1 \<le> d" "d \<le> 1000000"
  shows "0 \<le> daysFromCivil y m d" "daysFromCivil y m d \<le> 10000000"
proof -
  define z where "z = (if m \<le> 2 then y - 1 else y)"
  define n where "n = (153 * (if m > 2 then m - 3 else m + 9) + 2) div 5"
  have "year_days 1969 \<le> year_days (y - 1)" "year_days (y - 1) \<le> year_days y"
    and hi: "year_days (y - 1) \<le> year_days 9999" "year_days y \<le> year_days 9999"
    using assms(1,2) by (simp_all add: year_days_mono)
  moreover have e: "year_days 1969 = 719162" "year_days 1970 = 719527" "year_days 9999 = 3652059"
    by (simp_all add: year_days_def)
  have "year_days 1970 \<le> year_days y" using assms(1) by (simp add: year_days_mono)
  moreover have n: "0 \<le> n" "m \<le> 2 \<Longrightarrow> 306 \<le> n" "n \<le> 5000"
    using assms(3,4) unfolding n_def by (auto simp: pos_imp_zdiv_nonneg_iff)
  moreover have eq: "daysFromCivil y m d = year_days z + n + d - 719469"
    using assms unfolding z_def n_def by (simp add: daysFromCivil_closed)
  ultimately show "0 \<le> daysFromCivil y m d" using assms(5) e unfolding z_def by (auto split: if_splits)
  show "daysFromCivil y m d \<le> 10000000" using hi e n(3) eq assms(6) unfolding z_def by (auto split: if_splits)
qed

text \<open>
  The day number by counting, apart from the closed form of the code: the lengths of the years since
  1970, of the months before the month, and the days before the day.
\<close>

definition civil_day :: "nat \<Rightarrow> nat \<Rightarrow> nat \<Rightarrow> int" where
  "civil_day y m d =
     sum_list (map (\<lambda>k. if leap (int k) then 366 else 365) [1970..<y]) +
     sum_list (map (\<lambda>k. days_in_month (int y) (int k)) [1..<m]) + int d - 1"

lemma years_counted: "sum_list (map (\<lambda>k. if leap (int k) then 366 else 365) [1970..<1970 + n]) =
    year_days (1969 + int n) - 719162"
proof (induction n)
  case 0
  show ?case by (simp add: year_days_def)
next
  case (Suc n)
  have "[1970..<1970 + Suc n] = [1970..<1970 + n] @ [1970 + n]" by (simp only: add_Suc_right upt_Suc_append le_add1)
  moreover have "1969 + int (Suc n) = (1969 + int n) + 1" "int (1970 + n) = (1969 + int n) + 1" by simp_all
  ultimately show ?case using Suc year_days_Suc [of "1969 + int n"] by (simp only: map_append sum_list_append) simp
qed

lemma daysFromCivil_counts:
  assumes "valid_date (int y, int m, int d)" "1970 \<le> y"
  shows "daysFromCivil (int y) (int m) (int d) = civil_day y m d"
proof -
  obtain n where n: "y = 1970 + n" using assms(2) le_Suc_ex by blast
  have v: "y \<le> 9999" "1 \<le> m" "m \<le> 12" using assms(1) by (auto simp: valid_date_def)
  have years: "sum_list (map (\<lambda>k. if leap (int k) then 366 else 365) [1970..<y]) = year_days (int y - 1) - 719162"
    using years_counted [of n] by (simp add: n)
  have "year_days (int y) = year_days (int y - 1) + (if leap (int y) then 366 else 365)"
    using year_days_Suc [of "int y - 1"] by simp
  moreover from v(2,3) have "m = 1 \<or> m = 2 \<or> m = 3 \<or> m = 4 \<or> m = 5 \<or> m = 6 \<or> m = 7 \<or> m = 8 \<or> m = 9 \<or> m = 10 \<or>
      m = 11 \<or> m = 12" by arith
  ultimately show ?thesis
    using v(1) unfolding civil_day_def years
    by (elim disjE) (simp_all add: daysFromCivil_closed days_in_month_def upt_rec)
qed

subsection \<open>Printed timestamps\<close>

definition two :: "nat \<Rightarrow> u8 list" where
  "two n = [48 + of_nat (n div 10), 48 + of_nat (n mod 10)]"

definition timestamp :: "nat \<Rightarrow> nat \<Rightarrow> nat \<Rightarrow> nat \<Rightarrow> nat \<Rightarrow> nat \<Rightarrow> u8 list" where
  "timestamp y m d hh mi ss = two (y div 100) @ two (y mod 100) @ [45] @ two m @ [45] @ two d @ [84] @
     two hh @ [58] @ two mi @ [58] @ two ss @ [90]"

lemma digit_add: "n < 10 \<Longrightarrow> digit (48 + of_nat n) = int n"
  by (simp add: digit_def unat_of_nat)

lemma parse2_two: "n < 100 \<Longrightarrow> parse2 (two n @ bs) = int n"
proof -
  assume "n < 100"
  then have "digit (48 + of_nat (n div 10)) = int (n div 10)" "digit (48 + of_nat (n mod 10)) = int (n mod 10)"
    by (intro digit_add; auto)+
  then have "parse2 (two n @ bs) = int (n div 10) * 10 + int (n mod 10)" by (simp add: parse2_def two_def)
  then show ?thesis by presburger
qed

lemma parse2_two' [simp]: "n < 100 \<Longrightarrow> parse2 (two n) = int n"
  using parse2_two [of n "[]"] by simp

lemma length_two [simp]: "length (two n) = 2"
  by (simp add: two_def)

lemma timestamp_fields:
  fixes y m d hh mi ss :: nat
  assumes "y < 10000" "m < 100" "d < 100" "hh < 100" "mi < 100"
  defines "ts \<equiv> timestamp y m d hh mi ss"
  shows "length ts = 20" "parse4 (window ts 0 4) = int y" "parse2 (window ts 5 7) = int m"
    "parse2 (window ts 8 10) = int d" "parse2 (window ts 11 13) = int hh" "parse2 (window ts 14 16) = int mi"
proof -
  show "length ts = 20" by (simp add: ts_def timestamp_def)
  have "y div 100 < 100" using assms(1) by auto
  then have "parse4 (window ts 0 4) = int (y div 100) * 100 + int (y mod 100)"
    by (simp add: ts_def timestamp_def window_def parse4_def)
  also have "\<dots> = int (y div 100 * 100 + y mod 100)" by (simp only: of_nat_add of_nat_mult of_nat_numeral)
  finally show "parse4 (window ts 0 4) = int y" by (simp only: div_mult_mod_eq)
  show "parse2 (window ts 5 7) = int m" "parse2 (window ts 8 10) = int d" "parse2 (window ts 11 13) = int hh"
    "parse2 (window ts 14 16) = int mi"
    using assms by (simp_all add: ts_def timestamp_def window_def)
qed

text \<open>The numbers a valid date of a year from 1970 on gives: day number, minutes and weekday.\<close>

lemma weekday_timestamp:
  assumes "valid_date (int y, int m, int d)" "1970 \<le> y" "hh < 100" "mi < 100"
  shows "weekdayMonday0 (timestamp y m d hh mi ss) = (daysFromCivil (int y) (int m) (int d) + 3) mod 7"
    and "epochMinutes (timestamp y m d hh mi ss) = daysFromCivil (int y) (int m) (int d) * 1440 + int hh * 60 + int mi"
proof -
  have v: "y \<le> 9999" "1 \<le> m" "m \<le> 12" "1 \<le> d" "d \<le> 31"
    using assms(1) by (auto simp: valid_date_def days_in_month_def split: if_splits)
  have "y < 10000" "m < 100" "d < 100" using v by simp_all
  note f = timestamp_fields [OF this assms(3,4), of ss]
  have "0 \<le> daysFromCivil (int y) (int m) (int d) + 3" "daysFromCivil (int y) (int m) (int d) \<le> 10000000"
    using daysFromCivil_nonneg [of "int y" "int m" "int d"] v assms(2) by auto
  then have "rem64 (daysFromCivil (int y) (int m) (int d) + 3) 7 = (daysFromCivil (int y) (int m) (int d) + 3) mod 7"
    by (intro rem64_mod) auto
  then show "weekdayMonday0 (timestamp y m d hh mi ss) = (daysFromCivil (int y) (int m) (int d) + 3) mod 7"
    by (simp add: weekdayMonday0_def f)
  show "epochMinutes (timestamp y m d hh mi ss) = daysFromCivil (int y) (int m) (int d) * 1440 + int hh * 60 + int mi"
    by (simp add: epochMinutes_def f)
qed

subsection \<open>Ranges, whatever the bytes\<close>

lemma digit_range: "0 \<le> digit b \<and> digit b \<le> 255"
proof -
  have "unat (b - 48) < 256" using unsigned_less [of "b - 48", where ?'a = nat] by simp
  then show ?thesis unfolding digit_def by linarith
qed

lemma parse2_range: "0 \<le> parse2 bs \<and> parse2 bs \<le> 2805"
  using digit_range [of "bs ! 0"] digit_range [of "bs ! 1"] by (simp add: parse2_def)

lemma parse4_range: "0 \<le> parse4 bs \<and> parse4 bs \<le> 283305"
  using parse2_range [of "take 2 bs"] parse2_range [of "take 2 (drop 2 bs)"] unfolding parse4_def by linarith

lemma rem64_range:
  assumes "0 < b" "- 9223372036854775807 \<le> a" "a \<le> 9223372036854775807"
  shows "- b < rem64 a b \<and> rem64 a b < b"
proof (cases "0 \<le> a")
  case True
  have "0 \<le> a mod b" "a mod b < b" using assms(1) by simp_all
  then show ?thesis using rem64_mod [OF assms(1) True assms(3)] assms(1) by linarith
next
  case False
  define c where "c = - a"
  have c: "0 \<le> c" "c \<le> 9223372036854775807" using False assms by (simp_all add: c_def)
  have q: "quot64 a b = - (c div b)" using quot64_pos(2) [OF assms(1) c] by (simp add: c_def)
  define m r where "m = c div b * b" and "r = c mod b"
  have e: "m + r = c" "0 \<le> r" "r < b" "0 \<le> m"
    using assms(1) c(1) by (simp_all add: m_def r_def pos_imp_zdiv_nonneg_iff)
  have "mul64 (- (c div b)) b = wrap64 (- m)" by (simp add: mul64_def m_def)
  also have "\<dots> = - m" using e c by (intro wrap64_id) linarith+
  finally have "rem64 a b = wrap64 (a - (- m))" by (simp add: rem64_def q sub64_def)
  also have "a - (- m) = - r" using e(1) by (simp add: c_def)
  also have "wrap64 (- r) = - r" using e c by (intro wrap64_id) linarith+
  finally show ?thesis using e by linarith
qed

lemma daysFromCivil_range:
  assumes "0 \<le> y" "y \<le> 1000000" "0 \<le> m" "m \<le> 100000" "0 \<le> d" "d \<le> 1000000"
  shows "- 1000000 \<le> daysFromCivil y m d \<and> daysFromCivil y m d \<le> 1000000000"
proof -
  define z where "z = (if m \<le> 2 then y - 1 else y)"
  define n where "n = (153 * (if m > 2 then m - 3 else m + 9) + 2) div 5"
  have "year_days (- 1) \<le> year_days z" "year_days z \<le> year_days 1000000"
    using assms(1,2) by (auto simp: z_def intro!: year_days_mono)
  moreover have "year_days (- 1) = - 366" "year_days 1000000 = 365242500" by (simp_all add: year_days_def)
  moreover have "0 \<le> n" "n \<le> 10000000" using assms(3,4) unfolding n_def by (auto simp: pos_imp_zdiv_nonneg_iff)
  moreover have "daysFromCivil y m d = year_days z + n + d - 719469"
    using assms unfolding z_def n_def by (simp add: daysFromCivil_closed)
  ultimately show ?thesis using assms(5,6) by linarith
qed

lemma weekday_bytes: "- 6 \<le> weekdayMonday0 ts \<and> weekdayMonday0 ts \<le> 6"
proof -
  define n where "n = daysFromCivil (parse4 (window ts 0 4)) (parse2 (window ts 5 7)) (parse2 (window ts 8 10))"
  have "- 1000000 \<le> n \<and> n \<le> 1000000000"
    unfolding n_def using parse4_range [of "window ts 0 4"] parse2_range [of "window ts 5 7"] parse2_range [of "window ts 8 10"]
    by (intro daysFromCivil_range) linarith+
  then have "- 7 < rem64 (n + 3) 7 \<and> rem64 (n + 3) 7 < 7" by (intro rem64_range) auto
  then show ?thesis by (simp add: weekdayMonday0_def n_def)
qed

end
