(* ===== verification/Vectorize.thy ===== *)
theory Vectorize
  imports Quantize Calendar
begin

text \<open>
  Feature vectors of decoded requests (\<open>vectorize.go\<close> and the request types of \<open>model.go\<close>). A Go
  string is the list of its bytes, a map of risks a partial function, and a \<open>time.Time\<close> the instant it
  stands for, in nanoseconds since 1970: the code reads instants only through the documented
  \<open>UTC\<close>, \<open>Hour\<close>, \<open>Weekday\<close> and \<open>Sub\<close>, modelled here with the \<open>Minutes\<close> of a duration. The theorems say
  that every coordinate of a vector of finite values is in the unit interval, or is the marker -1.
\<close>

subsection \<open>Requests\<close>

type_synonym gostring = "u8 list"
type_synonym time = int

definition bytes_of :: "string \<Rightarrow> gostring" where
  "bytes_of s = map of_char s"

record Transaction =
  Amount :: flt
  Installments :: int
  RequestedAt :: time

record Customer =
  CustomerAvgAmount :: flt
  TxCount24h :: int
  KnownMerchants :: "gostring list"

record Merchant =
  MerchantID :: gostring
  MCC :: gostring
  MerchantAvgAmount :: flt

record Terminal =
  IsOnline :: bool
  CardPresent :: bool
  KmFromHome :: flt

record LastTransaction =
  Timestamp :: time
  KmFromCurrent :: flt

record TransactionRequest =
  RequestID :: gostring
  RequestTransaction :: Transaction
  RequestCustomer :: Customer
  RequestMerchant :: Merchant
  RequestTerminal :: Terminal
  RequestLast :: "LastTransaction option"

record Normalization =
  MaxAmount :: flt
  MaxInstallments :: flt
  AmountVsAvgRatio :: flt
  MaxMinutes :: flt
  MaxKM :: flt
  MaxTxCount24h :: flt
  MaxMerchantAvgAmount :: flt

definition DefaultNormalization :: Normalization where
  "DefaultNormalization = \<lparr>MaxAmount = Fin 10000, MaxInstallments = Fin 12, AmountVsAvgRatio = Fin 10,
     MaxMinutes = Fin 1440, MaxKM = Fin 1000, MaxTxCount24h = Fin 20, MaxMerchantAvgAmount = Fin 10000\<rparr>"

text \<open>A decimal constant is rounded to \<open>float64\<close>.\<close>

definition hundredths :: "int \<Rightarrow> flt" where
  "hundredths n = rnd binary64 (of_int n / 100)"

definition DefaultMCCRisk :: "gostring \<rightharpoonup> flt" where
  "DefaultMCCRisk = map_of
     [(bytes_of ''5411'', hundredths 15), (bytes_of ''5812'', hundredths 30), (bytes_of ''5912'', hundredths 20),
      (bytes_of ''5944'', hundredths 45), (bytes_of ''7801'', hundredths 80), (bytes_of ''7802'', hundredths 75),
      (bytes_of ''7995'', hundredths 85), (bytes_of ''4511'', hundredths 35), (bytes_of ''5311'', hundredths 25),
      (bytes_of ''5999'', hundredths 50)]"

subsection \<open>Instants and durations\<close>

definition time_Hour :: "time \<Rightarrow> int" where
  "time_Hour t = t div 3600000000000 mod 24"

text \<open>Sunday is 0, and the first of January 1970 was a Thursday.\<close>

definition time_Weekday :: "time \<Rightarrow> int" where
  "time_Weekday t = (t div 86400000000000 + 4) mod 7"

definition time_Sub :: "time \<Rightarrow> time \<Rightarrow> int" where
  "time_Sub t u = max (- 9223372036854775808) (min 9223372036854775807 (t - u))"

definition duration_Minutes :: "int \<Rightarrow> flt" where
  "duration_Minutes d = fadd binary64 (ffrom_int binary64 (quot64 d 60000000000))
     (fdiv binary64 (ffrom_int binary64 (rem64 d 60000000000)) (Fin 60000000000))"

definition mondayBasedWeekday :: "time \<Rightarrow> int" where
  "mondayBasedWeekday t = rem64 (time_Weekday t + 6) 7"

subsection \<open>Coordinates\<close>

fun knownMerchant :: "gostring \<Rightarrow> gostring list \<Rightarrow> bool" where
  "knownMerchant name [] = False"
| "knownMerchant name (merchant # merchants) = (if merchant = name then True else knownMerchant name merchants)"

definition mccRiskValue :: "gostring \<Rightarrow> (gostring \<rightharpoonup> flt) \<Rightarrow> flt" where
  "mccRiskValue mcc risk = (case risk mcc of Some v \<Rightarrow> v | None \<Rightarrow> Fin (1 / 2))"

definition div_or_one :: "flt \<Rightarrow> flt \<Rightarrow> flt" where
  "div_or_one n d = (if fleq d (Fin 0) then Fin 1 else fdiv binary64 n d)"

definition clamp :: "flt \<Rightarrow> flt" where
  "clamp v = (if fless v (Fin 0) then Fin 0 else if fless (Fin 1) v then Fin 1 else v)"

definition boolFloat :: "bool \<Rightarrow> flt" where
  "boolFloat v = (if v then Fin 1 else Fin 0)"

definition f32 :: "flt \<Rightarrow> flt" where
  "f32 v = fconv binary32 v"

text \<open>The vector, from index 0 to 13; the code fills 5 and 6 in its own branch.\<close>

definition Vectorize :: "TransactionRequest \<Rightarrow> Normalization \<Rightarrow> (gostring \<rightharpoonup> flt) \<Rightarrow> flt list" where
  "Vectorize req params mccRisk =
     (let requestedAt = RequestedAt (RequestTransaction req);
          amount = Amount (RequestTransaction req);
          (vec5, vec6) =
            (case RequestLast req of
               None \<Rightarrow> (Fin (- 1), Fin (- 1))
             | Some lastTx \<Rightarrow>
                 let minutes = duration_Minutes (time_Sub requestedAt (Timestamp lastTx))
                 in (f32 (clamp (div_or_one minutes (MaxMinutes params))),
                     f32 (clamp (div_or_one (KmFromCurrent lastTx) (MaxKM params)))))
      in [f32 (clamp (div_or_one amount (MaxAmount params))),
          f32 (clamp (div_or_one (ffrom_int binary64 (Installments (RequestTransaction req))) (MaxInstallments params))),
          f32 (clamp (div_or_one (div_or_one amount (CustomerAvgAmount (RequestCustomer req))) (AmountVsAvgRatio params))),
          f32 (fdiv binary64 (ffrom_int binary64 (time_Hour requestedAt)) (Fin 23)),
          f32 (fdiv binary64 (ffrom_int binary64 (mondayBasedWeekday requestedAt)) (Fin 6)),
          vec5, vec6,
          f32 (clamp (div_or_one (KmFromHome (RequestTerminal req)) (MaxKM params))),
          f32 (clamp (div_or_one (ffrom_int binary64 (TxCount24h (RequestCustomer req))) (MaxTxCount24h params))),
          boolFloat (IsOnline (RequestTerminal req)),
          boolFloat (CardPresent (RequestTerminal req)),
          boolFloat (\<not> knownMerchant (MerchantID (RequestMerchant req)) (KnownMerchants (RequestCustomer req))),
          f32 (mccRiskValue (MCC (RequestMerchant req)) mccRisk),
          f32 (clamp (div_or_one (MerchantAvgAmount (RequestMerchant req)) (MaxMerchantAvgAmount params)))])"


subsection \<open>Ranges\<close>

text \<open>Finite means neither infinite nor NaN; a decoded JSON number is finite.\<close>

definition unit_value :: "flt \<Rightarrow> bool" where
  "unit_value v \<longleftrightarrow> (case v of Fin a \<Rightarrow> 0 \<le> a \<and> a \<le> 1 | _ \<Rightarrow> False)"

definition finite_value :: "flt \<Rightarrow> bool" where
  "finite_value v \<longleftrightarrow> (case v of Fin a \<Rightarrow> True | _ \<Rightarrow> False)"

named_theorems unit \<open>values in the unit interval\<close>

lemma unit_value_iff: "unit_value v \<longleftrightarrow> (\<exists>a. v = Fin a \<and> 0 \<le> a \<and> a \<le> 1)"
  by (auto simp: unit_value_def split: flt.splits)

lemma finite_value_iff: "finite_value v \<longleftrightarrow> (\<exists>a. v = Fin a)"
  by (auto simp: finite_value_def split: flt.splits)

lemma unit_finite: "unit_value v \<Longrightarrow> finite_value v"
  by (auto simp: unit_value_iff finite_value_iff)

lemma rnd_unit:
  assumes "fine fmt" "0 \<le> x" "x \<le> 1"
  shows "\<exists>y. rnd fmt x = Fin y \<and> 0 \<le> y \<and> y \<le> 1"
  using fine_rnd [of fmt 0 x 1024] assms by auto

lemma rnd32_unit:
  assumes "0 \<le> x" "x \<le> 1"
  shows "\<exists>y. rnd binary32 x = Fin y \<and> 0 \<le> y \<and> y \<le> 1 \<and> \<bar>y - x\<bar> \<le> 1 / 16777216"
proof (cases "x = 0")
  case True
  then show ?thesis by (simp add: rnd_def)
next
  case False
  obtain y where y: "rnd binary32 x = Fin y" "0 \<le> y" "y \<le> 1" using rnd_unit [OF fine_formats(1) assms] by blast
  have "ulp_exp binary32 x \<le> - 23"
    using False assms by (intro ulp_exp_le [of x 1]) (auto simp: binary32_def pow2_def)
  then have "pow2 (ulp_exp binary32 x) \<le> 1 / 8388608" using pow2_mono [of _ "- 23"] by (simp add: pow2_def)
  with rnd_error [OF y(1)] y show ?thesis by auto
qed

lemma f32_unit [unit]: "unit_value v \<Longrightarrow> unit_value (f32 v)"
  using rnd32_unit by (force simp: unit_value_iff f32_def fconv_def)

lemma clamp_unit: "v \<noteq> NaN \<Longrightarrow> unit_value (clamp v)"
  by (cases v) (auto simp: clamp_def unit_value_def)

lemma rnd_not_NaN [simp]: "rnd fmt x \<noteq> NaN"
  by (auto simp: rnd_def Let_def)

lemma div_or_one_number: "n \<noteq> NaN \<Longrightarrow> finite_value d \<Longrightarrow> div_or_one n d \<noteq> NaN"
  by (cases n) (auto simp: finite_value_iff div_or_one_def)

lemma clamp_div_unit [unit]: "n \<noteq> NaN \<Longrightarrow> finite_value d \<Longrightarrow> unit_value (clamp (div_or_one n d))"
  by (intro clamp_unit div_or_one_number)

lemma ffrom_int_number [simp]: "ffrom_int fmt n \<noteq> NaN"
  by (simp add: ffrom_int_def)

lemma finite_number: "finite_value v \<Longrightarrow> v \<noteq> NaN"
  by (auto simp: finite_value_iff)

lemma boolFloat_unit [unit]: "unit_value (boolFloat b)"
  by (simp add: boolFloat_def unit_value_def)

lemma small_quotient_unit [unit]:
  assumes "0 \<le> n" "n \<le> k" "0 < k" "k \<le> 10000"
  shows "unit_value (fdiv binary64 (ffrom_int binary64 n) (Fin (of_int k)))"
proof -
  have "rnd binary64 (of_int n) = Fin (of_int n)"
    using fine_rnd [of binary64 "1024 * n" "of_int n" "1024 * n"] fine_formats(2) assms by auto
  moreover have "0 \<le> of_int n / (of_int k :: rat)" "of_int n / (of_int k :: rat) \<le> 1" using assms by auto
  ultimately show ?thesis
    using rnd_unit [OF fine_formats(2), of "of_int n / of_int k"] assms(3)
    by (auto simp: ffrom_int_def unit_value_iff)
qed

lemma hundredths_unit [unit]: "0 \<le> n \<Longrightarrow> n \<le> 100 \<Longrightarrow> unit_value (hundredths n)"
  using rnd_unit [OF fine_formats(2), of "of_int n / 100"] by (auto simp: hundredths_def unit_value_iff)

lemma hour_range: "0 \<le> time_Hour t \<and> time_Hour t \<le> 23"
  using pos_mod_bound [of 24 "t div 3600000000000"] by (simp add: time_Hour_def)

lemma mondayBasedWeekday_mod: "mondayBasedWeekday t = (t div 86400000000000 + 3) mod 7"
proof -
  define w where "w = t div 86400000000000"
  have "0 \<le> (w + 4) mod 7" "(w + 4) mod 7 < 7" by simp_all
  then have "rem64 ((w + 4) mod 7 + 6) 7 = ((w + 4) mod 7 + 6) mod 7" by (intro rem64_mod) auto
  also have "\<dots> = (w + 4 + 6) mod 7" by (rule mod_add_left_eq)
  also have "\<dots> = (w + 3 + 1 * 7) mod 7" by (rule arg_cong [where f = "\<lambda>x. x mod 7"]) simp
  also have "\<dots> = (w + 3) mod 7" by (rule mod_mult_self1)
  finally show ?thesis by (simp add: mondayBasedWeekday_def time_Weekday_def w_def)
qed

lemma weekday_range: "0 \<le> mondayBasedWeekday t \<and> mondayBasedWeekday t \<le> 6"
  using pos_mod_bound [of 7 "t div 86400000000000 + 3"] by (simp add: mondayBasedWeekday_mod)

lemma DefaultMCCRisk_unit: "DefaultMCCRisk mcc = Some v \<Longrightarrow> unit_value v"
  unfolding DefaultMCCRisk_def by (drule map_of_SomeD) (auto intro!: hundredths_unit)

lemma mccRiskValue_unit [unit]: "unit_value (mccRiskValue mcc DefaultMCCRisk)"
  using DefaultMCCRisk_unit by (auto simp: mccRiskValue_def unit_value_def split: option.split)

text \<open>64-bit integers convert to finite values.\<close>

lemma ffrom_int64:
  assumes "- 9223372036854775808 \<le> n" "n \<le> 9223372036854775807"
  shows "finite_value (ffrom_int binary64 n)"
proof (cases "n = 0")
  case True
  then show ?thesis by (simp add: ffrom_int_def rnd_def finite_value_def)
next
  case False
  let ?x = "of_int n :: rat"
  have p: "pow2 63 = 9223372036854775808" "pow2 64 = 18446744073709551616" by (simp_all add: pow2_def)
  have "of_int (- 9223372036854775808) \<le> ?x" "?x \<le> of_int 9223372036854775807"
    using assms by (simp_all only: of_int_le_iff)
  then have b: "- 9223372036854775808 \<le> ?x" "?x \<le> 9223372036854775807" by simp_all
  then have "\<bar>?x\<bar> < 18446744073709551616" by auto
  with False have "ulp_exp binary64 ?x \<le> 63"
    by (intro ulp_exp_le [of ?x 64]) (auto simp: p binary64_def)
  moreover have "(9223372036854775808 :: rat) \<le> max_finite binary64"
    by (simp add: binary64_def)
  ultimately show ?thesis
    using rnd_between [of "- 1" 63 ?x 1 binary64] b by (auto simp: p ffrom_int_def finite_value_def)
qed

lemma finite_plus_number: "finite_value a \<Longrightarrow> b \<noteq> NaN \<Longrightarrow> fadd fmt a b \<noteq> NaN"
  by (cases b) (auto simp: finite_value_iff)

lemma duration_number [simp]: "duration_Minutes d \<noteq> NaN"
proof -
  have "finite_value (ffrom_int binary64 (quot64 d 60000000000))"
    using wrap64_range by (intro ffrom_int64) (simp_all add: quot64_def)
  moreover have "fdiv binary64 (ffrom_int binary64 (rem64 d 60000000000)) (Fin 60000000000) \<noteq> NaN"
    by (cases "ffrom_int binary64 (rem64 d 60000000000)"; insert ffrom_int_number [of binary64 "rem64 d 60000000000"]) auto
  ultimately show ?thesis unfolding duration_Minutes_def by (rule finite_plus_number)
qed

definition request_ok :: "TransactionRequest \<Rightarrow> bool" where
  "request_ok req \<longleftrightarrow> finite_value (Amount (RequestTransaction req)) \<and>
     finite_value (CustomerAvgAmount (RequestCustomer req)) \<and> finite_value (MerchantAvgAmount (RequestMerchant req)) \<and>
     finite_value (KmFromHome (RequestTerminal req)) \<and>
     (case RequestLast req of None \<Rightarrow> True | Some lastTx \<Rightarrow> finite_value (KmFromCurrent lastTx))"

definition finite_norm :: "Normalization \<Rightarrow> bool" where
  "finite_norm n \<longleftrightarrow> finite_value (MaxAmount n) \<and> finite_value (MaxInstallments n) \<and> finite_value (AmountVsAvgRatio n) \<and>
     finite_value (MaxMinutes n) \<and> finite_value (MaxKM n) \<and> finite_value (MaxTxCount24h n) \<and>
     finite_value (MaxMerchantAvgAmount n)"

lemma finite_DefaultNormalization: "finite_norm DefaultNormalization"
  by (simp add: finite_norm_def DefaultNormalization_def finite_value_def)

lemma f32_minus_one: "Fin (- 1) = v \<Longrightarrow> \<not> unit_value v"
  by (auto simp: unit_value_def)

lemma Vectorize_coordinates:
  assumes "request_ok req" "finite_norm params"
  defines "v \<equiv> Vectorize req params DefaultMCCRisk"
  shows "length v = 14 \<and> list_all unit_value (take 5 v @ drop 7 v) \<and>
    (if RequestLast req = None then take 2 (drop 5 v) = [Fin (- 1), Fin (- 1)] else list_all unit_value v)"
proof -
  have n: "finite_value (MaxAmount params)" "finite_value (MaxInstallments params)" "finite_value (AmountVsAvgRatio params)"
    "finite_value (MaxMinutes params)" "finite_value (MaxKM params)" "finite_value (MaxTxCount24h params)"
    "finite_value (MaxMerchantAvgAmount params)"
    using assms(2) by (simp_all add: finite_norm_def)
  have r: "Amount (RequestTransaction req) \<noteq> NaN" "finite_value (CustomerAvgAmount (RequestCustomer req))"
    "MerchantAvgAmount (RequestMerchant req) \<noteq> NaN" "KmFromHome (RequestTerminal req) \<noteq> NaN"
    using assms(1) finite_number by (auto simp: request_ok_def)
  have h: "unit_value (fdiv binary64 (ffrom_int binary64 (time_Hour t)) (Fin 23))"
    "unit_value (fdiv binary64 (ffrom_int binary64 (mondayBasedWeekday t)) (Fin 6))" for t
    using small_quotient_unit [of "time_Hour t" 23] small_quotient_unit [of "mondayBasedWeekday t" 6]
      hour_range [of t] weekday_range [of t] by simp_all
  have k: "KmFromCurrent lastTx \<noteq> NaN" if "RequestLast req = Some lastTx" for lastTx
    using assms(1) that finite_number by (auto simp: request_ok_def)
  show ?thesis
    unfolding v_def using k h n r div_or_one_number [OF r(1,2)]
    by (cases "RequestLast req") (simp_all add: Vectorize_def Let_def unit)
qed

lemma length_Vectorize: "length (Vectorize req params risk) = 14"
  by (simp add: Vectorize_def Let_def split: prod.split)

subsection \<open>Timestamps read from bytes and instants\<close>

definition instant :: "nat \<Rightarrow> nat \<Rightarrow> nat \<Rightarrow> nat \<Rightarrow> nat \<Rightarrow> nat \<Rightarrow> time" where
  "instant y m d hh mi ss =
     (((civil_day y m d * 24 + int hh) * 60 + int mi) * 60 + int ss) * 1000000000"

lemma div_split: "0 \<le> r \<Longrightarrow> r < k \<Longrightarrow> (q * k + r) div k = q" for q r k :: int
  by simp

lemma instant_agrees:
  assumes "valid_date (int y, int m, int d)" "1970 \<le> y" "hh < 24" "mi < 60" "ss < 60"
  defines "ts \<equiv> timestamp y m d hh mi ss" and "t \<equiv> instant y m d hh mi ss"
  shows "weekdayMonday0 ts = mondayBasedWeekday t" "parse2 (window ts 11 13) = time_Hour t"
    "epochMinutes ts = t div 60000000000"
proof -
  define n where "n = civil_day y m d"
  have v: "y \<le> 9999" "m \<le> 12" "d \<le> 31"
    using assms(1) by (auto simp: valid_date_def days_in_month_def split: if_splits)
  have b: "hh < 100" "mi < 100" using assms(3,4) by simp_all
  note ts = weekday_timestamp [OF assms(1,2) b, of ss, unfolded daysFromCivil_counts [OF assms(1,2)], folded ts_def n_def]
  have hour: "parse2 (window ts 11 13) = int hh"
    unfolding ts_def using v b by (intro timestamp_fields(5)) auto
  have "t = n * 86400000000000 + ((int hh * 60 + int mi) * 60 + int ss) * 1000000000"
    by (simp add: t_def instant_def n_def)
  moreover have "((int hh * 60 + int mi) * 60 + int ss) * 1000000000 < 86400000000000" using assms(3-5) by simp
  ultimately have "t div 86400000000000 = n" using div_split by simp
  then show "weekdayMonday0 ts = mondayBasedWeekday t" by (simp add: ts mondayBasedWeekday_mod)
  have "t = (n * 24 + int hh) * 3600000000000 + (int mi * 60 + int ss) * 1000000000"
    by (simp add: t_def instant_def n_def)
  moreover have "(int mi * 60 + int ss) * 1000000000 < 3600000000000" using assms(4,5) by simp
  ultimately have "t div 3600000000000 = n * 24 + int hh" using div_split by simp
  then show "parse2 (window ts 11 13) = time_Hour t" using assms(3) hour by (simp add: time_Hour_def)
  have "t = ((n * 24 + int hh) * 60 + int mi) * 60000000000 + int ss * 1000000000"
    by (simp add: t_def instant_def n_def)
  moreover have "int ss * 1000000000 < 60000000000" using assms(5) by simp
  ultimately have "t div 60000000000 = (n * 24 + int hh) * 60 + int mi" using div_split by simp
  then show "epochMinutes ts = t div 60000000000" by (simp add: ts)
qed

end
