(* ===== verification/Json_Scan.thy ===== *)
theory Json_Scan
  imports Vectorize
begin

text \<open>
  The byte scanner behind the JSON vectorizer (\<open>numberAfter\<close> to \<open>knownMerchantJSON\<close> and
  \<open>skipValuePrefix\<close> in \<open>vectorize_json.go\<close>). It does not parse: it looks for a key from a position on and
  reads what follows. \<open>None\<close> is a panic, \<open>Some None\<close> the return with \<open>ok = false\<close>. A loop that
  advances an index is \<open>scan\<close>, which ends because the index stays below the length.
\<close>

subsection \<open>Searching\<close>

definition has_prefix :: "u8 list \<Rightarrow> u8 list \<Rightarrow> bool" where
  "has_prefix bs p \<longleftrightarrow> take (length p) bs = p"

text \<open>\<open>bytes.Index\<close>: the first position, \<open>None\<close> for -1.\<close>

fun bytes_Index :: "u8 list \<Rightarrow> u8 list \<Rightarrow> nat option" where
  "bytes_Index [] sep = (if sep = [] then Some 0 else None)"
| "bytes_Index (b # bs) sep =
     (if has_prefix (b # bs) sep then Some 0 else map_option Suc (bytes_Index bs sep))"

function scan :: "(u8 \<Rightarrow> bool) \<Rightarrow> u8 list \<Rightarrow> nat \<Rightarrow> nat" where
  "scan P data pos = (if pos < length data \<and> P (data ! pos) then scan P data (pos + 1) else pos)"
  by pat_completeness auto
termination by (relation "measure (\<lambda>(P, data, pos). length data - pos)") auto

declare scan.simps [simp del]

definition quoted :: "string \<Rightarrow> u8 list" where
  "quoted key = bytes_of (CHR 0x22 # key @ [CHR 0x22])"

definition is_digit :: "u8 \<Rightarrow> bool" where
  "is_digit b \<longleftrightarrow> 48 \<le> b \<and> b \<le> 57"

definition skippable :: "u8 \<Rightarrow> bool" where
  "skippable b \<longleftrightarrow> b = 58 \<or> b \<le> 32"

definition ok_then :: "'a option option \<Rightarrow> ('a \<Rightarrow> 'b option option) \<Rightarrow> 'b option option" where
  "ok_then r k = (case r of None \<Rightarrow> None | Some None \<Rightarrow> Some None | Some (Some x) \<Rightarrow> k x)"

subsection \<open>Numbers\<close>

text \<open>The loops of \<open>parseFloatBytes\<close> over the bytes that are left.\<close>

fun integer_digits :: "u8 list \<Rightarrow> flt \<Rightarrow> bool \<Rightarrow> flt \<times> bool \<times> u8 list" where
  "integer_digits [] value seenDigit = (value, seenDigit, [])"
| "integer_digits (b # bs) value seenDigit =
     (if is_digit b
      then integer_digits bs
        (fadd binary64 (fmul binary64 value (Fin 10)) (ffrom_int binary64 (int (unat (b - 48))))) True
      else (value, seenDigit, b # bs))"

fun fraction_digits :: "u8 list \<Rightarrow> flt \<Rightarrow> flt \<Rightarrow> bool \<Rightarrow> flt \<times> bool \<times> u8 list" where
  "fraction_digits [] value factor seenDigit = (value, seenDigit, [])"
| "fraction_digits (b # bs) value factor seenDigit =
     (if is_digit b
      then fraction_digits bs
        (fadd binary64 value (fmul binary64 (ffrom_int binary64 (int (unat (b - 48)))) factor))
        (fmul binary64 factor (rnd binary64 (1 / 10))) True
      else (value, seenDigit, b # bs))"

definition parseFloatBytes :: "u8 list \<Rightarrow> flt option" where
  "parseFloatBytes data =
     (if data = [] then None
      else
        let neg = (data ! 0 = 45) in
        if neg \<and> length data = 1 then None
        else
          let (value, seenDigit, rest) = integer_digits (if neg then drop 1 data else data) (Fin 0) False;
              (value, seenDigit, rest) =
                (case rest of
                   b # bs \<Rightarrow> if b = 46 then fraction_digits bs value (rnd binary64 (1 / 10)) seenDigit
                             else (value, seenDigit, rest)
                 | [] \<Rightarrow> (value, seenDigit, rest))
          in if \<not> seenDigit \<or> rest \<noteq> [] then None
             else Some (if neg then fneg value else value))"

definition numberAfter :: "u8 list \<Rightarrow> u8 list \<Rightarrow> nat \<Rightarrow> flt option option" where
  "numberAfter data key start = do {
     tail \<leftarrow> slice data start (length data);
     case bytes_Index tail key of
       None \<Rightarrow> Some None
     | Some idx \<Rightarrow> do {
         let pos = scan skippable data (start + idx + length key);
         let stop = scan (\<lambda>b. is_digit b \<or> b = 46 \<or> b = 45) data pos;
         if stop = pos then Some None
         else do { number \<leftarrow> slice data pos stop; Some (parseFloatBytes number) } } }"

subsection \<open>Strings and booleans\<close>

definition stringAfter :: "u8 list \<Rightarrow> u8 list \<Rightarrow> nat \<Rightarrow> u8 list option option" where
  "stringAfter data key start = do {
     tail \<leftarrow> slice data start (length data);
     case bytes_Index tail key of
       None \<Rightarrow> Some None
     | Some idx \<Rightarrow> do {
         let pos = scan (\<lambda>b. b \<noteq> 34) data (start + idx + length key) + 1;
         let stop = scan (\<lambda>b. b \<noteq> 34) data pos;
         if stop > length data \<or> pos > stop then Some None
         else do { text \<leftarrow> slice data pos stop; Some (Some text) } } }"

definition boolAfter :: "u8 list \<Rightarrow> u8 list \<Rightarrow> nat \<Rightarrow> bool option option" where
  "boolAfter data key start = do {
     tail \<leftarrow> slice data start (length data);
     case bytes_Index tail key of
       None \<Rightarrow> Some None
     | Some idx \<Rightarrow> do {
         let pos = scan skippable data (start + idx + length key);
         tail \<leftarrow> slice data pos (length data);
         if has_prefix tail (bytes_of ''true'') then Some (Some True)
         else if has_prefix tail (bytes_of ''false'') then Some (Some False)
         else Some None } }"

fun skipValuePrefix :: "u8 list \<Rightarrow> u8 list" where
  "skipValuePrefix [] = []"
| "skipValuePrefix (b # bs) = (if skippable b then skipValuePrefix bs else b # bs)"

subsection \<open>Known merchants\<close>

text \<open>The loop over the occurrences of the merchant; a match is at most at the end of the section, so
  \<open>section[pos-1]\<close> exists.\<close>

function merchant_loop :: "u8 list \<Rightarrow> u8 list \<Rightarrow> nat \<Rightarrow> bool option" where
  "merchant_loop part merchantID searchStart = do {
     tail \<leftarrow> slice part searchStart (length part);
     case bytes_Index tail merchantID of
       None \<Rightarrow> Some False
     | Some idx \<Rightarrow>
         let pos = searchStart + idx in
         if pos > 0 \<and> part ! (pos - 1) = 34 \<and> pos + length merchantID < length part \<and>
            part ! (pos + length merchantID) = 34
         then Some True
         else merchant_loop part merchantID (pos + 1) }"
  by pat_completeness auto
termination
  by (relation "measure (\<lambda>(part, m, k). Suc (length part) - k)") (auto simp: slice_def split: if_splits)

declare merchant_loop.simps [simp del]

definition knownMerchantJSON :: "u8 list \<Rightarrow> u8 list \<Rightarrow> int \<Rightarrow> int \<Rightarrow> bool option" where
  "knownMerchantJSON data merchantID start stop =
     (if start < 0 \<or> start \<ge> int (length data) then Some False
      else
        let stop = (if stop \<le> start \<or> stop > int (length data) then int (length data) else stop)
        in do {
          customer \<leftarrow> slice data (nat start) (nat stop);
          case bytes_Index customer (quoted ''known_merchants'') of
            None \<Rightarrow> Some False
          | Some knownPos \<Rightarrow> do {
              let sectionStart = nat start + knownPos;
              rest \<leftarrow> slice data sectionStart (nat stop);
              case bytes_Index rest [93] of
                None \<Rightarrow> Some False
              | Some sectionEnd \<Rightarrow> do {
                  part \<leftarrow> slice data sectionStart (sectionStart + sectionEnd);
                  merchant_loop part merchantID 0 } } })"


subsection \<open>What the searches find\<close>

lemma has_prefix_iff: "has_prefix bs p \<longleftrightarrow> (\<exists>r. bs = p @ r)"
  by (metis append_eq_conv_conj append_take_drop_id has_prefix_def)

lemma has_prefix_length: "has_prefix bs p \<Longrightarrow> length p \<le> length bs"
  by (auto simp: has_prefix_iff)

lemma has_prefix_Nil [simp]: "has_prefix bs []"
  by (simp add: has_prefix_def)

lemma bytes_Index_Some:
  "bytes_Index bs sep = Some i \<Longrightarrow>
     i + length sep \<le> length bs \<and> has_prefix (drop i bs) sep \<and> (\<forall>j < i. \<not> has_prefix (drop j bs) sep)"
proof (induction bs sep arbitrary: i rule: bytes_Index.induct)
  case (2 b bs sep)
  then show ?case
    using has_prefix_length [of "b # bs" sep] by (auto split: if_splits simp: less_Suc_eq_0_disj)
qed (auto split: if_splits)

lemma bytes_Index_None: "bytes_Index bs sep = None \<Longrightarrow> j \<le> length bs \<Longrightarrow> \<not> has_prefix (drop j bs) sep"
proof (induction bs sep arbitrary: j rule: bytes_Index.induct)
  case (1 sep)
  then show ?case by (auto simp: has_prefix_def split: if_splits)
next
  case (2 b bs sep)
  then show ?case by (cases j) (auto split: if_splits)
qed

lemma scan_ge: "pos \<le> scan P data pos"
proof (induction P data pos rule: scan.induct)
  case (1 P data pos)
  show ?case
  proof (cases "pos < length data \<and> P (data ! pos)")
    case True
    then have "scan P data pos = scan P data (pos + 1)" by (subst scan.simps) simp
    with 1 True show ?thesis by simp
  next
    case False
    then show ?thesis by (subst scan.simps) auto
  qed
qed

lemma scan_le: "pos \<le> length data \<Longrightarrow> scan P data pos \<le> length data"
proof (induction P data pos rule: scan.induct)
  case (1 P data pos)
  then show ?case by (subst scan.simps) auto
qed

text \<open>The scan stops at the first byte that does not satisfy the predicate.\<close>

lemma scan_takeWhile: "scan P data pos = pos + length (takeWhile P (drop pos data))"
proof (induction P data pos rule: scan.induct)
  case (1 P data pos)
  show ?case
  proof (cases "pos < length data")
    case True
    then have "drop pos data = data ! pos # drop (pos + 1) data" by (simp add: Cons_nth_drop_Suc)
    with 1 True show ?thesis by (subst scan.simps) simp
  next
    case False
    then show ?thesis by (subst scan.simps) simp
  qed
qed

lemma skipValuePrefix_dropWhile: "skipValuePrefix bs = dropWhile skippable bs"
  by (induction bs) auto

subsection \<open>The readers return\<close>

lemma after_key:
  assumes "start \<le> length data" "bytes_Index (drop start data) key = Some idx"
  shows "start + idx + length key \<le> length data"
proof -
  have "idx + length key \<le> length data - start" using bytes_Index_Some [OF assms(2)] by simp
  with assms(1) show ?thesis by linarith
qed

lemma slice_tail: "start \<le> length data \<Longrightarrow> slice data start (length data) = Some (drop start data)"
  by (simp add: slice_def)

lemma numberAfter_total:
  assumes "start \<le> length data"
  shows "\<exists>r. numberAfter data key start = Some r"
proof (cases "bytes_Index (drop start data) key")
  case None
  then show ?thesis using assms by (simp add: numberAfter_def slice_tail)
next
  case (Some idx)
  define pos where "pos = scan skippable data (start + idx + length key)"
  define stop where "stop = scan (\<lambda>b. is_digit b \<or> b = 46 \<or> b = 45) data pos"
  have "pos \<le> length data" unfolding pos_def by (intro scan_le after_key [OF assms Some])
  then have "pos \<le> stop" "stop \<le> length data" unfolding stop_def by (simp_all add: scan_ge scan_le)
  then have "slice data pos stop = Some (take (stop - pos) (drop pos data))" by (rule slice_Some)
  then show ?thesis
    using Some assms by (simp add: numberAfter_def slice_tail Let_def pos_def [symmetric] stop_def [symmetric])
qed

lemma stringAfter_total: "start \<le> length data \<Longrightarrow> \<exists>r. stringAfter data key start = Some r"
  by (cases "bytes_Index (drop start data) key") (simp_all add: stringAfter_def slice_tail Let_def slice_Some not_less)

lemma boolAfter_total:
  assumes "start \<le> length data"
  shows "\<exists>r. boolAfter data key start = Some r"
proof (cases "bytes_Index (drop start data) key")
  case None
  then show ?thesis using assms by (simp add: boolAfter_def slice_tail)
next
  case (Some idx)
  have "scan skippable data (start + idx + length key) \<le> length data" by (intro scan_le after_key [OF assms Some])
  then show ?thesis using Some assms by (simp add: boolAfter_def slice_tail Let_def)
qed

subsection \<open>The known merchants\<close>

definition quoted_in :: "u8 list \<Rightarrow> u8 list \<Rightarrow> bool" where
  "quoted_in part name \<longleftrightarrow> (\<exists>a b. part = a @ 34 # name @ 34 # b)"

lemma quoted_in_Index: "quoted_in part name \<longleftrightarrow> bytes_Index part (34 # name @ [34]) \<noteq> None"
proof
  assume "quoted_in part name"
  then obtain a b where "part = a @ 34 # name @ 34 # b" by (auto simp: quoted_in_def)
  then have "has_prefix (drop (length a) part) (34 # name @ [34])" "length a \<le> length part"
    by (simp_all add: has_prefix_def)
  then show "bytes_Index part (34 # name @ [34]) \<noteq> None" using bytes_Index_None by blast
next
  assume "bytes_Index part (34 # name @ [34]) \<noteq> None"
  then obtain i where "bytes_Index part (34 # name @ [34]) = Some i" by blast
  from bytes_Index_Some [OF this] obtain r where "drop i part = (34 # name @ [34]) @ r" by (auto simp: has_prefix_iff)
  then have "part = take i part @ 34 # name @ 34 # r" using append_take_drop_id [of i part] by simp
  then show "quoted_in part name" unfolding quoted_in_def by blast
qed

definition quoted_at :: "u8 list \<Rightarrow> u8 list \<Rightarrow> nat \<Rightarrow> bool" where
  "quoted_at part name p \<longleftrightarrow> p > 0 \<and> has_prefix (drop p part) name \<and> part ! (p - 1) = 34 \<and>
     p + length name < length part \<and> part ! (p + length name) = 34"

lemma quoted_at_in: "(\<exists>p. quoted_at part name p) \<longleftrightarrow> quoted_in part name"
proof
  assume "\<exists>p. quoted_at part name p"
  then obtain p where p: "p > 0" "has_prefix (drop p part) name" "part ! (p - 1) = 34"
    "p + length name < length part" "part ! (p + length name) = 34"
    by (auto simp: quoted_at_def)
  have "take (length name) (drop p part) = name" using p(2) by (simp add: has_prefix_def)
  moreover have "part = take (p - 1) part @ part ! (p - 1) # drop p part"
    using p(1,4) id_take_nth_drop [of "p - 1" part] by simp
  moreover have "drop p part = take (length name) (drop p part) @ drop (length name) (drop p part)"
    by (rule append_take_drop_id [symmetric])
  moreover have "drop (length name) (drop p part) = part ! (p + length name) # drop (Suc (p + length name)) part"
    using p(4) by (simp add: Cons_nth_drop_Suc add.commute)
  ultimately have "part = take (p - 1) part @ 34 # name @ 34 # drop (Suc (p + length name)) part"
    using p(3,5) by metis
  then show "quoted_in part name" unfolding quoted_in_def by blast
next
  assume "quoted_in part name"
  then obtain a b where "part = a @ 34 # name @ 34 # b" by (auto simp: quoted_in_def)
  then have "quoted_at part name (Suc (length a))"
    by (auto simp: quoted_at_def has_prefix_def nth_append)
  then show "\<exists>p. quoted_at part name p" by blast
qed

lemma merchant_loop_spec:
  assumes "k \<le> length part"
  shows "merchant_loop part name k =
    (if \<exists>p \<ge> k. quoted_at part name p then Some True else if name = [] then None else Some False)"
  using assms
proof (induction part name k rule: merchant_loop.induct)
  case (1 part name k)
  have tail: "slice part k (length part) = Some (drop k part)" using 1(2) by (rule slice_tail)
  show ?case
  proof (cases "bytes_Index (drop k part) name")
    case None
    have no: "\<not> has_prefix (drop p part) name" if "k \<le> p" "p \<le> length part" for p
      using that bytes_Index_None [OF None, of "p - k"] by simp
    then have "\<not> (\<exists>p \<ge> k. quoted_at part name p)" by (auto simp: quoted_at_def)
    moreover have "name \<noteq> []" using no [of k] 1(2) by auto
    ultimately show ?thesis using None tail by (subst merchant_loop.simps) simp
  next
    case (Some idx)
    define pos where "pos = k + idx"
    have pos: "k \<le> pos" by (simp add: pos_def)
    have fits: "pos + length name \<le> length part"
      using after_key [OF 1(2) Some] by (simp add: pos_def)
    have match: "has_prefix (drop pos part) name"
      using bytes_Index_Some [OF Some] by (simp add: pos_def add.commute)
    have before: "\<not> quoted_at part name p" if "k \<le> p" "p < pos" for p
    proof -
      have "p - k < idx" using that by (simp add: pos_def)
      then have "\<not> has_prefix (drop (p - k) (drop k part)) name" using bytes_Index_Some [OF Some] by blast
      then show ?thesis using that by (simp add: quoted_at_def)
    qed
    have loop: "merchant_loop part name k =
        (if quoted_at part name pos then Some True else merchant_loop part name (pos + 1))"
      using Some tail match by (subst merchant_loop.simps) (simp add: quoted_at_def pos_def [symmetric] Let_def)
    have later: "(\<exists>p \<ge> k. quoted_at part name p) \<longleftrightarrow> (\<exists>p \<ge> pos + 1. quoted_at part name p)"
      if "\<not> quoted_at part name pos"
      using that before pos by (metis Suc_eq_plus1 Suc_leD leI le_trans not_less_eq_eq order_antisym)
    show ?thesis
    proof (cases "quoted_at part name pos")
      case True
      then show ?thesis using loop pos by auto
    next
      case False
      show ?thesis
      proof (cases "pos + 1 \<le> length part")
        case True
        have "merchant_loop part name (pos + 1) =
            (if \<exists>p \<ge> pos + 1. quoted_at part name p then Some True else if name = [] then None else Some False)"
          using 1(1) [of "drop k part" idx pos] tail Some True False match by (simp add: pos_def quoted_at_def)
        with loop later [OF False] False show ?thesis by simp
      next
        case beyond: False
        then have "length name = 0" using fits by linarith
        moreover have "\<not> (\<exists>p \<ge> pos + 1. quoted_at part name p)" using beyond by (auto simp: quoted_at_def)
        moreover have "merchant_loop part name (pos + 1) = None"
          using beyond by (subst merchant_loop.simps) (simp add: slice_def)
        ultimately show ?thesis using loop later [OF False] False by simp
      qed
    qed
  qed
qed

text \<open>The bytes searched: from the key to the first closing bracket, inside the given range.\<close>

definition merchant_section :: "u8 list \<Rightarrow> int \<Rightarrow> int \<Rightarrow> u8 list option" where
  "merchant_section data start stop =
     (let customer = drop (nat start) (if start < stop \<and> stop \<le> int (length data) then take (nat stop) data else data)
      in if start < 0 \<or> start \<ge> int (length data) then None
         else case bytes_Index customer (quoted ''known_merchants'') of
           None \<Rightarrow> None
         | Some p \<Rightarrow> if 93 \<in> set (drop p customer) then Some (takeWhile (\<lambda>b. b \<noteq> 93) (drop p customer)) else None)"

lemma bytes_Index_byte:
  "bytes_Index bs [c] = (if c \<in> set bs then Some (length (takeWhile (\<lambda>b. b \<noteq> c) bs)) else None)"
  by (induction bs) (auto simp: has_prefix_def)

lemma knownMerchantJSON_spec:
  "knownMerchantJSON data name start stop =
    (case merchant_section data start stop of None \<Rightarrow> Some False
     | Some part \<Rightarrow> if quoted_in part name then Some True else if name = [] then None else Some False)"
proof (cases "start < 0 \<or> start \<ge> int (length data)")
  case True
  then show ?thesis by (auto simp: knownMerchantJSON_def merchant_section_def Let_def)
next
  case False
  define till where "till = (if stop \<le> start \<or> stop > int (length data) then int (length data) else stop)"
  define customer where "customer = drop (nat start) (take (nat till) data)"
  have till: "start < till" "till \<le> int (length data)" using False by (auto simp: till_def)
  have c: "drop (nat start) (if start < stop \<and> stop \<le> int (length data) then take (nat stop) data else data) = customer"
    using False by (auto simp: customer_def till_def)
  have sl: "slice data (nat start + p) (nat till) = Some (drop p customer)" if "nat start + p \<le> nat till" for p
    using till that by (simp add: slice_def customer_def drop_take add.commute)
  have len: "length customer = nat till - nat start" using till False by (simp add: customer_def)
  show ?thesis
  proof (cases "bytes_Index customer (quoted ''known_merchants'')")
    case None
    then show ?thesis
      using False sl [of 0] till c
      by (simp add: knownMerchantJSON_def merchant_section_def Let_def till_def [symmetric])
  next
    case (Some p)
    have "p \<le> nat till - nat start" using bytes_Index_Some [OF Some] len by simp
    moreover have "nat start \<le> nat till" using till(1) by simp
    ultimately have p: "nat start + p \<le> nat till" by linarith
    define part where "part = takeWhile (\<lambda>b. b \<noteq> 93) (drop p customer)"
    have "length part \<le> length (drop p customer)" unfolding part_def by (rule length_takeWhile_le)
    then have "length part \<le> nat till - (nat start + p)" using len by simp
    with p have q: "nat start + p + length part \<le> nat till" by linarith
    have "take (length part) (drop p customer) = part" unfolding part_def by (simp add: takeWhile_eq_take [symmetric])
    then have "slice data (nat start + p) (nat start + p + length part) = Some part"
      using q till by (simp add: slice_def customer_def drop_take take_take min_def add.commute split: if_splits)
    then show ?thesis
      using False sl [of 0] sl [OF p] till c Some merchant_loop_spec [of 0 part name] quoted_at_in [of part name]
      by (simp add: knownMerchantJSON_def merchant_section_def Let_def till_def [symmetric] bytes_Index_byte
          part_def [symmetric])
  qed
qed


subsection \<open>Printed numbers\<close>

fun decimal :: "nat \<Rightarrow> u8 list" where
  "decimal n = (if n < 10 then [48 + of_nat n] else decimal (n div 10) @ [48 + of_nat (n mod 10)])"

declare decimal.simps [simp del]

definition decimal_value :: "nat \<Rightarrow> u8 list \<Rightarrow> nat" where
  "decimal_value v bs = foldl (\<lambda>v b. v * 10 + unat (b - 48)) v bs"

lemma digit_byte: "n < 10 \<Longrightarrow> is_digit (48 + of_nat n) \<and> unat ((48 + of_nat n :: u8) - 48) = n"
proof -
  assume n: "n < 10"
  then have "unat (48 + of_nat n :: u8) = 48 + n" by (simp add: unat_word_ariths unat_of_nat)
  moreover have "unat (of_nat n :: u8) = n" using n by (simp add: unat_of_nat)
  ultimately show ?thesis using n by (simp add: is_digit_def word_le_nat_alt)
qed

lemma digit_not_skippable: "is_digit b \<Longrightarrow> \<not> skippable b"
  by (auto simp: is_digit_def skippable_def word_le_nat_alt)

lemma decimal_digits: "\<forall>b \<in> set (decimal n). is_digit b"
proof (induction n rule: decimal.induct)
  case (1 n)
  then show ?case using digit_byte [of n] digit_byte [of "n mod 10"] by (subst decimal.simps) auto
qed

lemma decimal_value_decimal: "decimal_value 0 (decimal n) = n"
proof (induction n rule: decimal.induct)
  case (1 n)
  then show ?case
    using digit_byte [of n] digit_byte [of "n mod 10"] by (subst decimal.simps) (auto simp: decimal_value_def)
qed

lemma rnd64_nat: "n < 9007199254740992 \<Longrightarrow> rnd binary64 (of_nat n) = Fin (of_nat n)"
proof (cases "n = 0")
  case False
  assume n: "n < 9007199254740992"
  let ?x = "of_nat n :: rat"
  have b: "?x < 9007199254740992" using n by (metis of_nat_less_iff of_nat_numeral)
  then have "ulp_exp binary64 ?x \<le> 0"
    using False by (intro ulp_exp_le [of ?x 53]) (auto simp: binary64_def pow2_def)
  moreover have "(9007199254740992 :: rat) \<le> max_finite binary64" by (simp add: binary64_def)
  ultimately show ?thesis
    using rnd_between [of "int n" 0 ?x "int n" binary64] b by (auto simp: pow2_def)
qed (simp add: rnd_def)

lemma decimal_value_ge: "v \<le> decimal_value v bs"
proof (induction bs arbitrary: v)
  case (Cons b bs)
  have "v \<le> v * 10 + unat (b - 48)" by simp
  also have "\<dots> \<le> decimal_value (v * 10 + unat (b - 48)) bs" by (rule Cons)
  finally show ?case by (simp add: decimal_value_def)
qed (simp add: decimal_value_def)

text \<open>Below \<open>2 ^ 53\<close> no step of the loop rounds.\<close>

lemma integer_digits_exact:
  assumes "\<forall>b \<in> set bs. is_digit b" "decimal_value v bs < 9007199254740992"
  shows "integer_digits bs (Fin (of_nat v)) seen = (Fin (of_nat (decimal_value v bs)), seen \<or> bs \<noteq> [], [])"
  using assms
proof (induction bs arbitrary: v seen)
  case Nil
  then show ?case by (simp add: decimal_value_def)
next
  case (Cons b bs)
  let ?d = "unat (b - 48)"
  have val: "decimal_value v (b # bs) = decimal_value (v * 10 + ?d) bs" by (simp add: decimal_value_def)
  have "v * 10 + ?d < 9007199254740992" using decimal_value_ge [of "v * 10 + ?d" bs] Cons.prems(2) val by simp
  then have "rnd binary64 (of_nat (v * 10)) = Fin (of_nat (v * 10))"
    "rnd binary64 (of_nat ?d) = Fin (of_nat ?d)"
    "rnd binary64 (of_nat (v * 10 + ?d)) = Fin (of_nat (v * 10 + ?d))"
    by (intro rnd64_nat; simp)+
  then have "integer_digits (b # bs) (Fin (of_nat v)) seen = integer_digits bs (Fin (of_nat (v * 10 + ?d))) True"
    using Cons.prems(1) by (simp add: ffrom_int_def)
  then show ?case using Cons.IH [of "v * 10 + ?d" True] Cons.prems val by simp
qed

lemma decimal_not_Nil [simp]: "decimal n \<noteq> []"
  by (subst decimal.simps) simp

lemma parse_decimal:
  assumes "n < 9007199254740992"
  shows "parseFloatBytes (decimal n) = Some (Fin (of_nat n))"
    and "parseFloatBytes (45 # decimal n) = Some (Fin (- of_nat n))"
proof -
  have "integer_digits (decimal n) (Fin 0) False = (Fin (of_nat n), True, [])"
    using integer_digits_exact [OF decimal_digits, of 0 n False] assms decimal_value_decimal by simp
  moreover have "is_digit (decimal n ! 0)" using decimal_digits [of n] by simp
  then have "decimal n ! 0 \<noteq> 45" by (auto simp: is_digit_def)
  ultimately show "parseFloatBytes (decimal n) = Some (Fin (of_nat n))"
    "parseFloatBytes (45 # decimal n) = Some (Fin (- of_nat n))"
    by (simp_all add: parseFloatBytes_def)
qed

text \<open>A printed number behind its key is read back, whatever follows it.\<close>

lemma numberAfter_decimal:
  assumes "data = pre @ key @ 58 # decimal n @ b # post" "bytes_Index data key = Some (length pre)"
    and "n < 9007199254740992" "\<not> is_digit b" "b \<noteq> 46" "b \<noteq> 45"
  shows "numberAfter data key 0 = Some (Some (Fin (of_nat n)))"
proof -
  let ?number = "\<lambda>b. is_digit b \<or> b = 46 \<or> b = 45"
  define k where "k = length pre + length key"
  have drop_k: "drop k data = 58 # decimal n @ b # post" using assms(1) by (simp add: k_def)
  have "hd (decimal n) \<in> set (decimal n)" by (intro hd_in_set) simp
  then have head: "\<not> skippable (hd (decimal n))" using decimal_digits by (blast dest: digit_not_skippable)
  have "takeWhile skippable (drop k data) = [58]"
    unfolding drop_k using head by (cases "decimal n") (auto simp: skippable_def)
  then have pos: "scan skippable data k = k + 1" by (simp add: scan_takeWhile)
  have drop_pos: "drop (k + 1) data = decimal n @ b # post"
    using drop_k by (metis drop_drop drop0 drop_Suc_Cons plus_1_eq_Suc One_nat_def)
  have "takeWhile ?number (drop (k + 1) data) = decimal n"
    unfolding drop_pos using decimal_digits [of n] assms(4-6) by (simp add: takeWhile_append)
  then have stop: "scan ?number data (k + 1) = k + 1 + length (decimal n)" by (simp add: scan_takeWhile)
  have "slice data (k + 1) (k + 1 + length (decimal n)) = Some (decimal n)"
    using drop_pos assms(1) by (simp add: slice_def k_def)
  then show ?thesis
    using assms(2) pos stop parse_decimal(1) [OF assms(3)]
    by (simp add: numberAfter_def slice_tail Let_def k_def [symmetric])
qed

end
