(* ===== verification/Lb_Framing.thy ===== *)
theory Lb_Framing
  imports Json_Scan
begin

text \<open>
  How the load balancer cuts messages out of a connection (\<open>load-balancer/src/proxy.rs\<close>, in Rust:
  \<open>read_http_message\<close> and the parsing of the header). A connection is the pieces that its reads will return and
  whether it then closes or fails (a timeout or a reset); \<open>usize\<close> has 64 bits. The theorem is that the message
  depends on the bytes alone, not on how they arrive, but for the bytes behind it.
\<close>

subsection \<open>The header\<close>

definition find_header_end :: "u8 list \<Rightarrow> nat option" where
  "find_header_end bytes = bytes_Index bytes [13, 10, 13, 10]"

definition is_ascii_whitespace :: "u8 \<Rightarrow> bool" where
  "is_ascii_whitespace b \<longleftrightarrow> b = 32 \<or> b = 9 \<or> b = 10 \<or> b = 12 \<or> b = 13"

definition to_ascii_lowercase :: "u8 \<Rightarrow> u8" where
  "to_ascii_lowercase b = (if 65 \<le> b \<and> b \<le> 90 then b + 32 else b)"

definition eq_ignore_ascii_case :: "u8 list \<Rightarrow> u8 list \<Rightarrow> bool" where
  "eq_ignore_ascii_case left right \<longleftrightarrow>
     length left = length right \<and> list_all (\<lambda>(a, b). to_ascii_lowercase a = b) (zip left right)"

text \<open>The two loops of \<open>trim_ascii\<close>.\<close>

primrec trim_end :: "u8 list \<Rightarrow> nat \<Rightarrow> nat \<Rightarrow> nat" where
  "trim_end bytes start 0 = 0"
| "trim_end bytes start (Suc e) =
     (if start < Suc e \<and> is_ascii_whitespace (bytes ! e) then trim_end bytes start e else Suc e)"

definition trim_ascii :: "u8 list \<Rightarrow> u8 list" where
  "trim_ascii bytes =
     (let start = scan is_ascii_whitespace bytes 0;
          finish = trim_end bytes start (length bytes)
      in take (finish - start) (drop start bytes))"

definition usize_max :: nat where
  "usize_max = 18446744073709551615"

definition saturate :: "nat \<Rightarrow> nat" where
  "saturate n = min n usize_max"

fun parse_digits :: "u8 list \<Rightarrow> nat \<Rightarrow> nat" where
  "parse_digits [] v = v"
| "parse_digits (byte # bytes) v =
     (if \<not> is_digit byte then 0
      else parse_digits bytes (saturate (saturate (v * 10) + unat (byte - 48))))"

definition parse_usize :: "u8 list \<Rightarrow> nat" where
  "parse_usize bytes = parse_digits bytes 0"

fun split_lines :: "u8 list \<Rightarrow> u8 list list" where
  "split_lines [] = [[]]"
| "split_lines (b # bs) =
     (if b = 10 then [] # split_lines bs
      else case split_lines bs of [] \<Rightarrow> [[b]] | line # lines \<Rightarrow> (b # line) # lines)"

definition strip_cr :: "u8 list \<Rightarrow> u8 list" where
  "strip_cr line = (if line \<noteq> [] \<and> last line = 13 then butlast line else line)"

fun content_length_in :: "u8 list list \<Rightarrow> nat" where
  "content_length_in [] = 0"
| "content_length_in (line # lines) =
     (let line = strip_cr line in
      case bytes_Index line [58] of
        None \<Rightarrow> content_length_in lines
      | Some colon \<Rightarrow>
          if eq_ignore_ascii_case (take colon line) (bytes_of ''content-length'')
          then parse_usize (trim_ascii (drop (colon + 1) line))
          else content_length_in lines)"

definition parse_content_length :: "u8 list \<Rightarrow> nat" where
  "parse_content_length header = content_length_in (split_lines header)"

subsection \<open>Reading a message\<close>

record stream =
  pieces :: "u8 list list"
  closes :: bool

text \<open>The first loop: up to the end of the header; a read of no bytes is the end.\<close>

datatype header_read = HeaderEnd nat "u8 list" "u8 list list" | NoHeader | HeaderFailed

fun header_loop :: "bool \<Rightarrow> u8 list list \<Rightarrow> u8 list \<Rightarrow> header_read" where
  "header_loop closing [] out = (if closing then NoHeader else HeaderFailed)"
| "header_loop closing (piece # rest) out =
     (if piece = [] then NoHeader
      else case find_header_end (out @ piece) of
        None \<Rightarrow> header_loop closing rest (out @ piece)
      | Some e \<Rightarrow> HeaderEnd e (out @ piece) rest)"

text \<open>The second loop: up to the announced length; the end and an error are errors.\<close>

fun body_loop :: "nat \<Rightarrow> nat \<Rightarrow> u8 list list \<Rightarrow> u8 list \<Rightarrow> (u8 list \<times> u8 list list) option" where
  "body_loop body_start content_length [] out =
     (if length out - body_start < content_length then None else Some (out, []))"
| "body_loop body_start content_length (piece # rest) out =
     (if length out - body_start < content_length
      then (if piece = [] then None else body_loop body_start content_length rest (out @ piece))
      else Some (out, piece # rest))"

text \<open>A message and the connection after it, \<open>Ok(false)\<close>, or an error.\<close>

datatype message = Message "u8 list" stream | NoMessage | ReadError

definition read_http_message :: "stream \<Rightarrow> message" where
  "read_http_message st =
     (case header_loop (closes st) (pieces st) [] of
        NoHeader \<Rightarrow> NoMessage
      | HeaderFailed \<Rightarrow> ReadError
      | HeaderEnd header_end out rest \<Rightarrow>
          let body_start = header_end + 4;
              content_length = parse_content_length (take body_start out)
          in (case body_loop body_start content_length rest out of
                None \<Rightarrow> ReadError
              | Some (out, rest) \<Rightarrow> Message out (st\<lparr>pieces := rest\<rparr>)))"

subsection \<open>The header of the bytes that have arrived\<close>

lemma has_prefix_append: "has_prefix a p \<Longrightarrow> has_prefix (a @ b) p"
  by (auto simp: has_prefix_iff)

lemma has_prefix_shorten: "has_prefix (a @ b) p \<Longrightarrow> length p \<le> length a \<Longrightarrow> has_prefix a p"
  by (simp add: has_prefix_def)

lemma bytes_Index_iff:
  assumes "sep \<noteq> []"
  shows "bytes_Index bs sep = Some i \<longleftrightarrow>
    i + length sep \<le> length bs \<and> has_prefix (drop i bs) sep \<and> (\<forall>j < i. \<not> has_prefix (drop j bs) sep)"
proof (intro iffI)
  assume r: "i + length sep \<le> length bs \<and> has_prefix (drop i bs) sep \<and> (\<forall>j < i. \<not> has_prefix (drop j bs) sep)"
  show "bytes_Index bs sep = Some i"
  proof (cases "bytes_Index bs sep")
    case None
    from bytes_Index_None [OF None, of i] r show ?thesis by simp
  next
    case (Some k)
    from bytes_Index_Some [OF Some] r show ?thesis by (metis Some linorder_neqE_nat)
  qed
qed (rule bytes_Index_Some)

text \<open>More bytes do not move an end that was found, and the end is found with its last byte.\<close>

lemma find_header_end_bound: "find_header_end a = Some e \<Longrightarrow> e + 4 \<le> length a"
  unfolding find_header_end_def by (drule bytes_Index_Some) simp

lemma find_header_end_append: "find_header_end a = Some e \<Longrightarrow> find_header_end (a @ b) = Some e"
proof -
  assume "find_header_end a = Some e"
  then have e: "e + 4 \<le> length a" "has_prefix (drop e a) [13, 10, 13, 10]" "\<forall>j < e. \<not> has_prefix (drop j a) [13, 10, 13, 10]"
    by (simp_all add: find_header_end_def bytes_Index_iff)
  have "\<not> has_prefix (drop j (a @ b)) [13, 10, 13, 10]" if "j < e" for j
  proof
    assume "has_prefix (drop j (a @ b)) [13, 10, 13, 10]"
    then have "has_prefix (drop j a @ drop (j - length a) b) [13, 10, 13, 10]" by simp
    then have "has_prefix (drop j a) [13, 10, 13, 10]" by (rule has_prefix_shorten) (use that e(1) in simp)
    with e(3) that show False by blast
  qed
  with e show ?thesis by (simp add: find_header_end_def bytes_Index_iff has_prefix_append)
qed

lemma find_header_end_prefix:
  assumes "find_header_end (a @ b) = Some e" "e + 4 \<le> length a"
  shows "find_header_end a = Some e"
proof -
  have r: "has_prefix (drop e (a @ b)) [13, 10, 13, 10]" "\<forall>j < e. \<not> has_prefix (drop j (a @ b)) [13, 10, 13, 10]"
    using assms(1) by (simp_all add: find_header_end_def bytes_Index_iff)
  have "has_prefix (drop e a) [13, 10, 13, 10]" using r(1) assms(2) by (auto intro: has_prefix_shorten)
  moreover have "\<not> has_prefix (drop j a) [13, 10, 13, 10]" if "j < e" for j
    using r(2) that has_prefix_append [of "drop j a" _ "drop (j - length a) b"] by auto
  ultimately show ?thesis using assms(2) by (simp add: find_header_end_def bytes_Index_iff)
qed

subsection \<open>Where a message ends\<close>

text \<open>The length of the first message of some bytes, once its header is there.\<close>

definition message_size :: "u8 list \<Rightarrow> nat option" where
  "message_size data =
     (case find_header_end data of
        None \<Rightarrow> None
      | Some e \<Rightarrow> Some (e + 4 + parse_content_length (take (e + 4) data)))"

definition complete :: "u8 list \<Rightarrow> bool" where
  "complete data \<longleftrightarrow> (\<exists>m. message_size data = Some m \<and> m \<le> length data)"

text \<open>The pieces are taken one by one until \<open>m\<close> bytes are there.\<close>

definition fewest_pieces :: "u8 list list \<Rightarrow> nat \<Rightarrow> u8 list \<Rightarrow> u8 list list \<Rightarrow> bool" where
  "fewest_pieces ps m out rest \<longleftrightarrow>
     (\<exists>before piece. ps = before @ piece # rest \<and> out = concat before @ piece \<and>
       length (concat before) < m \<and> m \<le> length out)"

lemma header_loop_spec:
  assumes "find_header_end out = None" "[] \<notin> set ps"
  shows "case header_loop closing ps out of
      HeaderEnd e out' rest \<Rightarrow> find_header_end (out @ concat ps) = Some e \<and>
        (\<exists>before piece. ps = before @ piece # rest \<and> out' = out @ concat before @ piece \<and>
          length (out @ concat before) < e + 4 \<and> e + 4 \<le> length out')
    | NoHeader \<Rightarrow> closing \<and> find_header_end (out @ concat ps) = None
    | HeaderFailed \<Rightarrow> \<not> closing \<and> find_header_end (out @ concat ps) = None"
  using assms
proof (induction ps arbitrary: out)
  case Nil
  then show ?case by simp
next
  case (Cons p ps)
  then have p: "p \<noteq> []" by auto
  show ?case
  proof (cases "find_header_end (out @ p)")
    case None
    with Cons.IH [of "out @ p"] Cons.prems(2) p show ?thesis
      by (fastforce split: header_read.splits intro: exI [of _ "p # _"])
  next
    case (Some e)
    have "length out < e + 4"
    proof (rule ccontr)
      assume "\<not> length out < e + 4"
      with find_header_end_prefix [OF Some] Cons.prems(1) show False by simp
    qed
    moreover have "e + 4 \<le> length (out @ p)" using Some by (rule find_header_end_bound)
    moreover have "find_header_end (out @ concat (p # ps)) = Some e"
      using find_header_end_append [OF Some, of "concat ps"] by simp
    ultimately show ?thesis using Some p by (auto intro!: exI [of _ "[]"])
  qed
qed

lemma body_loop_spec:
  assumes "[] \<notin> set ps" "start \<le> length out"
  shows "case body_loop start n ps out of
      Some (out', rest) \<Rightarrow> start + n \<le> length out' \<and>
        ((out' = out \<and> rest = ps) \<or>
         (\<exists>before piece. ps = before @ piece # rest \<and> out' = out @ concat before @ piece \<and>
           length (out @ concat before) < start + n))
    | None \<Rightarrow> length (out @ concat ps) < start + n"
  using assms
proof (induction ps arbitrary: out)
  case Nil
  then show ?case by auto
next
  case (Cons p ps)
  show ?case
  proof (cases "length out - start < n")
    case False
    with Cons.prems(2) show ?thesis by auto
  next
    case True
    with Cons.prems Cons.IH [of "out @ p"] show ?thesis
    proof (cases "body_loop start n ps (out @ p)")
      case None
      with True Cons.prems Cons.IH [of "out @ p"] show ?thesis by auto
    next
      case (Some r)
      obtain out' rest where r: "r = (out', rest)" by fastforce
      have p: "p \<noteq> []" using Cons.prems(1) by auto
      have l: "body_loop start n (p # ps) out = Some (out', rest)" using True p Some r by simp
      from Cons.IH [of "out @ p"] Cons.prems Some r have
        ih: "start + n \<le> length out'" "(out' = out @ p \<and> rest = ps) \<or>
          (\<exists>before piece. ps = before @ piece # rest \<and> out' = (out @ p) @ concat before @ piece \<and>
            length ((out @ p) @ concat before) < start + n)" by auto
      have "\<exists>before piece. p # ps = before @ piece # rest \<and> out' = out @ concat before @ piece \<and>
          length (out @ concat before) < start + n"
        using ih(2)
      proof (elim disjE exE conjE)
        assume "out' = out @ p" "rest = ps"
        then show ?thesis using True Cons.prems(2) by (intro exI [of _ "[]"] exI [of _ p]) auto
      next
        fix before piece assume "ps = before @ piece # rest" "out' = (out @ p) @ concat before @ piece"
          "length ((out @ p) @ concat before) < start + n"
        then show ?thesis by (intro exI [of _ "p # before"] exI [of _ piece]) auto
      qed
      with ih(1) show ?thesis unfolding l by simp
    qed
  qed
qed

lemma no_header_yet: "find_header_end [] = None"
  by (simp add: find_header_end_def)

lemma message_size_prefix:
  assumes "find_header_end (a @ b) = Some e" "e + 4 \<le> length a"
  shows "message_size (a @ b) = Some (e + 4 + parse_content_length (take (e + 4) a))"
  using assms by (simp add: message_size_def)

text \<open>A message is read exactly when it has arrived in full, with as few reads as hold it.\<close>

lemma read_http_message_spec:
  assumes "[] \<notin> set (pieces st)"
  shows "case read_http_message st of
      Message out st' \<Rightarrow> closes st' = closes st \<and>
        (\<exists>m. message_size (concat (pieces st)) = Some m \<and> fewest_pieces (pieces st) m out (pieces st'))
    | _ \<Rightarrow> \<not> complete (concat (pieces st))"
proof -
  let ?data = "concat (pieces st)"
  have h: "case header_loop (closes st) (pieces st) [] of
      HeaderEnd e out' rest \<Rightarrow> find_header_end ?data = Some e \<and>
        (\<exists>before piece. pieces st = before @ piece # rest \<and> out' = concat before @ piece \<and>
          length (concat before) < e + 4 \<and> e + 4 \<le> length out')
    | NoHeader \<Rightarrow> closes st \<and> find_header_end ?data = None
    | HeaderFailed \<Rightarrow> \<not> closes st \<and> find_header_end ?data = None"
    using header_loop_spec [OF no_header_yet assms, of "closes st"] unfolding append_Nil .
  show ?thesis
  proof (cases "header_loop (closes st) (pieces st) []")
    case (HeaderEnd e out rest)
    with h obtain before piece where f: "find_header_end ?data = Some e" and p: "pieces st = before @ piece # rest"
      "out = concat before @ piece" "length (concat before) < e + 4" "e + 4 \<le> length out" by auto
    define n where "n = parse_content_length (take (e + 4) out)"
    have data: "?data = out @ concat rest" using p(1,2) by simp
    have size: "message_size ?data = Some (e + 4 + n)"
      unfolding data n_def using f p(4) by (intro message_size_prefix) (simp_all add: data)
    have "[] \<notin> set rest" using assms p(1) by auto
    note b = body_loop_spec [OF this p(4), of n]
    show ?thesis
    proof (cases "body_loop (e + 4) n rest out")
      case None
      then have r: "read_http_message st = ReadError" using HeaderEnd by (simp add: read_http_message_def n_def)
      from b None have "length ?data < e + 4 + n" unfolding data by simp
      then show ?thesis unfolding r by (simp add: complete_def size)
    next
      case (Some r)
      obtain out' rest' where r: "r = (out', rest')" by fastforce
      have m: "read_http_message st = Message out' (st\<lparr>pieces := rest'\<rparr>)"
        using HeaderEnd Some r by (simp add: read_http_message_def n_def)
      have "fewest_pieces (pieces st) (e + 4 + n) out' rest'"
        using b [unfolded Some r, simplified]
      proof (elim conjE disjE exE)
        assume "e + 4 + n \<le> length out'" "out' = out" "rest' = rest"
        then show ?thesis using p unfolding fewest_pieces_def by (intro exI [of _ before] exI [of _ piece]) auto
      next
        fix before' piece' assume l: "e + 4 + n \<le> length out'" "rest = before' @ piece' # rest'"
          "out' = out @ concat before' @ piece'" "length out + length (concat before') < e + 4 + n"
        then show ?thesis using p unfolding fewest_pieces_def
          by (intro exI [of _ "before @ piece # before'"] exI [of _ piece']) auto
      qed
      then show ?thesis by (simp add: m size)
    qed
  next
    case NoHeader
    with h show ?thesis by (simp add: read_http_message_def complete_def message_size_def)
  next
    case HeaderFailed
    with h show ?thesis by (simp add: read_http_message_def complete_def message_size_def)
  qed
qed

text \<open>So the cuts do not matter to a message that comes in reads of its own.\<close>

definition whole :: "u8 list \<Rightarrow> bool" where
  "whole bytes \<longleftrightarrow> message_size bytes = Some (length bytes)"

lemma message_size_append: "message_size a = Some m \<Longrightarrow> message_size (a @ b) = Some m"
proof -
  assume m: "message_size a = Some m"
  then obtain e where e: "find_header_end a = Some e" by (auto simp: message_size_def split: option.splits)
  from find_header_end_append [OF e] find_header_end_bound [OF e] have "message_size (a @ b) = message_size a"
    by (simp add: message_size_def e)
  with m show ?thesis by simp
qed

lemma concat_pieces_Nil: "[] \<notin> set ps \<Longrightarrow> concat ps = [] \<Longrightarrow> ps = []"
  by (cases ps) auto

lemma fewest_pieces_unique:
  assumes "fewest_pieces (g @ rest) (length (concat g)) out rest'" "[] \<notin> set g"
  shows "out = concat g" "rest' = rest"
proof -
  obtain before piece where p: "g @ rest = (before @ [piece]) @ rest'" "out = concat before @ piece"
    "length (concat before) < length (concat g)" "length (concat g) \<le> length out"
    using assms(1) by (auto simp: fewest_pieces_def)
  from p(1) obtain us where "(g = (before @ [piece]) @ us \<and> us @ rest = rest') \<or> (g @ us = before @ [piece] \<and> rest = us @ rest')"
    unfolding append_eq_append_conv2 by blast
  then have "g = before @ [piece] \<and> rest' = rest"
  proof (elim disjE conjE)
    assume g: "g = (before @ [piece]) @ us" "us @ rest = rest'"
    with p(2,4) have "concat us = []" by simp
    moreover have "[] \<notin> set us" using assms(2) g(1) by auto
    ultimately have "us = []" by (intro concat_pieces_Nil)
    with g show ?thesis by simp
  next
    assume g: "g @ us = before @ [piece]" "rest = us @ rest'"
    show ?thesis
    proof (cases us rule: rev_cases)
      case Nil
      with g show ?thesis by simp
    next
      case (snoc vs v)
      with g(1) have "g @ vs = before" by simp
      then have "length (concat g) \<le> length (concat before)" by auto
      with p(3) show ?thesis by simp
    qed
  qed
  then show "out = concat g" "rest' = rest" using p(2) by auto
qed

lemma read_whole_message:
  assumes "pieces st = g @ rest" "[] \<notin> set (pieces st)" "whole (concat g)"
  shows "read_http_message st = Message (concat g) (st\<lparr>pieces := rest\<rparr>)"
proof -
  have m: "message_size (concat (pieces st)) = Some (length (concat g))"
    using assms(1,3) message_size_append by (simp add: whole_def)
  then have c: "complete (concat (pieces st))" using assms(1) by (simp add: complete_def)
  show ?thesis
  proof (cases "read_http_message st")
    case (Message out st')
    with read_http_message_spec [OF assms(2)] m assms(1) have f: "closes st' = closes st"
      "fewest_pieces (g @ rest) (length (concat g)) out (pieces st')" by auto
    have "[] \<notin> set g" using assms(1,2) by auto
    from fewest_pieces_unique [OF f(2) this] f(1) Message show ?thesis by (auto intro: stream.equality)
  qed (use c read_http_message_spec [OF assms(2)] in auto)
qed

text \<open>A message takes at least one piece.\<close>

lemma header_loop_shorter: "header_loop closing ps out = HeaderEnd e out' rest \<Longrightarrow> length rest < length ps"
  by (induction closing ps out rule: header_loop.induct) (auto split: if_splits option.splits)

lemma body_loop_shorter: "body_loop start n ps out = Some (out', rest) \<Longrightarrow> length rest \<le> length ps"
  by (induction start n ps out rule: body_loop.induct) (auto split: if_splits)

lemma read_http_message_shorter:
  "read_http_message st = Message out st' \<Longrightarrow> length (pieces st') < length (pieces st)"
  by (auto simp: read_http_message_def Let_def split: header_read.splits option.splits
      dest!: header_loop_shorter body_loop_shorter)

end
