(* ===== verification/Go_Strings.thy ===== *)
theory Go_Strings
  imports Prelude
begin

text \<open>
  The functions on strings that the command lines and the configurations use, in Go and in Rust. A string
  is the list of its bytes.
\<close>

text \<open>\<open>strings.TrimSpace\<close>: the white space of Unicode, in its UTF-8 bytes.\<close>

definition white_runes :: "string list" where
  "white_runes = map (map char_of)
     ([[9], [10], [11], [12], [13], [32], [0xC2, 0x85], [0xC2, 0xA0], [0xE1, 0x9A, 0x80]] @
      map (\<lambda>b. [0xE2, 0x80, b]) [0x80..<0x8B] @
      [[0xE2, 0x80, 0xA8], [0xE2, 0x80, 0xA9], [0xE2, 0x80, 0xAF], [0xE2, 0x81, 0x9F], [0xE3, 0x80, 0x80 :: nat]])"

function strip :: "string list \<Rightarrow> string \<Rightarrow> string" where
  "strip runes s =
     (case find (\<lambda>w. w \<noteq> [] \<and> take (length w) s = w) runes of
        None \<Rightarrow> s
      | Some w \<Rightarrow> strip runes (drop (length w) s))"
  by pat_completeness auto
termination
proof (relation "measure (\<lambda>(runes, s). length s)")
  fix runes s w assume "find (\<lambda>w. w \<noteq> [] \<and> take (length w) s = w) runes = Some (w :: string)"
  then have "w \<noteq> []" "take (length w) s = w" by (auto simp: find_Some_iff)
  then have "0 < length w" "s \<noteq> []" by auto
  then show "((runes, drop (length w) s), (runes, s)) \<in> measure (\<lambda>(runes, s). length s)" by simp
qed simp

declare strip.simps [simp del]

definition TrimSpace :: "string \<Rightarrow> string" where
  "TrimSpace s = rev (strip (map rev white_runes) (rev (strip white_runes s)))"

text \<open>\<open>strings.Split\<close> at a byte.\<close>

fun Split :: "string \<Rightarrow> char \<Rightarrow> string list" where
  "Split [] sep = ['''']"
| "Split (c # s) sep =
     (if c = sep then '''' # Split s sep
      else case Split s sep of [] \<Rightarrow> [[c]] | part # parts \<Rightarrow> (c # part) # parts)"

text \<open>What is left has no white space at its ends.\<close>

lemma strip_stops: "\<forall>w \<in> set runes. w \<noteq> [] \<longrightarrow> take (length w) (strip runes s) \<noteq> w"
proof (induction runes s rule: strip.induct)
  case (1 runes s)
  show ?case
  proof (cases "find (\<lambda>w. w \<noteq> [] \<and> take (length w) s = w) runes")
    case None
    then have "strip runes s = s" by (subst strip.simps) simp
    with None show ?thesis by (auto simp: find_None_iff)
  next
    case (Some w)
    with 1 show ?thesis by (subst strip.simps) simp
  qed
qed

lemma strip_Nil: "strip runes [] = []"
proof -
  have "find (\<lambda>w. w \<noteq> [] \<and> take (length w) [] = w) runes = None" by (auto simp: find_None_iff)
  then show ?thesis by (subst strip.simps) simp
qed

lemma Split_not_Nil [simp]: "Split s sep \<noteq> []"
  by (induction s) (auto split: list.split)

text \<open>Splitting undoes joining.\<close>

lemma Split_append: "sep \<notin> set part \<Longrightarrow> Split (part @ sep # s) sep = part # Split s sep"
  by (induction part) auto

lemma Split_free: "sep \<notin> set part \<Longrightarrow> Split part sep = [part]"
  by (induction part) auto

end
