(* ===== verification/Lb_Proxy.thy ===== *)
theory Lb_Proxy
  imports Lb_Framing Go_Strings
begin

text \<open>
  The load balancer (\<open>load-balancer/src/\<close>, in Rust): its configuration, the round robin, the pools of upstream
  connections and the proxy loop. An upstream is the connections it will still accept (\<open>None\<close>: the attempt fails or
  times out), each with its reactions to what is written. The lock of a pool and the atomic counter make each operation one step; a client is
  served from one message to the next as one sequence of such steps. Sockets, timers and the runtime are left out.
\<close>

subsection \<open>Configuration\<close>

record lb_config =
  bind_addr :: string
  upstream_addrs :: "string list"
  pool_size :: nat

text \<open>\<open>str::parse::<usize>\<close>.\<close>

definition parse_usize_str :: "string \<Rightarrow> nat option" where
  "parse_usize_str s =
     (let digits = (if s \<noteq> '''' \<and> hd s = CHR ''+'' then tl s else s);
          value = foldl (\<lambda>n c. n * 10 + (of_char c - 48)) 0 digits
      in if digits = '''' \<or> \<not> list_all (\<lambda>c. 48 \<le> (of_char c :: nat) \<and> (of_char c :: nat) \<le> 57) digits \<or>
            value > usize_max then None else Some value)"

text \<open>\<open>Config::from_env\<close>; \<open>None\<close> is the panic. An unset variable is \<open>None\<close> in the environment.\<close>

definition from_env :: "(string \<Rightarrow> string option) \<Rightarrow> lb_config option" where
  "from_env env =
     (let upstreams = filter (\<lambda>value. value \<noteq> '''') (map TrimSpace (Split
            (case env ''UPSTREAMS'' of None \<Rightarrow> ''api1:8080,api2:8080'' | Some value \<Rightarrow> value) (CHR '','')))
      in if upstreams = [] then None
         else Some \<lparr>bind_addr = (case env ''BIND_ADDR'' of None \<Rightarrow> ''0.0.0.0:9999'' | Some value \<Rightarrow> value),
           upstream_addrs = upstreams,
           pool_size = (case env ''UPSTREAM_POOL_SIZE'' of None \<Rightarrow> 32
             | Some value \<Rightarrow> (case parse_usize_str value of None \<Rightarrow> 32 | Some n \<Rightarrow> n))\<rparr>)"

subsection \<open>Round robin\<close>

record RoundRobin =
  upstream_count :: u64
  next_upstream :: u64

definition new_RoundRobin :: "u64 \<Rightarrow> RoundRobin option" where
  "new_RoundRobin count = (if count > 0 then Some \<lparr>upstream_count = count, next_upstream = 0\<rparr> else None)"

text \<open>\<open>fetch_add\<close> wraps around.\<close>

definition rr_next :: "RoundRobin \<Rightarrow> u64 \<times> RoundRobin" where
  "rr_next rr =
     (let value = next_upstream rr; rr' = rr\<lparr>next_upstream := value + 1\<rparr>
      in (if upstream_count rr = 2 then value AND 1 else value mod upstream_count rr, rr'))"

subsection \<open>Pools of connections\<close>

text \<open>A connection to an upstream: what has been written on it and what has come back and is not read yet. The upstream
  is the function from all that was written to the pieces it sends after the last write.\<close>

record conn =
  conn_writable :: bool
  incoming :: stream
  sent :: "u8 list list"
  reacts :: "u8 list list \<Rightarrow> u8 list list"

definition write_request :: "u8 list \<Rightarrow> conn \<Rightarrow> conn" where
  "write_request request c =
     (let sent = sent c @ [request]
      in c\<lparr>sent := sent, incoming := (incoming c)\<lparr>pieces := pieces (incoming c) @ reacts c sent\<rparr>\<rparr>)"

text \<open>The address of an upstream: a socket path, or the first address that a name resolves to; the resolver is
  an argument. \<open>None\<close> is an error.\<close>

datatype 'addr UpstreamEndpoint = Tcp 'addr | Unix string

definition upstream_endpoint :: "(string \<Rightarrow> 'addr list option) \<Rightarrow> string \<Rightarrow> 'addr UpstreamEndpoint option" where
  "upstream_endpoint resolve addr =
     (if take 7 addr = ''unix://'' then Some (Unix (drop 7 addr))
      else case resolve addr of
        None \<Rightarrow> None
      | Some [] \<Rightarrow> None
      | Some (a # _) \<Rightarrow> Some (Tcp a))"

text \<open>\<open>received\<close> are the requests that were written to the upstream, on any of its connections.\<close>

record UpstreamPool =
  idle_conns :: "conn list"
  max_idle :: nat
  accepts_next :: "conn option list"
  received :: "u8 list list"

definition acquire :: "UpstreamPool \<Rightarrow> conn option \<times> UpstreamPool" where
  "acquire pool =
     (if idle_conns pool \<noteq> [] then
        (Some (last (idle_conns pool)), pool\<lparr>idle_conns := butlast (idle_conns pool)\<rparr>)
      else case accepts_next pool of
        [] \<Rightarrow> (None, pool)
      | c # cs \<Rightarrow> (c, pool\<lparr>accepts_next := cs\<rparr>))"

definition release :: "conn \<Rightarrow> UpstreamPool \<Rightarrow> UpstreamPool" where
  "release c pool =
     (if length (idle_conns pool) < max_idle pool then pool\<lparr>idle_conns := idle_conns pool @ [c]\<rparr> else pool)"

definition clear_idle :: "UpstreamPool \<Rightarrow> UpstreamPool" where
  "clear_idle pool = pool\<lparr>idle_conns := []\<rparr>"

subsection \<open>Forwarding\<close>

record Proxy =
  upstreams :: "UpstreamPool list"
  balancer :: RoundRobin

definition new_Proxy :: "UpstreamPool list \<Rightarrow> Proxy option" where
  "new_Proxy pools = map_option (\<lambda>rr. \<lparr>upstreams = pools, balancer = rr\<rparr>) (new_RoundRobin (of_nat (length pools)))"

text \<open>One attempt at an upstream: the response, or an error; a connection that failed is dropped.\<close>

definition forward_once :: "u8 list \<Rightarrow> UpstreamPool \<Rightarrow> u8 list option \<times> UpstreamPool" where
  "forward_once request pool =
     (case acquire pool of
        (None, pool) \<Rightarrow> (None, pool)
      | (Some c, pool) \<Rightarrow>
          if \<not> conn_writable c then (None, pool)
          else
            let pool = pool\<lparr>received := received pool @ [request]\<rparr>;
                c = write_request request c
            in case read_http_message (incoming c) of
              Message response rest \<Rightarrow> (Some response, release (c\<lparr>incoming := rest\<rparr>) pool)
            | NoMessage \<Rightarrow> (None, pool)
            | ReadError \<Rightarrow> (None, pool))"

fun try_upstreams :: "u8 list \<Rightarrow> nat list \<Rightarrow> nat \<Rightarrow> UpstreamPool list \<Rightarrow> u8 list option \<times> UpstreamPool list" where
  "try_upstreams request [] first pools = (None, pools)"
| "try_upstreams request (offset # offsets) first pools =
     (let upstream_idx = (first + offset) mod length pools in
      case forward_once request (pools ! upstream_idx) of
        (Some response, pool) \<Rightarrow> (Some response, pools[upstream_idx := pool])
      | (None, pool) \<Rightarrow> try_upstreams request offsets first (pools[upstream_idx := clear_idle pool]))"

definition forward_with_retry :: "u8 list \<Rightarrow> Proxy \<Rightarrow> u8 list option \<times> Proxy" where
  "forward_with_retry request p =
     (case rr_next (balancer p) of (first, rr) \<Rightarrow>
      case try_upstreams request [0..<length (upstreams p)] (unat first) (upstreams p) of (response, pools) \<Rightarrow>
        (response, p\<lparr>upstreams := pools, balancer := rr\<rparr>))"

definition BAD_GATEWAY :: "u8 list" where
  "BAD_GATEWAY = bytes_of ''HTTP/1.1 502 Bad Gateway'' @ [13, 10] @ bytes_of ''Content-Length: 0'' @ [13, 10] @
     bytes_of ''Connection: close'' @ [13, 10, 13, 10]"

text \<open>The loop over the requests of a client: the responses that were written to it. The \<open>n\<close>-th write to the
  client succeeds or not.\<close>

function handle_client :: "(nat \<Rightarrow> bool) \<Rightarrow> nat \<Rightarrow> stream \<Rightarrow> Proxy \<Rightarrow> u8 list list \<times> Proxy" where
  "handle_client write_ok n client p =
     (case read_http_message client of
        Message request rest \<Rightarrow>
          (case forward_with_retry request p of
             (None, p) \<Rightarrow> (if write_ok n then [BAD_GATEWAY] else [], p)
           | (Some response, p) \<Rightarrow>
               if write_ok n then apfst ((#) response) (handle_client write_ok (n + 1) rest p) else ([], p))
      | NoMessage \<Rightarrow> ([], p)
      | ReadError \<Rightarrow> ([], p))"
  by pat_completeness auto
termination
  by (relation "measure (\<lambda>(write_ok, n, client, p). length (pieces client))") (auto dest: read_http_message_shorter)

declare handle_client.simps [simp del]

subsection \<open>The round robin is fair\<close>

fun rr_choices :: "RoundRobin \<Rightarrow> nat \<Rightarrow> nat list" where
  "rr_choices rr 0 = []"
| "rr_choices rr (Suc n) = (case rr_next rr of (value, rr') \<Rightarrow> unat value # rr_choices rr' n)"

lemma rr_next_choice:
  assumes "0 < upstream_count rr"
  shows "unat (fst (rr_next rr)) = unat (next_upstream rr) mod unat (upstream_count rr)"
    "snd (rr_next rr) = rr\<lparr>next_upstream := next_upstream rr + 1\<rparr>"
proof -
  have "unat (w AND 1) = unat w mod 2" for w :: u64 by (simp add: and_one_eq unat_mod)
  then show "unat (fst (rr_next rr)) = unat (next_upstream rr) mod unat (upstream_count rr)"
    by (simp add: rr_next_def Let_def unat_mod)
  show "snd (rr_next rr) = rr\<lparr>next_upstream := next_upstream rr + 1\<rparr>" by (simp add: rr_next_def Let_def)
qed

text \<open>While the counter does not wrap around, or when its wrap-around is a multiple of the count, the choices go
  round.\<close>

lemma rr_choices_mod:
  assumes "0 < upstream_count rr"
    and "unat (next_upstream rr) + n \<le> 2 ^ 64 \<or> unat (upstream_count rr) dvd 2 ^ 64"
  shows "rr_choices rr n = map (\<lambda>i. (unat (next_upstream rr) + i) mod unat (upstream_count rr)) [0..<n]"
  using assms
proof (induction n arbitrary: rr)
  case 0
  then show ?case by simp
next
  case (Suc n)
  let ?c = "unat (upstream_count rr)" and ?v = "unat (next_upstream rr)"
  let ?rr = "rr\<lparr>next_upstream := next_upstream rr + 1\<rparr>"
  have step: "rr_choices rr (Suc n) = ?v mod ?c # rr_choices ?rr n"
    using rr_next_choice [OF Suc.prems(1)] by (simp add: case_prod_beta)
  have w: "unat (next_upstream rr + 1) = (?v + 1) mod 2 ^ 64" by (simp add: unat_word_ariths)
  have "rr_choices ?rr n = map (\<lambda>i. (Suc ?v + i) mod ?c) [0..<n]"
  proof (cases "n = 0")
    case False
    have "unat (next_upstream ?rr) + n \<le> 2 ^ 64 \<or> unat (upstream_count ?rr) dvd 2 ^ 64"
      using Suc.prems(2) by (auto simp: w intro: le_trans [OF add_le_mono1 [OF mod_less_eq_dividend]])
    with Suc.IH [of ?rr] Suc.prems(1) have ih: "rr_choices ?rr n = map (\<lambda>i. (unat (next_upstream ?rr) + i) mod ?c) [0..<n]" by simp
    have "(unat (next_upstream ?rr) + i) mod ?c = (Suc ?v + i) mod ?c" for i
      using Suc.prems(2)
    proof
      assume "?v + Suc n \<le> 2 ^ 64"
      with False have "(?v + 1) mod 2 ^ 64 = Suc ?v" by simp
      then show ?thesis using w by simp
    next
      assume "?c dvd 2 ^ 64"
      then have "(?v + 1) mod 2 ^ 64 mod ?c = (?v + 1) mod ?c" by (rule mod_mod_cancel)
      then have "unat (next_upstream ?rr) mod ?c = Suc ?v mod ?c" using w by simp
      then show ?thesis by (rule mod_add_cong) simp
    qed
    with ih show ?thesis by simp
  qed simp
  with step show ?case
    by (simp add: map_upt_Suc del: upt_Suc)
qed

lemma rounds_count:
  assumes "j < c"
  shows "count_list (map (\<lambda>i. i mod c) [0..<m * c]) j = m"
proof (induction m)
  case 0
  then show ?case by simp
next
  case (Suc m)
  have "Suc m * c = m * c + c" by simp
  then have "[0..<Suc m * c] = [0..<m * c] @ map ((+) (m * c)) [0..<c]"
    using upt_add_eq_append [of 0 "m * c" c] by (simp only: map_add_upt)
  then have "map (\<lambda>i. i mod c) [0..<Suc m * c] = map (\<lambda>i. i mod c) [0..<m * c] @ [0..<c]"
    by (auto simp: comp_def intro!: map_idI)
  moreover have "count_list [0..<c] j = 1"
    using assms by (simp add: count_list_eq_length_filter distinct_length_filter)
  ultimately show ?case using Suc by simp
qed

subsection \<open>Pools stay within their bound\<close>

definition pool_ok :: "UpstreamPool \<Rightarrow> bool" where
  "pool_ok pool \<longleftrightarrow> length (idle_conns pool) \<le> max_idle pool"

lemma acquire_ok': "pool_ok pool \<Longrightarrow> acquire pool = (c, pool') \<Longrightarrow> pool_ok pool' \<and> max_idle pool' = max_idle pool \<and> received pool' = received pool"
  by (auto simp: acquire_def pool_ok_def split: if_splits list.splits)

lemma forward_once_pool:
  assumes "forward_once request pool = (r, pool')"
  shows "pool_ok pool \<Longrightarrow> pool_ok pool'" "max_idle pool' = max_idle pool"
    "received pool' = received pool \<or> received pool' = received pool @ [request]"
    "r \<noteq> None \<Longrightarrow> received pool' = received pool @ [request]"
  using assms
  by (auto simp: forward_once_def acquire_def release_def pool_ok_def Let_def split: prod.splits if_splits option.splits message.splits list.splits)

lemma clear_idle_simps [simp]:
  "idle_conns (clear_idle pool) = []" "max_idle (clear_idle pool) = max_idle pool" "received (clear_idle pool) = received pool"
  "accepts_next (clear_idle pool) = accepts_next pool" "pool_ok (clear_idle pool)"
  by (simp_all add: clear_idle_def pool_ok_def)

text \<open>Also when the tasks of several clients interleave on a pool.\<close>

datatype pool_op = AcquireOp | ReleaseOp conn | ClearOp

fun apply_op :: "pool_op \<Rightarrow> UpstreamPool \<Rightarrow> UpstreamPool" where
  "apply_op AcquireOp pool = snd (acquire pool)"
| "apply_op (ReleaseOp c) pool = release c pool"
| "apply_op ClearOp pool = clear_idle pool"

lemma pool_ops_bounded: "pool_ok pool \<Longrightarrow> pool_ok (fold apply_op ops pool) \<and> max_idle (fold apply_op ops pool) = max_idle pool"
proof (induction ops arbitrary: pool)
  case (Cons op ops)
  have "pool_ok (apply_op op pool) \<and> max_idle (apply_op op pool) = max_idle pool"
    using Cons.prems by (cases op) (auto simp: acquire_def release_def pool_ok_def split: list.split)
  with Cons.IH show ?case by simp
qed simp

lemma update_pools:
  assumes "list_all pool_ok pools" "i < length pools \<longrightarrow> pool_ok q \<and> max_idle q = max_idle (pools ! i)"
  shows "list_all pool_ok (pools[i := q])" "map max_idle (pools[i := q]) = map max_idle pools"
  using assms
  by (cases "i < length pools"; auto simp: list_all_length nth_list_update map_update intro!: nth_equalityI)+

lemma try_upstreams_pools:
  "try_upstreams request offsets first pools = (r, pools') \<Longrightarrow> list_all pool_ok pools \<Longrightarrow>
     list_all pool_ok pools' \<and> map max_idle pools' = map max_idle pools"
proof (induction request offsets first pools arbitrary: pools' rule: try_upstreams.induct)
  case (1 request first pools)
  then show ?case by simp
next
  case (2 request offset offsets first pools)
  let ?i = "(first + offset) mod length pools"
  obtain r1 pool where f: "forward_once request (pools ! ?i) = (r1, pool)" by fastforce
  note fp = forward_once_pool [OF f]
  note upd = update_pools [OF "2.prems"(2), of ?i]
  show ?case
  proof (cases r1)
    case None
    have q: "list_all pool_ok (pools[?i := clear_idle pool])" "map max_idle (pools[?i := clear_idle pool]) = map max_idle pools"
      using upd [of "clear_idle pool"] fp(2) by auto
    from "2.IH" [OF refl f [symmetric] None] "2.prems"(1) q f None show ?thesis by (simp add: Let_def)
  next
    case (Some response)
    have "?i < length pools \<longrightarrow> pool_ok pool \<and> max_idle pool = max_idle (pools ! ?i)"
      using fp(1,2) "2.prems"(2) by (auto simp: list_all_length)
    with upd [of pool] "2.prems"(1) f Some show ?thesis by (simp add: Let_def)
  qed
qed

definition proxy_ok :: "Proxy \<Rightarrow> bool" where
  "proxy_ok p \<longleftrightarrow> list_all pool_ok (upstreams p)"

lemma forward_with_retry_ok:
  assumes "forward_with_retry request p = (r, p')" "proxy_ok p"
  shows "proxy_ok p' \<and> map max_idle (upstreams p') = map max_idle (upstreams p)"
  using assms try_upstreams_pools
  by (fastforce simp: forward_with_retry_def proxy_ok_def split: prod.splits)

lemma handle_client_ok:
  "handle_client write_ok n client p = (rs, p') \<Longrightarrow> proxy_ok p \<Longrightarrow>
     proxy_ok p' \<and> map max_idle (upstreams p') = map max_idle (upstreams p)"
proof (induction write_ok n client p arbitrary: rs p' rule: handle_client.induct)
  case (1 write_ok n client p)
  show ?case
  proof (cases "read_http_message client")
    case (Message request rest)
    obtain r q where f: "forward_with_retry request p = (r, q)" by fastforce
    note q = forward_with_retry_ok [OF f "1.prems"(2)]
    show ?thesis
    proof (cases r)
      case None
      with "1.prems"(1) q Message f show ?thesis by (simp add: handle_client.simps split: if_splits)
    next
      case (Some response)
      show ?thesis
      proof (cases "write_ok n")
        case True
        obtain rs' p'' where h: "handle_client write_ok (n + 1) rest q = (rs', p'')" by fastforce
        from "1.IH" [OF Message f [symmetric] Some True h] q
        have "proxy_ok p'' \<and> map max_idle (upstreams p'') = map max_idle (upstreams p)" by simp
        moreover have "p' = p''" using "1.prems"(1) Message f Some True h by (subst (asm) handle_client.simps) simp
        ultimately show ?thesis by simp
      next
        case False
        with "1.prems"(1) q Message f Some show ?thesis by (simp add: handle_client.simps)
      qed
    qed
  qed (use "1.prems" in \<open>simp_all add: handle_client.simps\<close>)
qed

subsection \<open>Each upstream is tried once\<close>

definition failed_at :: "u8 list \<Rightarrow> UpstreamPool list \<Rightarrow> UpstreamPool list \<Rightarrow> nat \<Rightarrow> bool" where
  "failed_at request pools pools' i \<longleftrightarrow>
     fst (forward_once request (pools ! i)) = None \<and> pools' ! i = clear_idle (snd (forward_once request (pools ! i)))"

definition tried :: "u8 list \<Rightarrow> UpstreamPool list \<Rightarrow> nat list \<Rightarrow> u8 list option \<Rightarrow> UpstreamPool list \<Rightarrow> bool" where
  "tried request pools order r pools' \<longleftrightarrow> length pools' = length pools \<and>
     (case r of
        None \<Rightarrow> list_all (failed_at request pools pools') order \<and> (\<forall>i. i \<notin> set order \<longrightarrow> pools' ! i = pools ! i)
      | Some response \<Rightarrow> (\<exists>before i after. order = before @ i # after \<and>
          list_all (failed_at request pools pools') before \<and> forward_once request (pools ! i) = (Some response, pools' ! i) \<and>
          (\<forall>j. j \<notin> set before \<and> j \<noteq> i \<longrightarrow> pools' ! j = pools ! j)))"

lemma failed_at_cong:
  "pools ! i = qs ! i \<Longrightarrow> failed_at request pools pools' i \<longleftrightarrow> failed_at request qs pools' i"
  by (simp add: failed_at_def)

text \<open>One more failed upstream in front.\<close>

lemma tried_after_failure:
  assumes "tried request (pools[i := clear_idle q]) order r pools'" "forward_once request (pools ! i) = (None, q)"
    and "i < length pools" "i \<notin> set order"
  shows "tried request pools (i # order) r pools'"
proof -
  let ?qs = "pools[i := clear_idle q]"
  have same: "failed_at request ?qs pools' j \<longleftrightarrow> failed_at request pools pools' j" if "j \<in> set order" for j
  proof -
    have "i \<noteq> j" using that assms(4) by auto
    then show ?thesis by (intro failed_at_cong) simp
  qed
  have i: "failed_at request pools pools' i" if "pools' ! i = ?qs ! i"
    using that assms(2,3) by (simp add: failed_at_def)
  show ?thesis
  proof (cases r)
    case None
    with assms(1) have t: "length pools' = length pools" "list_all (failed_at request ?qs pools') order"
      "\<forall>j. j \<notin> set order \<longrightarrow> pools' ! j = ?qs ! j" by (simp_all add: tried_def)
    then show ?thesis using None i assms(4) same by (auto simp: tried_def list_all_iff)
  next
    case (Some response)
    with assms(1) obtain before k after where t: "length pools' = length pools" "order = before @ k # after"
      "list_all (failed_at request ?qs pools') before" "forward_once request (?qs ! k) = (Some response, pools' ! k)"
      "\<forall>j. j \<notin> set before \<and> j \<noteq> k \<longrightarrow> pools' ! j = ?qs ! j" by (auto simp: tried_def)
    have k: "k \<noteq> i" "i \<notin> set before" using t(2) assms(4) by auto
    have "list_all (failed_at request pools pools') (i # before)"
      using t(2,3,5) k i same by (auto simp: list_all_iff)
    moreover have "forward_once request (pools ! k) = (Some response, pools' ! k)" using t(4) k(1) by simp
    moreover have "\<forall>j. j \<notin> set (i # before) \<and> j \<noteq> k \<longrightarrow> pools' ! j = pools ! j" using t(5) by auto
    ultimately show ?thesis unfolding tried_def Some option.case
      using t(1,2) by (intro conjI exI [of _ "i # before"] exI [of _ k] exI [of _ after]) simp_all
  qed
qed

lemma try_upstreams_tried:
  assumes "try_upstreams request offsets first pools = (r, pools')" "pools \<noteq> []"
    and "distinct (map (\<lambda>offset. (first + offset) mod length pools) offsets)"
  shows "tried request pools (map (\<lambda>offset. (first + offset) mod length pools) offsets) r pools'"
  using assms
proof (induction request offsets first pools arbitrary: pools' rule: try_upstreams.induct)
  case (1 request first pools)
  then show ?case by (auto simp: tried_def)
next
  case (2 request offset offsets first pools)
  let ?i = "(first + offset) mod length pools"
  have i: "?i < length pools" using "2.prems"(2) by simp
  obtain r1 pool where f: "forward_once request (pools ! ?i) = (r1, pool)" by fastforce
  show ?case
  proof (cases r1)
    case None
    have t: "try_upstreams request offsets first (pools[?i := clear_idle pool]) = (r, pools')"
      using "2.prems"(1) f None by (simp add: Let_def)
    have "tried request (pools[?i := clear_idle pool]) (map (\<lambda>offset. (first + offset) mod length pools) offsets) r pools'"
      using "2.IH" [OF refl f [symmetric] None t] "2.prems"(2,3) by simp
    with f None i "2.prems"(3) show ?thesis by (auto intro: tried_after_failure)
  next
    case (Some response)
    with "2.prems"(1) f have "r = Some response" "pools' = pools[?i := pool]" by (simp_all add: Let_def)
    with f Some i show ?thesis by (auto simp: tried_def intro!: exI [of _ "[]"])
  qed
qed

text \<open>The order in which a request tries the upstreams: all of them, from the balancer's choice on.\<close>

definition try_order :: "Proxy \<Rightarrow> nat list" where
  "try_order p =
     (let n = length (upstreams p)
      in map (\<lambda>offset. (unat (next_upstream (balancer p)) mod n + offset) mod n) [0..<n])"

definition balanced :: "Proxy \<Rightarrow> bool" where
  "balanced p \<longleftrightarrow> upstreams p \<noteq> [] \<and> length (upstreams p) < 2 ^ 64 \<and>
     upstream_count (balancer p) = of_nat (length (upstreams p))"

lemma new_Proxy_balanced:
  assumes "pools \<noteq> []" "length pools < 2 ^ 64"
  shows "\<exists>p. new_Proxy pools = Some p \<and> balanced p \<and> upstreams p = pools"
proof -
  have "unat (of_nat (length pools) :: u64) = length pools" using assms(2) by (simp add: unsigned_of_nat take_bit_nat_eq_self)
  then have "(of_nat (length pools) :: u64) > 0" using assms(1) by (metis length_greater_0_conv unat_gt_0 word_neq_0_conv)
  then show ?thesis using assms by (simp add: new_Proxy_def new_RoundRobin_def balanced_def)
qed

text \<open>A configuration that is accepted has an upstream, so the proxy is made.\<close>

lemma configured_proxy:
  assumes "from_env env = Some cfg" "length pools = length (upstream_addrs cfg)" "length pools < 2 ^ 64"
  shows "\<exists>p. new_Proxy pools = Some p \<and> balanced p"
proof -
  have "upstream_addrs cfg \<noteq> []" using assms(1) by (auto simp: from_env_def Let_def split: if_splits)
  then have "pools \<noteq> []" using assms(2) by auto
  with new_Proxy_balanced assms(3) show ?thesis by blast
qed

lemma distinct_try_order:
  assumes "upstreams p \<noteq> []"
  shows "distinct (try_order p)" "set (try_order p) = {..<length (upstreams p)}"
proof -
  let ?n = "length (upstreams p)" and ?f = "unat (next_upstream (balancer p)) mod length (upstreams p)"
  have n: "0 < ?n" using assms by simp
  have inj: "inj_on (\<lambda>offset. (?f + offset) mod ?n) {0..<?n}"
  proof (rule inj_onI)
    have wrap: "(?f + z) mod ?n = (if ?f + z < ?n then ?f + z else ?f + z - ?n)" if "z < ?n" for z
    proof -
      have "?f < ?n" using n by simp
      with that show ?thesis by (auto simp: le_mod_geq)
    qed
    fix x y assume "x \<in> {0..<?n}" "y \<in> {0..<?n}" "(?f + x) mod ?n = (?f + y) mod ?n"
    moreover have "?f < ?n" using n by simp
    ultimately show "x = y" using wrap [of x] wrap [of y] by (simp split: if_splits)
  qed
  then show d: "distinct (try_order p)" by (simp add: try_order_def distinct_map Let_def)
  have "set (try_order p) \<subseteq> {..<?n}" using n by (auto simp: try_order_def Let_def)
  moreover have "card (set (try_order p)) = ?n" using d by (simp add: distinct_card) (simp add: try_order_def Let_def)
  ultimately show "set (try_order p) = {..<?n}" by (simp add: card_subset_eq)
qed

lemma forward_with_retry_tried:
  assumes "forward_with_retry request p = (r, p')" "balanced p"
  shows "tried request (upstreams p) (try_order p) r (upstreams p')" "balanced p'"
proof -
  let ?n = "length (upstreams p)"
  have c: "unat (upstream_count (balancer p)) = ?n" using assms(2) by (simp add: balanced_def unsigned_of_nat take_bit_nat_eq_self)
  then have pos: "0 < upstream_count (balancer p)" using assms(2) by (metis balanced_def length_greater_0_conv unat_gt_0 word_neq_0_conv)
  obtain first rr where rr: "rr_next (balancer p) = (first, rr)" by fastforce
  with rr_next_choice [OF pos] c have f: "unat first = unat (next_upstream (balancer p)) mod ?n" "upstream_count rr = upstream_count (balancer p)"
    by simp_all
  obtain pools' where t: "try_upstreams request [0..<?n] (unat first) (upstreams p) = (r, pools')" "upstreams p' = pools'" "balancer p' = rr"
    using assms(1) by (auto simp: forward_with_retry_def rr split: prod.splits)
  have o: "map (\<lambda>offset. (unat first + offset) mod ?n) [0..<?n] = try_order p" by (simp add: try_order_def f Let_def)
  have ne: "upstreams p \<noteq> []" using assms(2) by (simp add: balanced_def)
  show tr: "tried request (upstreams p) (try_order p) r (upstreams p')"
    using try_upstreams_tried [OF t(1) ne] distinct_try_order(1) [OF ne] unfolding o t(2) by blast
  then have "length (upstreams p') = ?n" by (simp add: tried_def)
  then show "balanced p'" using assms(2) f(2) t(3) by (auto simp: balanced_def)
qed

end
