(* ===== verification/Lb_Correct.thy ===== *)
theory Lb_Correct
  imports Lb_Proxy
begin

text \<open>
  What the load balancer relies on at an upstream. A service is the relation between a request and what may come back for
  it: the bytes of a response, or \<open>None\<close>, when the connection is closed without one. A connection is honest when its
  reaction to each request is one of these, as long as every request before it was answered; it fails when
  nothing ever comes back.
\<close>

type_synonym service = "u8 list \<Rightarrow> u8 list option \<Rightarrow> bool"

text \<open>The requests that the service knows.\<close>

definition acceptable :: "service \<Rightarrow> u8 list \<Rightarrow> bool" where
  "acceptable outcome request \<longleftrightarrow> whole request \<and> (\<exists>a. outcome request a)"

definition reaction_ok :: "service \<Rightarrow> u8 list \<Rightarrow> u8 list list \<Rightarrow> bool" where
  "reaction_ok outcome request g \<longleftrightarrow>
     (if g = [] then outcome request None else [] \<notin> set g \<and> outcome request (Some (concat g)))"

definition alive :: "conn \<Rightarrow> u8 list list \<Rightarrow> bool" where
  "alive c history \<longleftrightarrow> (\<forall>k < length history. reacts c (take (Suc k) history) \<noteq> [])"

definition honest :: "service \<Rightarrow> conn \<Rightarrow> bool" where
  "honest outcome c \<longleftrightarrow> conn_writable c \<and> pieces (incoming c) = [] \<and> alive c (sent c) \<and>
     (\<forall>history request. alive c history \<and> acceptable outcome request \<longrightarrow>
        reaction_ok outcome request (reacts c (history @ [request])))"

definition failing :: "conn \<Rightarrow> bool" where
  "failing c \<longleftrightarrow> \<not> conn_writable c \<or> (pieces (incoming c) = [] \<and> (\<forall>history. reacts c history = []))"

lemma alive_snoc: "alive c (history @ [request]) \<longleftrightarrow> alive c history \<and> reacts c (history @ [request]) \<noteq> []"
  by (auto simp: alive_def less_Suc_eq)

lemma nothing_to_read: "pieces st = [] \<Longrightarrow> read_http_message st \<in> {NoMessage, ReadError}"
  by (simp add: read_http_message_def)

text \<open>An exchange on an honest connection: a whole response and an honest connection, or the end of the connection.\<close>

definition exchanged :: "service \<Rightarrow> u8 list \<Rightarrow> conn \<Rightarrow> bool" where
  "exchanged outcome request c \<longleftrightarrow>
     (\<exists>r rest. read_http_message (incoming c) = Message r rest \<and> outcome request (Some r) \<and> honest outcome (c\<lparr>incoming := rest\<rparr>)) \<or>
     (read_http_message (incoming c) \<in> {NoMessage, ReadError} \<and> outcome request None)"

lemma honest_exchange:
  assumes "honest outcome c" "acceptable outcome request" "\<And>r. outcome request (Some r) \<Longrightarrow> whole r"
  shows "exchanged outcome request (write_request request c)"
proof -
  let ?c = "write_request request c" and ?g = "reacts c (sent c @ [request])"
  have p: "pieces (incoming ?c) = ?g @ []" using assms(1) by (simp add: write_request_def honest_def Let_def)
  have ok: "reaction_ok outcome request ?g" using assms(1,2) by (simp add: honest_def)
  show ?thesis
  proof (cases "?g = []")
    case True
    with ok have "outcome request None" by (simp add: reaction_ok_def)
    with nothing_to_read [of "incoming ?c"] p True show ?thesis by (simp add: exchanged_def)
  next
    case False
    with ok have g: "[] \<notin> set ?g" "outcome request (Some (concat ?g))" by (simp_all add: reaction_ok_def)
    from assms(3) [OF g(2)] have "read_http_message (incoming ?c) = Message (concat ?g) ((incoming ?c)\<lparr>pieces := []\<rparr>)"
      using read_whole_message [OF p] p g(1) by simp
    moreover have "honest outcome (?c\<lparr>incoming := (incoming ?c)\<lparr>pieces := []\<rparr>\<rparr>)"
      using assms(1) False alive_snoc [of c "sent c" request] by (simp add: honest_def write_request_def alive_def Let_def)
    ultimately show ?thesis using g(2) unfolding exchanged_def by blast
  qed
qed

lemma failing_exchange:
  assumes "failing c" "conn_writable c"
  shows "read_http_message (incoming (write_request request c)) \<in> {NoMessage, ReadError}"
  using assms by (simp add: failing_def write_request_def read_http_message_def Let_def)

end
