(* ===== verification/Defects.thy ===== *)
theory Defects
  imports Search_Result Lb_Correct
begin

text \<open>
  What goes wrong in the code, and exactly when: rows counted twice after a repair, rows that the early exit lets in, and
  responses that stay on a connection of the load balancer.
\<close>

subsection \<open>Rows counted twice\<close>

lemma filter_take_sorted:
  assumes "sorted (map key xs)" "length (filter (\<lambda>x. key x \<le> (a :: 'k :: linorder)) xs) \<le> n"
  shows "filter (\<lambda>x. key x \<le> a) (take n xs) = filter (\<lambda>x. key x \<le> a) xs"
proof (cases "\<exists>y \<in> set (drop n xs). key y \<le> a")
  case True
  then obtain y where y: "y \<in> set (drop n xs)" "key y \<le> a" by blast
  then have n: "n < length xs" by (metis drop_all empty_iff list.set(1) not_less)
  have s: "sorted (map key (take n xs @ drop n xs))" using assms(1) by simp
  have "key x \<le> a" if "x \<in> set (take n xs)" for x
    using s that y by (fastforce simp: sorted_append simp del: append_take_drop_id)
  then have "filter (\<lambda>x. key x \<le> a) (take n xs) = take n xs" by (simp add: filter_id_conv)
  moreover have "filter (\<lambda>x. key x \<le> a) (drop n xs) \<noteq> []" using y by (auto simp: filter_empty_conv)
  moreover have "filter (\<lambda>x. key x \<le> a) xs = filter (\<lambda>x. key x \<le> a) (take n xs) @ filter (\<lambda>x. key x \<le> a) (drop n xs)"
    by (simp flip: filter_append)
  ultimately have "length (filter (\<lambda>x. key x \<le> a) xs) > n" using n by simp
  with assms(2) show ?thesis by simp
next
  case False
  then have "filter (\<lambda>x. key x \<le> a) (drop n xs) = []" by (simp add: filter_empty_conv)
  moreover have "filter (\<lambda>x. key x \<le> a) xs = filter (\<lambda>x. key x \<le> a) (take n xs) @ filter (\<lambda>x. key x \<le> a) (drop n xs)"
    by (simp flip: filter_append)
  ultimately show ?thesis by simp
qed

lemma count_list_filter: "P r \<Longrightarrow> count_list (filter P xs) r = count_list xs r"
  by (induction xs) auto

text \<open>All copies of a row are among the five when the rows up to it fit.\<close>

lemma count_top5:
  assumes "proper rows" "r \<in> set rows" "length (filter (\<lambda>c. rank_of c \<le> rank_of r) rows) \<le> 5"
  shows "count_list (top5 rows) r = count_list rows r"
proof -
  let ?P = "\<lambda>c. rank_of c \<le> rank_of r" and ?xs = "sort_key rank_of (replicate 5 sentinel @ rows)"
  have far: "rank_of r < rank_of sentinel" "r \<noteq> sentinel"
    using assms(1,2) by (cases r; auto simp: proper_def sentinel_def)+
  have t: "top5 rows = take 5 ?xs" using top5_best [OF assms(1)] by (simp add: best_def)
  have none: "filter ?P (replicate 5 sentinel) = []" using far(1) by simp
  have "mset (filter ?P ?xs) = mset (filter ?P (replicate 5 sentinel @ rows))" by simp
  also have "\<dots> = mset (filter ?P rows)" using none by (simp only: filter_append append_Nil)
  finally have "mset (filter ?P ?xs) = mset (filter ?P rows)" .
  then have "length (filter ?P ?xs) \<le> 5" using assms(3) mset_eq_length by fastforce
  from filter_take_sorted [OF sorted_sort_key this] have "filter ?P (top5 rows) = filter ?P ?xs" by (simp add: t)
  then have "count_list (top5 rows) r = count_list ?xs r"
    using count_list_filter [of ?P r] by (metis order_refl)
  also have "count_list ?xs r = count_list (replicate 5 sentinel @ rows) r"
    by (metis count_mset mset_sort)
  also have "\<dots> = count_list rows r" using far(2) by (simp add: numeral_eq_Suc)
  finally show ?thesis .
qed

lemma more_rows_part:
  assumes "search_ok useAVX2 idx q"
  shows "mset (more_rows idx q) \<subseteq># mset (all_cands idx q)"
proof -
  let ?cs = "map unat (filter (\<lambda>c. c \<notin> set (probe_clusters idx q (deciding_probes idx q))) (probe_clusters idx q (int maxIVFProbe)))"
  have few: "clusters_of idx \<le> 8192" using assms by (rule search_ok_few)
  have "distinct (filter (\<lambda>c. c \<notin> set (probe_clusters idx q (deciding_probes idx q))) (probe_clusters idx q (int maxIVFProbe)))"
    using distinct_nearest [OF few] by (simp add: probe_clusters_def)
  then have d: "distinct ?cs" by (simp add: distinct_map inj_on_unat)
  have less: "set ?cs \<subseteq> {0..<clusters_of idx}" using probe_clusters_less [OF assms] by auto
  let ?rest = "filter (\<lambda>c. c \<notin> set ?cs) [0..<clusters_of idx]"
  have "mset (?cs @ ?rest) = mset [0..<clusters_of idx]"
    using d less by (intro set_eq_iff_mset_eq_distinct [THEN iffD1]) auto
  from mset_scan_cands [OF this, of idx q] have "mset (all_cands idx q) = mset (more_rows idx q) + mset (scan_cands idx q ?rest)"
    by (simp only: more_rows_def all_cands_def scan_cands_append mset_append)
  then show ?thesis by (simp only: mset_subset_eq_add_left)
qed

lemma rows_twice:
  assumes "search_ok useAVX2 idx q" "distinct_ids idx" "r \<in> set (more_rows idx q)"
    and "length (filter (\<lambda>c. rank_of c < rank_of r) (all_cands idx q)) \<le> 1"
  shows "count_list (top5 (all_cands idx q @ more_rows idx q)) r = 2 \<and> count_list (all_cands idx q) r = 1"
proof -
  let ?all = "all_cands idx q" and ?more = "more_rows idx q" and ?P = "\<lambda>c. rank_of c \<le> rank_of r"
  have wf: "wf_index idx" using assms(1) by (simp add: search_ok_def)
  note part = more_rows_part [OF assms(1)]
  have ranks: "distinct (map rank_of ?all)" by (rule distinct_ranks [OF wf assms(2)])
  then have d: "distinct ?all" by (simp add: distinct_map)
  have r: "r \<in> set ?all" using set_mset_mono [OF part] assms(3) by auto
  have one: "count_list ?all r = 1" using d r by (simp add: count_list_eq_length_filter distinct_length_filter)
  have more: "count_list ?more r = 1"
  proof -
    have "0 < count (mset ?more) r" using assms(3) by simp
    with one mset_subset_eq_count [OF part, of r] show ?thesis by (simp add: count_mset)
  qed
  have "filter ?P ?all = filter (\<lambda>c. rank_of c < rank_of r \<or> c = r) ?all"
    using ranks r by (intro filter_cong refl) (auto simp: le_less distinct_map inj_on_def)
  moreover have "length (filter (\<lambda>c. rank_of c < rank_of r \<or> c = r) xs) =
      length (filter (\<lambda>c. rank_of c < rank_of r) xs) + count_list xs r" for xs
    by (induction xs) auto
  ultimately have "length (filter ?P ?all) \<le> 2" using assms(4) one by simp
  moreover have "length (filter ?P ?more) \<le> length (filter ?P ?all)"
    using size_mset_mono [OF multiset_filter_mono [OF part, of ?P]] by (simp flip: mset_filter)
  ultimately have "length (filter ?P (?all @ ?more)) \<le> 5" by simp
  moreover have "proper (?all @ ?more)" by (simp add: more_rows_def)
  ultimately show ?thesis using count_top5 [of "?all @ ?more" r] r one more by simp
qed

text \<open>The search that does it: an ambiguous count is repaired and the approval rule applies.\<close>

lemma repaired_then_widened:
  assumes "search_ok useAVX2 idx q" "exact_scans useAVX2 idx" "boxes_ok idx" "distinct_ids idx" "0 < NProbe (IVF idx)"
    and "Repair (IVF idx)" "first_ambiguous idx q" "5 \<le> length (probed_cands idx q (deciding_probes idx q))"
    and "frauds_of (all_cands idx q) < 3" "needsApprovalRepair q" "\<not> needsKnownLateDenialRepair q"
  shows "searchIVF useAVX2 idx q = Some (length (filter cfraud (top5 (all_cands idx q @ more_rows idx q))))"
  using searchIVF_answer [OF assms(1-5)] assms(6-)
  by (simp add: search_answer_def known_rows_def Let_def) (simp add: frauds_of_def)

subsection \<open>Rows that the early exit lets in\<close>

lemma cut_sum_reaches:
  assumes "\<And>t. t \<in> set ts \<Longrightarrow> 0 \<le> t" "ts \<noteq> [] \<or> acc < cutoff"
  shows "cut_sum cutoff ts acc = cutoff \<longleftrightarrow> (\<exists>k \<in> {1..length ts}. acc + sum_list (take k ts) = cutoff)"
  using assms
proof (induction ts arbitrary: acc)
  case Nil
  then show ?case by simp
next
  case (Cons t ts)
  have nonneg: "0 \<le> sum_list (take k ts)" for k
    using Cons.prems(1) by (intro sum_list_nonneg) (auto dest: in_set_takeD)
  have split: "(\<exists>k \<in> {1..length (t # ts)}. acc + sum_list (take k (t # ts)) = cutoff) \<longleftrightarrow>
      (\<exists>k \<in> {0..length ts}. acc + t + sum_list (take k ts) = cutoff)"
  proof -
    have "{1..length (t # ts)} = Suc ` {0..length ts}" by (simp add: image_Suc_atLeastAtMost)
    then show ?thesis by (simp only: bex_simps) (simp add: add.assoc)
  qed
  show ?case
  proof (cases "cutoff \<le> acc + t")
    case True
    have "(\<exists>k \<in> {0..length ts}. acc + t + sum_list (take k ts) = cutoff) \<longleftrightarrow> acc + t = cutoff"
    proof
      assume "\<exists>k \<in> {0..length ts}. acc + t + sum_list (take k ts) = cutoff"
      then obtain k where "acc + t + sum_list (take k ts) = cutoff" by blast
      with True nonneg [of k] show "acc + t = cutoff" by linarith
    next
      assume "acc + t = cutoff"
      then show "\<exists>k \<in> {0..length ts}. acc + t + sum_list (take k ts) = cutoff" by (intro bexI [of _ 0]) simp_all
    qed
    with True split show ?thesis by simp
  next
    case False
    then have "(\<exists>k \<in> {0..length ts}. acc + t + sum_list (take k ts) = cutoff) \<longleftrightarrow>
        (\<exists>k \<in> {1..length ts}. acc + t + sum_list (take k ts) = cutoff)"
    proof -
      have "{0..length ts} = insert 0 {1..length ts}" by auto
      with False show ?thesis by auto
    qed
    with False split Cons.IH [of "acc + t"] Cons.prems show ?thesis by simp
  qed
qed

definition partial_sum_hits :: "i16 list \<Rightarrow> i16 list \<Rightarrow> int \<Rightarrow> bool" where
  "partial_sum_hits q ref cutoff \<longleftrightarrow> (\<exists>k \<in> {1..Dimensions}. (\<Sum>i\<leftarrow>take k distOrder. sq (q ! i) (ref ! i)) = cutoff)"

lemma cutDist_hits: "cutDist q ref cutoff = cutoff \<longleftrightarrow> partial_sum_hits q ref cutoff"
proof -
  have len: "length (terms q ref) = Dimensions" by (simp add: Dimensions_def)
  then have "terms q ref \<noteq> []" by (metis Dimensions_def list.size(3) zero_neq_numeral)
  moreover have "sum_list (take k (terms q ref)) = (\<Sum>i\<leftarrow>take k distOrder. sq (q ! i) (ref ! i))" for k
    by (simp add: terms_def take_map)
  ultimately show ?thesis
    using cut_sum_reaches [of "terms q ref" 0 cutoff] terms_bounds unfolding cutDist_def partial_sum_hits_def len by simp
qed

lemma far_row_offered:
  assumes "state_inv s" "length ref = Dimensions" "row < length labels" "bestDist s ! 4 < sqdist q ref"
  shows "\<exists>d t. quantizedDistance q ref (bestDist s ! 4) = Some d \<and> offer_row labels origID row d s = Some t \<and>
    (entries t \<noteq> entries s \<longleftrightarrow> partial_sum_hits q ref (bestDist s ! 4) \<and> origID < bestID s ! 4) \<and>
    (entries t \<noteq> entries s \<longrightarrow> Cand (bestDist s ! 4) origID (labels ! row = 1) \<in> set (entries t)) \<and>
    offer_row labels origID row (sqdist q ref) s = Some s"
proof -
  let ?cut = "bestDist s ! 4"
  let ?c = "Cand ?cut origID (labels ! row = 1)"
  define d where "d = cutDist q ref ?cut"
  have d: "quantizedDistance q ref ?cut = Some d" "?cut \<le> d" "d = ?cut \<longleftrightarrow> partial_sum_hits q ref ?cut"
    using quantizedDistance_cutDist [OF assms(2)] cutDist_above [of ?cut q ref] cutDist_hits assms(4) by (simp_all add: d_def)
  have exact: "offer_row labels origID row (sqdist q ref) s = Some s"
    using assms(4) by (simp add: offer_row_def rejected_def)
  show ?thesis
  proof (cases "partial_sum_hits q ref ?cut \<and> origID < bestID s ! 4")
    case False
    then have "rejected d origID s" using d(2,3) by (auto simp: rejected_def)
    then show ?thesis using False d(1) exact by (intro exI [of _ d] exI [of _ s]) (auto simp: offer_row_def)
  next
    case True
    let ?t = "ivf_insert ?cut (labels ! row = 1) origID s"
    have "\<not> rejected ?cut origID s" using True by (simp add: rejected_def not_le)
    then have o: "offer_row labels origID row d s = Some ?t" using True d(3) assms(3) by (simp add: offer_row_def)
    have e: "entries ?t = keep 5 rank_of ?c (entries s)" using entries_ivf_insert [OF assms(1)] .
    have len: "length (entries s) = 5" by (simp add: entries_def)
    have less: "rank_of ?c < rank_of (last (entries s))" using True by (simp add: last_entries)
    have ne: "entries s \<noteq> []" using len by (metis list.size(3) zero_neq_numeral)
    have last: "last (ins_after rank_of ?c (entries s)) = last (entries s)" using last_ins_after_less [OF ne less] .
    have split: "ins_after rank_of ?c (entries s) = entries ?t @ [last (entries s)]"
    proof -
      have "butlast (ins_after rank_of ?c (entries s)) = entries ?t" using len by (simp add: e keep_def butlast_conv_take)
      then show ?thesis using last len by (metis append_butlast_last_id length_0_conv length_ins_after nat.distinct(1))
    qed
    have "?c \<in> set (ins_after rank_of ?c (entries s))" by (simp add: set_ins_after)
    moreover have other: "?c \<noteq> last (entries s)" using less by (metis less_irrefl)
    ultimately have mem: "?c \<in> set (entries ?t)" unfolding split by simp
    have "mset (entries ?t) + {#last (entries s)#} = mset (entries s) + {#?c#}"
      using arg_cong [OF split, of mset] by simp
    then have "entries ?t \<noteq> entries s" using other by auto
    with True d(1) o mem exact show ?thesis by (intro exI [of _ d] exI [of _ ?t]) simp
  qed
qed

subsection \<open>Responses that stay on a connection\<close>

text \<open>One read returns two requests, and the upstream answers with two responses.\<close>

lemma read_both:
  assumes "whole r" "r \<noteq> []"
  shows "read_http_message \<lparr>pieces = [r @ tail], closes = cl\<rparr> = Message (r @ tail) \<lparr>pieces = [], closes = cl\<rparr>"
proof -
  let ?st = "\<lparr>pieces = [r @ tail], closes = cl\<rparr>"
  have m: "message_size (r @ tail) = Some (length r)" using assms(1) message_size_append by (simp add: whole_def)
  then have c: "complete (r @ tail)" by (simp add: complete_def)
  have ne: "[] \<notin> set (pieces ?st)" using assms(2) by simp
  show ?thesis
  proof (cases "read_http_message ?st")
    case (Message out st')
    with read_http_message_spec [OF ne] m have f: "closes st' = cl" "fewest_pieces [r @ tail] (length r) out (pieces st')" by auto
    then obtain before piece where b: "[r @ tail] = before @ piece # pieces st'" "out = concat before @ piece"
      unfolding fewest_pieces_def by blast
    then have "before = []" "piece = r @ tail" "pieces st' = []" by (auto simp: Cons_eq_append_conv)
    with b(2) f(1) Message show ?thesis by (cases st') simp
  next
    case NoMessage
    with read_http_message_spec [OF ne] c show ?thesis by simp
  next
    case ReadError
    with read_http_message_spec [OF ne] c show ?thesis by simp
  qed
qed

lemma forward_alone:
  assumes "upstreams p = [pool]"
  shows "forward_with_retry request p = (case forward_once request pool of
      (Some a, pool') \<Rightarrow> (Some a, p\<lparr>upstreams := [pool'], balancer := snd (rr_next (balancer p))\<rparr>)
    | (None, pool') \<Rightarrow> (None, p\<lparr>upstreams := [clear_idle pool'], balancer := snd (rr_next (balancer p))\<rparr>))"
  using assms by (auto simp: forward_with_retry_def split: prod.split option.split)

lemma one_request_client:
  assumes "read_http_message client = Message request rest" "pieces rest = []" "forward_with_retry request p = (Some a, p')"
  shows "handle_client (\<lambda>k. True) n client p = ([a], p')"
proof -
  have "handle_client (\<lambda>k. True) m rest p' = ([], p')" for m
    using nothing_to_read [OF assms(2)] by (auto simp: handle_client.simps [of _ m rest])
  then show ?thesis by (simp add: handle_client.simps [of _ n client] assms)
qed

lemma left_over_response:
  assumes "upstreams p = [pool]" "idle_conns pool = []" "accepts_next pool = Some c # cs" "0 < max_idle pool"
    and "conn_writable c" "pieces (incoming c) = []" "reacts c (sent c @ [r1 @ r2]) = [a1, a2]"
    and "[] \<notin> set (reacts c (sent c @ [r1 @ r2, r3]))" "whole a1" "whole a2" "a1 \<noteq> []" "a2 \<noteq> []"
    and "whole r1" "r1 \<noteq> []" "whole r3" "r3 \<noteq> []"
  shows "\<exists>p' p''. handle_client (\<lambda>k. True) n \<lparr>pieces = [r1 @ r2], closes = True\<rparr> p = ([a1], p') \<and>
    handle_client (\<lambda>k. True) m \<lparr>pieces = [r3], closes = True\<rparr> p' = ([a2], p'')"
proof -
  let ?c = "write_request (r1 @ r2) c"
  let ?c1 = "?c\<lparr>incoming := (incoming ?c)\<lparr>pieces := [a2]\<rparr>\<rparr>"
  let ?pool = "pool\<lparr>accepts_next := cs, received := received pool @ [r1 @ r2], idle_conns := [?c1]\<rparr>"
  have p: "pieces (incoming ?c) = [a1] @ [a2]" using assms(6,7) by (simp add: write_request_def Let_def)
  have "read_http_message (incoming ?c) = Message a1 ((incoming ?c)\<lparr>pieces := [a2]\<rparr>)"
    using read_whole_message [OF p] p assms(9,11,12) by simp
  then have "forward_once (r1 @ r2) pool = (Some a1, ?pool)"
    using assms(2-5) by (simp add: forward_once_def acquire_def release_def Let_def)
  then have f1: "forward_with_retry (r1 @ r2) p = (Some a1, p\<lparr>upstreams := [?pool], balancer := snd (rr_next (balancer p))\<rparr>)"
    using forward_alone [OF assms(1)] by simp
  let ?p' = "p\<lparr>upstreams := [?pool], balancer := snd (rr_next (balancer p))\<rparr>"
  have h1: "handle_client (\<lambda>k. True) n \<lparr>pieces = [r1 @ r2], closes = True\<rparr> p = ([a1], ?p')"
    by (rule one_request_client [OF read_both [OF assms(13,14)] _ f1]) simp
  let ?d = "write_request r3 ?c1"
  have q: "pieces (incoming ?d) = [a2] @ reacts c (sent c @ [r1 @ r2, r3])" by (simp add: write_request_def Let_def)
  have "read_http_message (incoming ?d) = Message a2 ((incoming ?d)\<lparr>pieces := reacts c (sent c @ [r1 @ r2, r3])\<rparr>)"
    using read_whole_message [OF q] q assms(8,10,12) by simp
  then obtain pool2 where "forward_once r3 ?pool = (Some a2, pool2)"
    using assms(5) by (simp add: forward_once_def acquire_def write_request_def Let_def)
  then obtain p'' where f2: "forward_with_retry r3 ?p' = (Some a2, p'')"
    using forward_alone [of ?p' ?pool r3] by simp
  have "handle_client (\<lambda>k. True) m \<lparr>pieces = [r3], closes = True\<rparr> ?p' = ([a2], p'')"
    by (rule one_request_client [OF read_both [OF assms(15,16), of "[]" True, simplified] _ f2]) simp
  with h1 show ?thesis by blast
qed

end
