(* ===== verification/Samples.thy ===== *)
theory Samples
  imports Defects
begin

text \<open>
  Concrete indexes at which the properties are instantiated. Both are transposed by the model of
  \<open>buildIVFBlocks\<close>. \<open>two_clusters\<close> has five rows in the cluster the query probes and two in another one
  whose box contains the query; \<open>one_cluster\<close> has six rows, the last of which reaches the fifth
  distance after one of its dimensions.
\<close>

definition q_approval :: "i16 list" where
  "q_approval = [0, 0, 5000, 0, 0, 0, 0, 3000, 0, 10000, 0, 0, 3000, 0]"

definition q_plain :: "i16 list" where
  "q_plain = q_approval[12 := 4000]"

definition two_vectors :: "i16 list" where
  "two_vectors = concat (map (\<lambda>x. q_approval[3 := x]) [1, 2, 3, 4, 5]) @ q_approval @ q_approval[0 := 200]"

definition two_clusters :: "bool \<Rightarrow> QuantizedIndex" where
  "two_clusters repair =
     \<lparr>Vectors = two_vectors, Blocks = the (buildIVFBlocks two_vectors [0, 5, 7] [0, 1, 2]),
      Labels = [1, 0, 0, 0, 1, 1, 0],
      IVF = \<lparr>Clusters = 2, Centroids = q_approval[3 := 3] @ q_approval[0 := 100], CentroidBlocks = [],
        ListOffsets = [0, 5, 7], BlockOffsets = [0, 1, 2],
        BBoxMin = q_approval[3 := 1] @ q_approval, BBoxMax = q_approval[3 := 5] @ q_approval[0 := 200],
        OrigIDs = [0, 1, 2, 3, 4, 5, 6], NProbe = 1, AmbiguousNProbe = 1, Repair = repair\<rparr>,
      mmap = []\<rparr>"

definition q_zero :: "i16 list" where
  "q_zero = replicate 14 0"

definition one_vectors :: "i16 list" where
  "one_vectors = concat (map (\<lambda>x. q_zero[3 := x]) [1, 2, 3, 4, 5]) @ q_zero[5 := 5, 13 := 1000]"

definition one_cluster :: QuantizedIndex where
  "one_cluster =
     \<lparr>Vectors = one_vectors, Blocks = the (buildIVFBlocks one_vectors [0, 6] [0, 1]),
      Labels = [0, 0, 0, 0, 0, 1],
      IVF = \<lparr>Clusters = 1, Centroids = q_zero, CentroidBlocks = [],
        ListOffsets = [0, 6], BlockOffsets = [0, 1], BBoxMin = q_zero, BBoxMax = replicate 14 1000,
        OrigIDs = [1, 2, 3, 4, 5, 0], NProbe = 1, AmbiguousNProbe = 1, Repair = False\<rparr>,
      mmap = []\<rparr>"

lemma wf_blocks:
  "hasIVF idx \<Longrightarrow> Clusters (IVF idx) \<le> 8192 \<Longrightarrow>
   offsets_ok (length (Labels idx)) (clusters_of idx) (ListOffsets (IVF idx)) \<Longrightarrow>
   length (OrigIDs (IVF idx)) = length (Labels idx) \<Longrightarrow> hasIVFBlocks idx \<Longrightarrow>
   block_offsets_ok (clusters_of idx) (ListOffsets (IVF idx)) (BlockOffsets (IVF idx)) \<Longrightarrow> wf_index idx"
  by (simp add: wf_index_def)

lemma two_clusters_wf: "wf_index (two_clusters True)"
  by (rule wf_blocks) code_simp+

lemma two_clusters_wf': "wf_index (two_clusters False)"
  by (rule wf_blocks) code_simp+

lemma one_cluster_wf: "wf_index one_cluster"
  by (rule wf_blocks) code_simp+

lemma sample_centroids: "centroid_blocks_ok (two_clusters r)" "centroid_blocks_ok one_cluster"
  by (simp_all add: no_centroid_blocks two_clusters_def one_cluster_def)

lemma sample_scans: "exact_scans True (two_clusters True)" "exact_scans True (two_clusters False)"
  "exact_scans True one_cluster"
  by code_simp+

lemma sample_ids: "distinct_ids (two_clusters True)" "distinct_ids one_cluster" "probes_all one_cluster"
  by code_simp+

lemma two_fields:
  "clusters_of (two_clusters r) = 2" "ListOffsets (IVF (two_clusters r)) = [0, 5, 7]"
  "BlockOffsets (IVF (two_clusters r)) = [0, 1, 2]"
  "BBoxMin (IVF (two_clusters r)) = q_approval[3 := 1] @ q_approval"
  "BBoxMax (IVF (two_clusters r)) = q_approval[3 := 5] @ q_approval[0 := 200]"
  by (simp_all add: two_clusters_def)

lemma two_built: "buildIVFBlocks two_vectors [0, 5, 7] [0, 1, 2] = Some (Blocks (two_clusters True))"
proof -
  have "buildIVFBlocks two_vectors [0, 5, 7] [0, 1, 2] \<noteq> None" by code_simp
  then show ?thesis by (auto simp: two_clusters_def)
qed

lemma two_in_boxes: "vectors_in_boxes (two_clusters True) two_vectors"
  unfolding vectors_in_boxes_def two_fields has_boxes_def
  by (intro conjI) code_simp+

lemma two_clusters_boxes: "boxes_ok (two_clusters True)"
  by (rule boxes_ok_built [THEN iffD2, OF two_clusters_wf _ _ _ two_in_boxes], code_simp,
      simp only: two_fields two_built, code_simp)

lemma queries_ok: "quantized_query q_approval" "quantized_query q_plain" "quantized_query q_zero"
  by code_simp+

lemma samples_ok:
  "search_ok avx2 (two_clusters True) q_approval" "search_ok avx2 (two_clusters True) q_plain"
  "search_ok avx2 (two_clusters False) q_plain" "search_ok avx2 one_cluster q_zero"
  by (simp_all add: search_ok_def two_clusters_wf two_clusters_wf' one_cluster_wf sample_centroids queries_ok)

subsection \<open>Rows of the defects\<close>

text \<open>The row of the second cluster that the query meets, and a row whose first dimension in the order of the loop
  reaches the distance of the five rows of a state.\<close>

definition twice_row :: cand where
  "twice_row = Cand 0 5 True"

lemma approval_searched:
  "0 < NProbe (IVF (two_clusters True))" "Repair (IVF (two_clusters True))" "first_ambiguous (two_clusters True) q_approval"
  "5 \<le> length (probed_cands (two_clusters True) q_approval (deciding_probes (two_clusters True) q_approval))"
  by (code_simp+)

lemma approval_rule: "needsApprovalRepair q_approval" "\<not> needsKnownLateDenialRepair q_approval"
  by code_simp+

lemma twice_row_more:
  "twice_row \<in> set (more_rows (two_clusters True) q_approval)"
  "length (filter (\<lambda>c. rank_of c < rank_of twice_row) (all_cands (two_clusters True) q_approval)) \<le> 1"
  by code_simp+

definition far_row :: "i16 list" where
  "far_row = q_zero[5 := 10, 6 := 10]"

definition five_rows :: ivfSearchState where
  "five_rows = fold (\<lambda>i. ivf_insert 100 False (of_nat (10 + i))) [0..<5] newIVFSearchState"

lemma five_rows_inv: "state_inv five_rows"
  by (simp add: five_rows_def state_inv_ivf_insert state_inv_new)

lemma five_rows_parts:
  "length far_row = Dimensions" "bestDist five_rows ! 4 = 100" "sqdist q_zero far_row = 200" "bestID five_rows ! 4 = 14"
  by code_simp+

lemma far_row_hits: "partial_sum_hits q_zero far_row 100"
proof -
  have "(\<Sum>i\<leftarrow>take 1 distOrder. sq (q_zero ! i) (far_row ! i)) = 100" by code_simp
  moreover have "1 \<in> {1..Dimensions}" by (simp add: Dimensions_def)
  ultimately show ?thesis unfolding partial_sum_hits_def by blast
qed

end
