(* ===== verification/Ivf_Build.thy ===== *)
theory Ivf_Build
  imports Quantize Search_State
begin

text \<open>
  Building an index from the reference data (\<open>ivf_build.go\<close>, \<open>LabelByte\<close> and \<open>Reference\<close>): quantize,
  split the rows into a power of two of clusters along the dimension of largest variance, compute each
  cluster's centroid and box, order it by distance to the centroid, and lay everything out. The
  standard library's \<open>sort.Slice\<close> is called with total orders, so its result is the sorted list.
  \<open>balancedSplit\<close> recurses on \<open>clusterCount / 2\<close> until it is one and would not return from zero;
  it is a \<open>partial_function\<close>, and that it returns is proved for powers of two.
\<close>

subsection \<open>Reference data\<close>

record Reference =
  Vector :: "flt list"
  Label :: string

record IVFBuildOptions =
  optClusters :: int
  optNProbe :: int
  optAmbiguousNProbe :: int
  optRepair :: bool

definition LabelByte :: "string \<Rightarrow> u8" where
  "LabelByte label = (if label = ''fraud'' then 1 else 0)"

subsection \<open>Powers of two\<close>

definition isPowerOfTwo :: "int \<Rightarrow> bool" where
  "isPowerOfTwo v \<longleftrightarrow> v > 0 \<and> v AND (v - 1) = 0"

text \<open>The loop runs with \<open>p\<close> from 1 up, and \<open>p * 2\<close> never exceeds \<open>v\<close>, so it does not overflow; the test
  \<open>0 < p\<close>, always true, is for the termination proof.\<close>

function highestPowerOfTwoLE_from :: "int \<Rightarrow> int \<Rightarrow> int" where
  "highestPowerOfTwoLE_from v p =
     (if 0 < p \<and> p \<le> v div 2 then highestPowerOfTwoLE_from v (p * 2) else p)"
  by pat_completeness auto
termination
  by (relation "measure (\<lambda>(v, p). nat (v + 1 - p))") auto

declare highestPowerOfTwoLE_from.simps [simp del]

definition highestPowerOfTwoLE :: "int \<Rightarrow> int" where
  "highestPowerOfTwoLE v = (if v \<le> 0 then 0 else highestPowerOfTwoLE_from v 1)"

subsection \<open>Splitting\<close>

definition maxVarianceDimension :: "i16 list \<Rightarrow> u32 list \<Rightarrow> nat \<Rightarrow> nat \<Rightarrow> nat option" where
  "maxVarianceDimension vectors ids start end' = do {
     (totals, squares) \<leftarrow> foldM (\<lambda>i acc. do {
         rid \<leftarrow> get ids i;
         let base = unat rid * Dimensions;
         foldM (\<lambda>d (totals, squares). do {
             v \<leftarrow> get vectors (base + d);
             let v = sint v;
             Some (totals[d := add64 (totals ! d) v], squares[d := add64 (squares ! d) (mul64 v v)]) })
           [0..<Dimensions] acc })
       [start..<end'] (replicate Dimensions 0, replicate Dimensions 0);
     let cnt = ffrom_int binary64 (int end' - int start);
     Some (fst (fold (\<lambda>d (bestDim, bestVariance).
         let mean = fdiv binary64 (ffrom_int binary64 (totals ! d)) cnt;
             variance = fsub binary64 (fdiv binary64 (ffrom_int binary64 (squares ! d)) cnt)
               (fmul binary64 mean mean)
         in if fless bestVariance variance then (d, variance) else (bestDim, bestVariance))
       [0..<Dimensions] (0, Fin (- 1)))) }"

text \<open>\<open>sort.Slice\<close> on a window, by the value in one dimension and then by id.\<close>

definition sort_window :: "i16 list \<Rightarrow> nat \<Rightarrow> u32 list \<Rightarrow> u32 list option" where
  "sort_window vectors axis window =
     (if length window < 2 then Some window
      else do {
        vs \<leftarrow> those (map (\<lambda>rid. get vectors (unat rid * Dimensions + axis)) window);
        Some (sort_key (\<lambda>rid. Rank (sint (vectors ! (unat rid * Dimensions + axis))) rid) window) })"

type_synonym ivfBuildRange = "nat \<times> nat"

text \<open>The state is the slice of ids, which the sort permutes in place, and the table of ranges.\<close>

partial_function (option) balancedSplit ::
  "i16 list \<Rightarrow> nat \<Rightarrow> nat \<Rightarrow> nat \<Rightarrow> nat \<Rightarrow> u32 list \<times> ivfBuildRange list \<Rightarrow> (u32 list \<times> ivfBuildRange list) option" where
  "balancedSplit vectors start end' clusterBase clusterCount st =
     (if clusterCount = 1 then do {
        ranges \<leftarrow> put (snd st) clusterBase (start, end');
        Some (fst st, ranges) }
      else do {
        axis \<leftarrow> maxVarianceDimension vectors (fst st) start end';
        window \<leftarrow> slice (fst st) start end';
        sorted \<leftarrow> sort_window vectors axis window;
        ids \<leftarrow> copy_at (fst st) start sorted;
        let mid = start + (end' - start) div 2;
        let half = clusterCount div 2;
        st \<leftarrow> balancedSplit vectors start mid clusterBase half (ids, snd st);
        balancedSplit vectors mid end' (clusterBase + half) half st })"

subsection \<open>Cluster statistics\<close>

definition roundDivInt64ToInt16 :: "int \<Rightarrow> int \<Rightarrow> i16" where
  "roundDivInt64ToInt16 acc cnt =
     (if cnt \<le> 0 then 0
      else if acc \<ge> 0 then word_of_int (quot64 (add64 acc (quot64 cnt 2)) cnt)
      else word_of_int (quot64 (sub64 acc (quot64 cnt 2)) cnt))"

definition computeClusterStats ::
  "i16 list \<Rightarrow> u32 list \<Rightarrow> ivfBuildRange \<Rightarrow> (i16 list \<times> i16 list \<times> i16 list) option" where
  "computeClusterStats vectors ids r = do {
     (totals, bboxMin, bboxMax) \<leftarrow> foldM (\<lambda>i acc. do {
         rid \<leftarrow> get ids i;
         let base = unat rid * Dimensions;
         foldM (\<lambda>d (totals, bboxMin, bboxMax). do {
             v \<leftarrow> get vectors (base + d);
             Some (totals[d := add64 (totals ! d) (sint v)],
               (if sint v < sint (bboxMin ! d) then bboxMin[d := v] else bboxMin),
               (if sint v > sint (bboxMax ! d) then bboxMax[d := v] else bboxMax)) })
           [0..<Dimensions] acc })
       [fst r..<snd r] (replicate Dimensions 0, replicate Dimensions 32767, replicate Dimensions (- 32768));
     let cnt = int (snd r) - int (fst r);
     Some (map (\<lambda>d. roundDivInt64ToInt16 (totals ! d) cnt) [0..<Dimensions], bboxMin, bboxMax) }"

definition vectorToCentroidDistance :: "i16 list \<Rightarrow> u32 \<Rightarrow> i16 list \<Rightarrow> int option" where
  "vectorToCentroidDistance vectors rid centroid =
     foldM (\<lambda>d acc. do {
         v \<leftarrow> get vectors (unat rid * Dimensions + d);
         let delta = sub64 (sint v) (sint (centroid ! d));
         Some (add64 acc (mul64 delta delta)) }) [0..<Dimensions] 0"

text \<open>\<open>ivfIDDistance\<close> is a distance and an id, ordered as \<^typ>\<open>rank\<close> is.\<close>

fun rank_id :: "rank \<Rightarrow> u32" where
  "rank_id (Rank d i) = i"

definition sortClusterByCentroidDistance :: "i16 list \<Rightarrow> u32 list \<Rightarrow> i16 list \<Rightarrow> u32 list option" where
  "sortClusterByCentroidDistance vectors ids centroid = do {
     items \<leftarrow> those (map (\<lambda>rid. do { d \<leftarrow> vectorToCentroidDistance vectors rid centroid; Some (Rank d rid) }) ids);
     Some (map rank_id (sort items)) }"

subsection \<open>Laying out the index\<close>

record layout_state =
  orderedVectors :: "i16 list"
  orderedLabels :: "u8 list"
  centroids :: "i16 list"
  listOffsets :: "u32 list"
  blockOffsets :: "u32 list"
  bboxMin :: "i16 list"
  bboxMax :: "i16 list"
  origIDs :: "u32 list"
  row_pos :: nat
  block_pos :: nat

definition place_row :: "i16 list \<Rightarrow> u8 list \<Rightarrow> u32 \<Rightarrow> layout_state \<Rightarrow> layout_state option" where
  "place_row vectors labels origID s = do {
     v \<leftarrow> slice vectors (unat origID * Dimensions) (unat origID * Dimensions + Dimensions);
     ov \<leftarrow> copy_at (orderedVectors s) (row_pos s * Dimensions) v;
     l \<leftarrow> get labels (unat origID);
     ol \<leftarrow> put (orderedLabels s) (row_pos s) l;
     oi \<leftarrow> put (origIDs s) (row_pos s) origID;
     Some (s\<lparr>orderedVectors := ov, orderedLabels := ol, origIDs := oi, row_pos := row_pos s + 1\<rparr>) }"

definition place_cluster ::
  "i16 list \<Rightarrow> u8 list \<Rightarrow> u32 list \<Rightarrow> nat \<Rightarrow> ivfBuildRange \<Rightarrow> layout_state \<Rightarrow> layout_state option" where
  "place_cluster vectors labels ids c r s = do {
     lo \<leftarrow> put (listOffsets s) c (of_nat (row_pos s));
     bo \<leftarrow> put (blockOffsets s) c (of_nat (block_pos s));
     (cen, bmin, bmax) \<leftarrow> computeClusterStats vectors ids r;
     cens \<leftarrow> copy_at (centroids s) (c * Dimensions) cen;
     bmins \<leftarrow> copy_at (bboxMin s) (c * Dimensions) bmin;
     bmaxs \<leftarrow> copy_at (bboxMax s) (c * Dimensions) bmax;
     window \<leftarrow> slice ids (fst r) (snd r);
     clusterIDs \<leftarrow> sortClusterByCentroidDistance vectors window cen;
     s \<leftarrow> foldM (place_row vectors labels) clusterIDs
       (s\<lparr>centroids := cens, listOffsets := lo, blockOffsets := bo, bboxMin := bmins, bboxMax := bmaxs\<rparr>);
     lo \<leftarrow> put (listOffsets s) (c + 1) (of_nat (row_pos s));
     let bp = block_pos s + blocksForRows (length clusterIDs);
     bo \<leftarrow> put (blockOffsets s) (c + 1) (of_nat bp);
     Some (s\<lparr>listOffsets := lo, blockOffsets := bo, block_pos := bp\<rparr>) }"

definition materializeIVF ::
  "i16 list \<Rightarrow> u8 list \<Rightarrow> u32 list \<Rightarrow> ivfBuildRange list \<Rightarrow> IVFBuildOptions \<Rightarrow>
    (i16 list \<times> u8 list \<times> i16 list \<times> IVFMetadata) option" where
  "materializeIVF vectors labels ids ranges opts = do {
     let clusters = length ranges;
     s \<leftarrow> foldM (\<lambda>(c, r). place_cluster vectors labels ids c r) (zip [0..<clusters] ranges)
       \<lparr>orderedVectors = replicate (length vectors) 0, orderedLabels = replicate (length labels) 0,
        centroids = replicate (clusters * Dimensions) 0, listOffsets = replicate (clusters + 1) 0,
        blockOffsets = replicate (clusters + 1) 0, bboxMin = replicate (clusters * Dimensions) 0,
        bboxMax = replicate (clusters * Dimensions) 0, origIDs = replicate (length labels) 0,
        row_pos = 0, block_pos = 0\<rparr>;
     blocks \<leftarrow> buildIVFBlocks (orderedVectors s) (listOffsets s) (blockOffsets s);
     Some (orderedVectors s, orderedLabels s, blocks,
       \<lparr>Clusters = int clusters, Centroids = centroids s, CentroidBlocks = [], ListOffsets = listOffsets s,
        BlockOffsets = blockOffsets s, BBoxMin = bboxMin s, BBoxMax = bboxMax s, OrigIDs = origIDs s,
        NProbe = optNProbe opts, AmbiguousNProbe = optAmbiguousNProbe opts, Repair = optRepair opts\<rparr>) }"

datatype build_error = EmptyDataset | BadClusterCount

definition build_clusters :: "nat \<Rightarrow> int \<Rightarrow> int" where
  "build_clusters n requested =
     (let clusters = (if requested \<le> 0 then 8192 else requested)
      in if clusters > int n then highestPowerOfTwoLE (int n) else clusters)"

definition BuildIVFIndex :: "Reference list \<Rightarrow> IVFBuildOptions \<Rightarrow> (build_error + QuantizedIndex) option" where
  "BuildIVFIndex refs opts =
     (if refs = [] then Some (Inl EmptyDataset)
      else
        let clusters = build_clusters (length refs) (optClusters opts)
        in if clusters \<le> 0 \<or> \<not> isPowerOfTwo clusters then Some (Inl BadClusterCount)
        else do {
          let vectors = concat (map (\<lambda>r. QuantizeVector (Vector r)) refs);
          let labels = map (\<lambda>r. LabelByte (Label r)) refs;
          let ids = map of_nat [0..<length refs];
          (ids, ranges) \<leftarrow> balancedSplit vectors 0 (length ids) 0 (nat clusters) (ids, replicate (nat clusters) (0, 0));
          (ov, ol, blocks, ivf) \<leftarrow> materializeIVF vectors labels ids ranges opts;
          idx \<leftarrow> NewIVFQuantizedIndex ov ol ivf;
          Some (Inr (idx\<lparr>Blocks := blocks\<rparr>)) })"

end
