(* ===== verification/Build_Split.thy ===== *)
theory Build_Split
  imports Ivf_Build
begin

text \<open>
  The first half of the builder is right: the power-of-two helpers, and \<open>balancedSplit\<close>, which
  returns for every power of two, permutes the ids within the window, and cuts it into consecutive ranges
  whose sizes differ by at most one.
\<close>

subsection \<open>Powers of two\<close>

lemma and_pred_even: "(2 * w) AND (2 * w - 1) = 2 * (w AND (w - 1))" for w :: int
proof -
  have "(2 * w - 1) div 2 = w - 1" by linarith
  then show ?thesis by (subst and_rec) simp
qed

lemma and_pred_odd: "(2 * w + 1) AND (2 * w) = 2 * w" for w :: int
  by (subst and_rec) simp

lemma isPowerOfTwo_double: "isPowerOfTwo (2 * w) \<longleftrightarrow> isPowerOfTwo w"
  using and_pred_even [of w] by (auto simp: isPowerOfTwo_def)

lemma isPowerOfTwo_odd: "isPowerOfTwo (2 * w + 1) \<longleftrightarrow> w = 0"
  using and_pred_odd [of w] by (auto simp: isPowerOfTwo_def)

lemma isPowerOfTwo_power: "isPowerOfTwo (2 ^ k)"
proof (induction k)
  case 0
  then show ?case by (simp add: isPowerOfTwo_def)
next
  case (Suc k)
  then show ?case using isPowerOfTwo_double [of "2 ^ k"] by simp
qed

lemma isPowerOfTwo_ex: "isPowerOfTwo v \<Longrightarrow> \<exists>k. v = 2 ^ k"
proof (induction "nat v" arbitrary: v rule: less_induct)
  case less
  have pos: "0 < v" using less.prems by (simp add: isPowerOfTwo_def)
  show ?case
  proof (cases "even v")
    case True
    then obtain w where w: "v = 2 * w" by blast
    then have "isPowerOfTwo w" using less.prems isPowerOfTwo_double by simp
    then obtain k where "w = 2 ^ k" using less.hyps [of w] w pos by auto
    then have "v = 2 ^ Suc k" using w by simp
    then show ?thesis by blast
  next
    case False
    then obtain w where "v = 2 * w + 1" by (rule oddE)
    then have "v = 2 ^ 0" using less.prems isPowerOfTwo_odd by simp
    then show ?thesis by blast
  qed
qed

lemma isPowerOfTwo_iff: "isPowerOfTwo v \<longleftrightarrow> (\<exists>k. v = 2 ^ k)"
  using isPowerOfTwo_power isPowerOfTwo_ex by blast

lemma highestPowerOfTwoLE_from_ok:
  "0 < p \<Longrightarrow> p \<le> v \<Longrightarrow> \<exists>j. highestPowerOfTwoLE_from v p = p * 2 ^ j \<and>
    highestPowerOfTwoLE_from v p \<le> v \<and> v < 2 * highestPowerOfTwoLE_from v p"
proof (induction v p rule: highestPowerOfTwoLE_from.induct)
  case (1 v p)
  show ?case
  proof (cases "p \<le> v div 2")
    case True
    then have "p * 2 \<le> v" by linarith
    with True 1 obtain j where "highestPowerOfTwoLE_from v (p * 2) = p * 2 * 2 ^ j \<and>
      highestPowerOfTwoLE_from v (p * 2) \<le> v \<and> v < 2 * highestPowerOfTwoLE_from v (p * 2)"
      by (metis zero_less_mult_iff zero_less_numeral)
    then show ?thesis
      using True 1(2) by (intro exI [of _ "Suc j"]) (simp add: highestPowerOfTwoLE_from.simps [of v p])
  next
    case False
    then show ?thesis
      using 1(2,3) by (intro exI [of _ 0]) (auto simp: highestPowerOfTwoLE_from.simps [of v p])
  qed
qed

lemma highestPowerOfTwoLE_ok:
  assumes "0 < v"
  shows "isPowerOfTwo (highestPowerOfTwoLE v)" "highestPowerOfTwoLE v \<le> v" "v < 2 * highestPowerOfTwoLE v"
  using highestPowerOfTwoLE_from_ok [of 1 v] assms isPowerOfTwo_power
  by (auto simp: highestPowerOfTwoLE_def)

lemma build_clusters_le: "0 < n \<Longrightarrow> build_clusters n requested \<le> int n"
  using highestPowerOfTwoLE_ok(2) [of "int n"] by (simp add: build_clusters_def Let_def)

subsection \<open>The dimension of largest variance\<close>

text \<open>Ids whose vectors exist.\<close>

definition ids_ok :: "i16 list \<Rightarrow> u32 list \<Rightarrow> bool" where
  "ids_ok vectors ids \<longleftrightarrow> (\<forall>i \<in> set ids. unat i * Dimensions + Dimensions \<le> length vectors)"

lemma foldM_returns:
  assumes "\<And>x s. x \<in> set xs \<Longrightarrow> P s \<Longrightarrow> \<exists>t. f x s = Some t \<and> P t" "P s"
  shows "\<exists>t. foldM f xs s = Some t \<and> P t"
  using assms
proof (induction xs arbitrary: s)
  case Nil
  then show ?case by simp
next
  case (Cons x xs)
  from Cons.prems(1) [of x s] Cons.prems(2) obtain u where "f x s = Some u" "P u" by auto
  with Cons.IH [of u] Cons.prems(1) show ?case by auto
qed

lemma fold_pick_less:
  "fst acc < n \<Longrightarrow> (\<forall>d \<in> set ds. d < n) \<Longrightarrow>
   fst (fold (\<lambda>d (bd, bv). if fless bv (var d) then (d, var d) else (bd, bv)) ds acc) < (n :: nat)"
  by (induction ds arbitrary: acc) (auto split: prod.splits)

lemma maxVarianceDimension_ok:
  assumes "ids_ok vectors ids" "e \<le> length ids"
  shows "\<exists>d < Dimensions. maxVarianceDimension vectors ids s e = Some d"
proof -
  have "\<exists>t. foldM (\<lambda>i acc. do {
         rid \<leftarrow> get ids i;
         let base = unat rid * Dimensions;
         foldM (\<lambda>d (totals, squares). do {
             v \<leftarrow> get vectors (base + d);
             let v = sint v;
             Some (totals[d := add64 (totals ! d) v], squares[d := add64 (squares ! d) (mul64 v v)]) })
           [0..<Dimensions] acc })
       [s..<e] (replicate Dimensions 0, replicate Dimensions 0) = Some t \<and> True"
  proof (rule foldM_returns)
    fix i and acc :: "int list \<times> int list"
    assume "i \<in> set [s..<e]"
    then have i: "i < length ids" using assms(2) by simp
    then have "unat (ids ! i) * Dimensions + Dimensions \<le> length vectors"
      using assms(1) by (simp add: ids_ok_def)
    then have "\<exists>t. foldM (\<lambda>d (totals, squares). do {
             v \<leftarrow> get vectors (unat (ids ! i) * Dimensions + d);
             let v = sint v;
             Some (totals[d := add64 (totals ! d) v], squares[d := add64 (squares ! d) (mul64 v v)]) })
           [0..<Dimensions] acc = Some t \<and> True"
      by (intro foldM_returns) (auto simp: Let_def split: prod.splits)
    with i show "\<exists>t. (do {
         rid \<leftarrow> get ids i;
         let base = unat rid * Dimensions;
         foldM (\<lambda>d (totals, squares). do {
             v \<leftarrow> get vectors (base + d);
             let v = sint v;
             Some (totals[d := add64 (totals ! d) v], squares[d := add64 (squares ! d) (mul64 v v)]) })
           [0..<Dimensions] acc }) = Some t \<and> True" by (simp add: Let_def)
  qed simp
  then obtain totals squares where "foldM (\<lambda>i acc. do {
         rid \<leftarrow> get ids i;
         let base = unat rid * Dimensions;
         foldM (\<lambda>d (totals, squares). do {
             v \<leftarrow> get vectors (base + d);
             let v = sint v;
             Some (totals[d := add64 (totals ! d) v], squares[d := add64 (squares ! d) (mul64 v v)]) })
           [0..<Dimensions] acc })
       [s..<e] (replicate Dimensions 0, replicate Dimensions 0) = Some (totals, squares)" by auto
  moreover have "fst (fold (\<lambda>d (bd, bv). if fless bv (var d) then (d, var d) else (bd, bv))
      [0..<Dimensions] (0, Fin (- 1))) < Dimensions" for var
    by (rule fold_pick_less) (auto simp: Dimensions_def)
  ultimately show ?thesis by (simp add: maxVarianceDimension_def Let_def)
qed

subsection \<open>Sorting a window\<close>

lemma those_map_get: "those (map f xs) = Some (map (the \<circ> f) xs)" if "\<forall>x \<in> set xs. f x \<noteq> None"
  using that by (induction xs) auto

lemma sort_window_ok:
  assumes "ids_ok vectors window" "d < Dimensions"
  shows "\<exists>w. sort_window vectors d window = Some w \<and> mset w = mset window"
proof (cases "length window < 2")
  case False
  have "get vectors (unat i * Dimensions + d) \<noteq> None" if "i \<in> set window" for i
    using that assms by (auto simp: ids_ok_def get_def)
  with False show ?thesis by (simp add: sort_window_def those_map_get)
qed (simp add: sort_window_def)

subsection \<open>The split\<close>

abbreviation seg :: "'a list \<Rightarrow> nat \<Rightarrow> nat \<Rightarrow> 'a list" where
  "seg xs s e \<equiv> drop s (take e xs)"

lemma seg_join:
  assumes "s \<le> m" "m \<le> e"
  shows "seg xs s m @ seg xs m e = seg xs s e"
proof -
  from assms obtain i j where m: "m = s + i" "e = s + i + j" by (metis le_Suc_ex)
  have "seg xs s m = take i (drop s xs)" "seg xs m e = take j (drop i (drop s xs))" "seg xs s e = take (i + j) (drop s xs)"
    by (simp_all add: m drop_take add.commute)
  then show ?thesis by (simp only: take_add)
qed

text \<open>Ranges \<open>b\<close> to \<open>b + n - 1\<close> cut \<open>s..e\<close> into consecutive pieces of size \<open>lo\<close> to \<open>hi\<close>.\<close>

definition cuts :: "ivfBuildRange list \<Rightarrow> nat \<Rightarrow> nat \<Rightarrow> nat \<Rightarrow> nat \<Rightarrow> nat \<Rightarrow> nat \<Rightarrow> bool" where
  "cuts rs b n s e lo hi \<longleftrightarrow> (\<exists>f. f 0 = s \<and> f n = e \<and>
     (\<forall>i < n. rs ! (b + i) = (f i, f (Suc i)) \<and> f i + lo \<le> f (Suc i) \<and> f (Suc i) \<le> f i + hi))"

lemma cuts_weaken:
  assumes "cuts rs b n s e lo hi" "lo' \<le> lo" "hi \<le> hi'" "\<forall>i < n. rs' ! (b + i) = rs ! (b + i)"
  shows "cuts rs' b n s e lo' hi'"
proof -
  obtain f where f: "f 0 = s" "f n = e"
    "\<forall>i < n. rs ! (b + i) = (f i, f (Suc i)) \<and> f i + lo \<le> f (Suc i) \<and> f (Suc i) \<le> f i + hi"
    using assms(1) by (auto simp: cuts_def)
  then have "\<forall>i < n. rs' ! (b + i) = (f i, f (Suc i)) \<and> f i + lo' \<le> f (Suc i) \<and> f (Suc i) \<le> f i + hi'"
    using assms(2-4) by fastforce
  with f(1,2) show ?thesis by (auto simp: cuts_def)
qed

lemma cuts_join:
  assumes "cuts rs b n s m lo hi" "cuts rs (b + n) k m e lo hi"
  shows "cuts rs b (n + k) s e lo hi"
proof -
  obtain f where f: "f 0 = s" "f n = m"
    "\<forall>i < n. rs ! (b + i) = (f i, f (Suc i)) \<and> f i + lo \<le> f (Suc i) \<and> f (Suc i) \<le> f i + hi"
    using assms(1) by (auto simp: cuts_def)
  obtain g where g: "g 0 = m" "g k = e"
    "\<forall>i < k. rs ! (b + n + i) = (g i, g (Suc i)) \<and> g i + lo \<le> g (Suc i) \<and> g (Suc i) \<le> g i + hi"
    using assms(2) by (auto simp: cuts_def)
  define h where "h i = (if i \<le> n then f i else g (i - n))" for i
  have "rs ! (b + i) = (h i, h (Suc i)) \<and> h i + lo \<le> h (Suc i) \<and> h (Suc i) \<le> h i + hi" if "i < n + k" for i
  proof (cases "i < n")
    case True
    then show ?thesis using f(3) by (simp add: h_def)
  next
    case False
    define j where "j = i - n"
    have j: "i = n + j" "j < k" using False that by (simp_all add: j_def)
    have "h i = g j" using j f(2) g(1) by (simp add: h_def)
    moreover have "h (Suc i) = g (Suc j)" using j by (simp add: h_def Suc_diff_le)
    ultimately show ?thesis using g(3) j by (metis add.assoc)
  qed
  moreover have "h 0 = s" "h (n + k) = e" using f g by (auto simp: h_def)
  ultimately show ?thesis unfolding cuts_def by blast
qed

lemma half_sizes:
  fixes n k :: nat
  defines "n1 \<equiv> n div 2" and "n2 \<equiv> n - n div 2"
  shows "n div 2 ^ Suc k \<le> n1 div 2 ^ k" "n div 2 ^ Suc k \<le> n2 div 2 ^ k"
    and "(n1 + 2 ^ k - 1) div 2 ^ k \<le> (n + 2 ^ Suc k - 1) div 2 ^ Suc k"
    and "(n2 + 2 ^ k - 1) div 2 ^ k \<le> (n + 2 ^ Suc k - 1) div 2 ^ Suc k"
proof -
  have e: "n div 2 ^ Suc k = n1 div 2 ^ k" by (simp add: n1_def div_mult2_eq)
  then show "n div 2 ^ Suc k \<le> n1 div 2 ^ k" by simp
  have "n1 \<le> n2" by (simp add: n1_def n2_def)
  then have le: "n1 div 2 ^ k \<le> n2 div 2 ^ k" by (rule div_le_mono)
  with e show "n div 2 ^ Suc k \<le> n2 div 2 ^ k" by simp
  have "(n + 2 ^ Suc k - 1) div 2 = n2 + 2 ^ k - 1"
    using one_le_power [of "2 :: nat" k] unfolding n2_def power_Suc by linarith
  then have h: "(n + 2 ^ Suc k - 1) div 2 ^ Suc k = (n2 + 2 ^ k - 1) div 2 ^ k"
    by (simp add: div_mult2_eq)
  then show "(n2 + 2 ^ k - 1) div 2 ^ k \<le> (n + 2 ^ Suc k - 1) div 2 ^ Suc k" by simp
  show "(n1 + 2 ^ k - 1) div 2 ^ k \<le> (n + 2 ^ Suc k - 1) div 2 ^ Suc k"
    unfolding h using \<open>n1 \<le> n2\<close> by (intro div_le_mono) simp
qed

definition split_post ::
  "nat \<Rightarrow> nat \<Rightarrow> nat \<Rightarrow> nat \<Rightarrow> u32 list \<Rightarrow> ivfBuildRange list \<Rightarrow> u32 list \<Rightarrow> ivfBuildRange list \<Rightarrow> bool" where
  "split_post s e b n ids rs ids' rs' \<longleftrightarrow>
     length ids' = length ids \<and> mset (seg ids' s e) = mset (seg ids s e) \<and>
     take s ids' = take s ids \<and> drop e ids' = drop e ids \<and>
     length rs' = length rs \<and> (\<forall>i. i < b \<or> b + n \<le> i \<longrightarrow> rs' ! i = rs ! i) \<and>
     cuts rs' b n s e ((e - s) div n) ((e - s + n - 1) div n)"

lemma split_post_mset:
  fixes ids ids' :: "u32 list"
  assumes "s \<le> e" "mset (seg ids' s e) = mset (seg ids s e)" "take s ids' = take s ids" "drop e ids' = drop e ids"
  shows "mset ids' = mset ids"
proof -
  have "take s xs @ seg xs s e = take e xs" for xs :: "u32 list"
    using append_take_drop_id [of s "take e xs"] assms(1) by (simp add: min_absorb1)
  then have "xs = take s xs @ seg xs s e @ drop e xs" for xs :: "u32 list"
    by (metis append.assoc append_take_drop_id)
  then have "mset xs = mset (take s xs) + mset (seg xs s e) + mset (drop e xs)" for xs :: "u32 list"
    by (metis mset_append add.assoc)
  with assms(2-4) show ?thesis by metis
qed

lemma balancedSplit_ok:
  "s \<le> e \<Longrightarrow> e \<le> length ids \<Longrightarrow> b + 2 ^ k \<le> length rs \<Longrightarrow> ids_ok vectors ids \<Longrightarrow>
   \<exists>ids' rs'. balancedSplit vectors s e b (2 ^ k) (ids, rs) = Some (ids', rs') \<and>
     split_post s e b (2 ^ k) ids rs ids' rs'"
proof (induction k arbitrary: s e b ids rs)
  case 0
  have "cuts (rs[b := (s, e)]) b 1 s e (e - s) (e - s)"
    unfolding cuts_def using 0 by (intro exI [of _ "\<lambda>i. if i = 0 then s else e"]) simp
  with 0 have "split_post s e b 1 ids rs ids (rs[b := (s, e)])" by (simp add: split_post_def)
  with 0 show ?case
    by (intro exI [of _ ids] exI [of _ "rs[b := (s, e)]"]) (simp add: balancedSplit.simps)
next
  case (Suc k)
  define mid where "mid = s + (e - s) div 2"
  define half :: nat where "half = 2 ^ k"
  have mid: "s \<le> mid" "mid \<le> e" using Suc.prems(1) by (auto simp: mid_def)
  have len: "e - mid = (e - s) - (e - s) div 2" "mid - s = (e - s) div 2" by (auto simp: mid_def)
  have two: "(2 ^ Suc k :: nat) \<noteq> 1" "(2 ^ Suc k :: nat) div 2 = half" by (simp_all add: half_def)
  obtain d where d: "d < Dimensions" "maxVarianceDimension vectors ids s e = Some d"
    using maxVarianceDimension_ok [OF Suc.prems(4,2)] by blast
  have slice: "slice ids s e = Some (seg ids s e)"
    using Suc.prems(1,2) by (simp add: slice_def take_drop)
  have "ids_ok vectors (seg ids s e)"
    using Suc.prems(4) unfolding ids_ok_def by (meson in_set_dropD in_set_takeD)
  from sort_window_ok [OF this d(1)] obtain w
    where w: "sort_window vectors d (seg ids s e) = Some w" "mset w = mset (seg ids s e)" by blast
  have lw: "length w = e - s" using mset_eq_length [OF w(2)] Suc.prems(2) by simp
  define ids1 where "ids1 = take s ids @ w @ drop e ids"
  have copy: "copy_at ids s w = Some ids1" using lw Suc.prems(1,2) by (simp add: copy_at_def ids1_def)
  have ids1: "length ids1 = length ids" "take s ids1 = take s ids" "drop e ids1 = drop e ids" "seg ids1 s e = w"
    using lw Suc.prems(1,2) by (simp_all add: ids1_def)
  have m1: "mset ids1 = mset ids" by (rule split_post_mset [OF Suc.prems(1)]) (simp_all only: ids1 w(2))
  then have ok1: "ids_ok vectors ids1" using Suc.prems(4) by (metis ids_ok_def set_mset_mset)
  have le: "mid \<le> length ids1" "b + half \<le> length rs" using mid Suc.prems(2,3) ids1(1) by (simp_all add: half_def)
  note IH = Suc.IH [folded half_def]
  from IH [OF mid(1) le ok1] obtain ids2 rs2
    where r2: "balancedSplit vectors s mid b half (ids1, rs) = Some (ids2, rs2)"
    and p2: "split_post s mid b half ids1 rs ids2 rs2" by blast
  have "mset ids2 = mset ids1"
    by (rule split_post_mset [OF mid(1)]) (use p2 in \<open>simp_all add: split_post_def\<close>)
  then have ok2: "ids_ok vectors ids2" using ok1 by (metis ids_ok_def set_mset_mset)
  have le2: "e \<le> length ids2" "b + half + half \<le> length rs2"
    using p2 Suc.prems(2,3) ids1(1) by (simp_all add: split_post_def half_def)
  from IH [OF mid(2) le2 ok2] obtain ids3 rs3
    where r3: "balancedSplit vectors mid e (b + half) half (ids2, rs2) = Some (ids3, rs3)"
    and p3: "split_post mid e (b + half) half ids2 rs2 ids3 rs3" by blast
  have run: "balancedSplit vectors s e b (2 ^ Suc k) (ids, rs) = Some (ids3, rs3)"
    using two d(2) slice w(1) copy r2 r3
    unfolding balancedSplit.simps [of vectors s e b "2 ^ Suc k"] Let_def mid_def [symmetric]
    by (simp only: two if_False fst_conv snd_conv bind.bind_lunit)
  have left: "seg ids3 s mid = seg ids2 s mid" using p3 by (simp add: split_post_def)
  have right: "seg ids2 mid e = seg ids1 mid e"
    using p2 by (simp add: split_post_def drop_take)
  have "mset (seg ids3 s e) = mset (seg ids3 s mid) + mset (seg ids3 mid e)"
    using seg_join [OF mid] by (metis mset_append)
  also have "\<dots> = mset (seg ids1 s mid) + mset (seg ids1 mid e)"
    using p2 p3 by (simp only: left right split_post_def)
  also have "\<dots> = mset (seg ids s e)"
    using seg_join [OF mid, of ids1] ids1(4) w(2) by (metis mset_append)
  finally have m: "mset (seg ids3 s e) = mset (seg ids s e)" .
  have "take s ids3 = take s (take mid ids3)" using mid by (simp add: min_absorb1)
  also have "\<dots> = take s ids" using p2 p3 ids1(2) mid by (simp add: split_post_def min_absorb1)
  finally have t: "take s ids3 = take s ids" .
  have "drop e ids2 = drop (e - mid) (drop mid ids2)" using mid by simp
  also have "\<dots> = drop e ids1" using p2 mid by (simp add: split_post_def)
  finally have dr: "drop e ids3 = drop e ids" using p3 ids1(3) by (simp add: split_post_def)
  note sizes = half_sizes [of "e - s" k, folded len half_def]
  have "cuts rs3 b half s mid ((e - s) div 2 ^ Suc k) ((e - s + 2 ^ Suc k - 1) div 2 ^ Suc k)"
  proof (rule cuts_weaken [OF _ sizes(1,3)])
    show "cuts rs2 b half s mid ((mid - s) div half) ((mid - s + half - 1) div half)"
      using p2 by (simp only: split_post_def)
    show "\<forall>i < half. rs3 ! (b + i) = rs2 ! (b + i)" using p3 by (simp add: split_post_def)
  qed
  moreover have "cuts rs3 (b + half) half mid e ((e - s) div 2 ^ Suc k) ((e - s + 2 ^ Suc k - 1) div 2 ^ Suc k)"
  proof (rule cuts_weaken [OF _ sizes(2,4)])
    show "cuts rs3 (b + half) half mid e ((e - mid) div half) ((e - mid + half - 1) div half)"
      using p3 by (simp only: split_post_def)
  qed simp
  ultimately have "cuts rs3 b (2 ^ Suc k) s e ((e - s) div 2 ^ Suc k) ((e - s + 2 ^ Suc k - 1) div 2 ^ Suc k)"
    using cuts_join [of rs3 b half s mid _ _ half e] by (simp add: half_def mult_2)
  moreover have "length ids3 = length ids" "length rs3 = length rs" "\<forall>i. i < b \<or> b + 2 ^ Suc k \<le> i \<longrightarrow> rs3 ! i = rs ! i"
    using p2 p3 ids1(1) by (auto simp: split_post_def half_def)
  ultimately show ?case using run m t dr unfolding split_post_def by blast
qed

end
