(* ===== verification/Build_Layout.thy ===== *)
theory Build_Layout
  imports Build_Split
begin

text \<open>
  The second half of the builder: cluster statistics, the order within a cluster, and the
  layout. \<open>tables\<close> describes the arrays of \<open>materializeIVF\<close> after any number of clusters in terms of
  what was appended, and \<open>materializeIVF_ok\<close> what they hold in the end.
\<close>

subsection \<open>Loops over positions\<close>

lemma foldM_upt:
  assumes "\<And>c s. c < n \<Longrightarrow> P c s \<Longrightarrow> \<exists>t. f c s = Some t \<and> P (Suc c) t" "P 0 s"
  shows "\<exists>t. foldM f [0..<n] s = Some t \<and> P n t"
  using assms(1)
proof (induction n)
  case 0
  with assms(2) show ?case by simp
next
  case (Suc n)
  then obtain u where "foldM f [0..<n] s = Some u" "P n u" by auto
  with Suc.prems [of n u] show ?case by (auto simp: foldM_append)
qed

lemma fold_update_map:
  "k \<le> length xs \<Longrightarrow>
   fold (\<lambda>d xs. xs[d := g d (xs ! d)]) [0..<k] xs = map (\<lambda>d. g d (xs ! d)) [0..<k] @ drop k xs"
proof (induction k)
  case 0
  then show ?case by simp
next
  case (Suc k)
  then have "drop k xs = xs ! k # drop (Suc k) xs" by (simp add: Cons_nth_drop_Suc)
  with Suc show ?case by (simp add: nth_append list_update_append)
qed

lemma fold_update_all:
  "length xs = n \<Longrightarrow> fold (\<lambda>d xs. xs[d := g d (xs ! d)]) [0..<n] xs = map (\<lambda>d. g d (xs ! d)) [0..<n]"
  using fold_update_map [of n xs g] by simp

lemma fold_triple:
  "fold (\<lambda>d (a, b, c). (f d a, g d b, h d c)) ds (x, y, z) = (fold f ds x, fold g ds y, fold h ds z)"
  by (induction ds arbitrary: x y z) auto

subsection \<open>Cluster statistics\<close>

abbreviation row_val :: "i16 list \<Rightarrow> u32 list \<Rightarrow> nat \<Rightarrow> nat \<Rightarrow> i16" where
  "row_val vectors ids i d \<equiv> vectors ! (unat (ids ! i) * Dimensions + d)"

definition stat_row :: "(nat \<Rightarrow> i16) \<Rightarrow> int list \<times> i16 list \<times> i16 list \<Rightarrow> int list \<times> i16 list \<times> i16 list" where
  "stat_row v = (\<lambda>(a, b, c).
     (map (\<lambda>d. add64 (a ! d) (sint (v d))) [0..<Dimensions],
      map (\<lambda>d. if sint (v d) < sint (b ! d) then v d else b ! d) [0..<Dimensions],
      map (\<lambda>d. if sint (v d) > sint (c ! d) then v d else c ! d) [0..<Dimensions]))"

lemma stat_inner:
  assumes "length a = Dimensions" "length b = Dimensions" "length c = Dimensions" "base + Dimensions \<le> length vectors"
  shows "foldM (\<lambda>d (totals, bboxMin, bboxMax). do {
      v \<leftarrow> get vectors (base + d);
      Some (totals[d := add64 (totals ! d) (sint v)],
        (if sint v < sint (bboxMin ! d) then bboxMin[d := v] else bboxMin),
        (if sint v > sint (bboxMax ! d) then bboxMax[d := v] else bboxMax)) }) [0..<Dimensions] (a, b, c) =
    Some (stat_row (\<lambda>d. vectors ! (base + d)) (a, b, c))"
proof -
  let ?v = "\<lambda>d. vectors ! (base + d)"
  let ?f = "\<lambda>d xs. xs[d := add64 (xs ! d) (sint (?v d))]"
  let ?g = "\<lambda>d xs. xs[d := (if sint (?v d) < sint (xs ! d) then ?v d else xs ! d)]"
  let ?h = "\<lambda>d xs. xs[d := (if sint (?v d) > sint (xs ! d) then ?v d else xs ! d)]"
  have "foldM (\<lambda>d (totals, bboxMin, bboxMax). do {
      v \<leftarrow> get vectors (base + d);
      Some (totals[d := add64 (totals ! d) (sint v)],
        (if sint v < sint (bboxMin ! d) then bboxMin[d := v] else bboxMin),
        (if sint v > sint (bboxMax ! d) then bboxMax[d := v] else bboxMax)) }) [0..<Dimensions] (a, b, c) =
    foldM (\<lambda>d s. Some ((\<lambda>(x, y, z). (?f d x, ?g d y, ?h d z)) s)) [0..<Dimensions] (a, b, c)"
    using assms(4) by (intro foldM_cong) (auto split: prod.splits)
  then show ?thesis
    unfolding foldM_Some fold_triple stat_row_def prod.case
      fold_update_all [OF assms(1), of "\<lambda>d x. add64 x (sint (?v d))"]
      fold_update_all [OF assms(2), of "\<lambda>d x. if sint (?v d) < sint x then ?v d else x"]
      fold_update_all [OF assms(3), of "\<lambda>d x. if sint (?v d) > sint x then ?v d else x"] .
qed

definition stats_inv ::
  "i16 list \<Rightarrow> u32 list \<Rightarrow> nat list \<Rightarrow> int list \<times> i16 list \<times> i16 list \<Rightarrow> bool" where
  "stats_inv vectors ids is = (\<lambda>(a, b, c).
     length a = Dimensions \<and> length b = Dimensions \<and> length c = Dimensions \<and>
     (\<forall>d < Dimensions. a ! d = sum_list (map (\<lambda>i. sint (row_val vectors ids i d)) is) \<and>
       (\<forall>i \<in> set is. sint (b ! d) \<le> sint (row_val vectors ids i d) \<and> sint (row_val vectors ids i d) \<le> sint (c ! d))))"

lemma sum_sint_bound: "\<bar>sum_list (map (\<lambda>i. sint (f i :: i16)) is)\<bar> \<le> 32768 * int (length is)"
proof (induction "is")
  case (Cons i "is")
  have "\<bar>sint (f i)\<bar> \<le> 32768"
    using sint16_bounds [of "f i"] by linarith
  moreover have "\<bar>sint (f i) + sum_list (map (\<lambda>i. sint (f i)) is)\<bar> \<le> \<bar>sint (f i)\<bar> + \<bar>sum_list (map (\<lambda>i. sint (f i)) is)\<bar>"
    by (rule abs_triangle_ineq)
  ultimately show ?case using Cons.IH by simp
qed simp

lemma widen_other:
  "sint b \<le> sint x \<and> sint x \<le> sint (c :: i16) \<Longrightarrow>
   sint (if sint v < sint b then v else b) \<le> sint x \<and> sint x \<le> sint (if sint c < sint v then v else c)"
  for b v x :: i16
  by auto

lemma widen_self:
  "sint (if sint v < sint b then v else b) \<le> sint v \<and> sint v \<le> sint (if sint c < sint v then v else c)"
  for b c v :: i16
  by auto

lemma computeClusterStats_ok:
  assumes "ids_ok vectors ids" "e \<le> length ids" "length ids < 2 ^ 32"
  shows "\<exists>a b c. computeClusterStats vectors ids (s, e) =
      Some (map (\<lambda>d. roundDivInt64ToInt16 (a ! d) (int e - int s)) [0..<Dimensions], b, c) \<and>
    stats_inv vectors ids [s..<e] (a, b, c)"
proof -
  let ?body = "\<lambda>i acc. do {
         rid \<leftarrow> get ids i;
         let base = unat rid * Dimensions;
         foldM (\<lambda>d (totals, bboxMin, bboxMax). do {
             v \<leftarrow> get vectors (base + d);
             Some (totals[d := add64 (totals ! d) (sint v)],
               (if sint v < sint (bboxMin ! d) then bboxMin[d := v] else bboxMin),
               (if sint v > sint (bboxMax ! d) then bboxMax[d := v] else bboxMax)) })
           [0..<Dimensions] acc }"
  have "\<exists>t. foldM ?body [s..<e] (replicate Dimensions 0, replicate Dimensions 32767, replicate Dimensions (- 32768))
      = Some t \<and> stats_inv vectors ids [s..<e] t"
  proof (rule foldM_invariant)
    show "stats_inv vectors ids [] (replicate Dimensions 0, replicate Dimensions 32767, replicate Dimensions (- 32768))"
      by (simp add: stats_inv_def)
  next
    fix ys i zs t
    assume split: "[s..<e] = ys @ i # zs" and inv: "stats_inv vectors ids ys t"
    obtain a b c where t: "t = (a, b, c)" by (cases t)
    have "i \<in> set [s..<e]" unfolding split by simp
    then have i: "i < length ids" using assms(2) by simp
    then have base: "unat (ids ! i) * Dimensions + Dimensions \<le> length vectors"
      using assms(1) by (simp add: ids_ok_def)
    have len: "length a = Dimensions" "length b = Dimensions" "length c = Dimensions"
      using inv by (auto simp: stats_inv_def t)
    have "length ys < e" using arg_cong [OF split, of length] by simp
    then have ys: "int (length ys) < 2 ^ 32" using assms(2,3) by simp
    let ?v = "\<lambda>d. row_val vectors ids i d"
    have run: "?body i t = Some (stat_row ?v t)"
      using i stat_inner [OF len base] by (simp add: t Let_def)
    have add: "add64 (a ! d) (sint (?v d)) = a ! d + sint (?v d)" if "d < Dimensions" for d
    proof -
      have "a ! d = sum_list (map (\<lambda>i. sint (row_val vectors ids i d)) ys)"
        using inv that by (simp add: stats_inv_def t)
      then have "\<bar>a ! d\<bar> \<le> 32768 * int (length ys)" using sum_sint_bound by metis
      moreover have "- 32768 \<le> sint (?v d)" "sint (?v d) \<le> 32767" by simp_all
      moreover have "int (length ys) < 4294967296" using ys by simp
      ultimately show ?thesis unfolding abs_le_iff by (intro add64_id) linarith+
    qed
    have "stats_inv vectors ids (ys @ [i]) (stat_row ?v t)"
      using inv add widen_self
      by (simp add: stats_inv_def stat_row_def t ball_Un cong: if_cong split del: if_split)
        (metis widen_other)
    with run show "\<exists>t'. ?body i t = Some t' \<and> stats_inv vectors ids (ys @ [i]) t'" by blast
  qed
  then show ?thesis by (auto simp: computeClusterStats_def)
qed

subsection \<open>The order within a cluster\<close>

text \<open>Adding up the terms of a squared distance stays far from overflow.\<close>

lemma foldM_sq_sum:
  assumes "\<And>d. d \<in> set ds \<Longrightarrow> get vectors (base + d) = Some (v d)"
    and "0 \<le> acc" "acc + 4294836225 * int (length ds) \<le> 9223372036854775807"
  shows "foldM (\<lambda>d acc. do {
         v \<leftarrow> get vectors (base + d);
         let delta = sub64 (sint v) (sint (w d :: i16));
         Some (add64 acc (mul64 delta delta)) }) ds acc =
    Some (acc + sum_list (map (\<lambda>d. sq (v d) (w d)) ds))"
  using assms
proof (induction ds arbitrary: acc)
  case Nil
  then show ?case by simp
next
  case (Cons d ds)
  have "sq (v d) (w d) \<le> 4294836225" by (rule sq_bound)
  then have "add64 acc (sq (v d) (w d)) = acc + sq (v d) (w d)" and "0 \<le> acc + sq (v d) (w d)"
    "acc + sq (v d) (w d) + 4294836225 * int (length ds) \<le> 9223372036854775807"
    using Cons.prems(2,3) sq_nonneg [of "v d" "w d"] by (auto intro!: add64_id simp del: sq_nonneg)
  then show ?case using Cons.IH [OF Cons.prems(1)] Cons.prems(1) by (simp add: Let_def add.assoc)
qed

lemma vectorToCentroidDistance_ok:
  assumes "unat i * Dimensions + Dimensions \<le> length vectors"
  shows "vectorToCentroidDistance vectors i centroid = Some (sqdist (vec_at vectors (unat i * Dimensions)) centroid)"
proof -
  have "foldM (\<lambda>d acc. do {
         v \<leftarrow> get vectors (unat i * Dimensions + d);
         let delta = sub64 (sint v) (sint (centroid ! d));
         Some (add64 acc (mul64 delta delta)) }) [0..<Dimensions] 0 =
    Some (0 + sum_list (map (\<lambda>d. sq (vec_at vectors (unat i * Dimensions) ! d) (centroid ! d)) [0..<Dimensions]))"
    using assms by (intro foldM_sq_sum) (auto simp: nth_vec_at Dimensions_def)
  then show ?thesis
    by (simp add: vectorToCentroidDistance_def sqdist_def sum_list_distinct_conv_sum_set atLeast0LessThan)
qed

definition cluster_order :: "i16 list \<Rightarrow> u32 list \<Rightarrow> i16 list \<Rightarrow> u32 list" where
  "cluster_order vectors ids centroid =
     map rank_id (sort (map (\<lambda>i. Rank (sqdist (vec_at vectors (unat i * Dimensions)) centroid) i) ids))"

lemma mset_cluster_order [simp]: "mset (cluster_order vectors ids centroid) = mset ids"
proof -
  have "mset (cluster_order vectors ids centroid) =
      image_mset rank_id (mset (map (\<lambda>i. Rank (sqdist (vec_at vectors (unat i * Dimensions)) centroid) i) ids))"
    by (simp add: cluster_order_def)
  also have "\<dots> = mset ids" by (simp flip: mset_map add: comp_def)
  finally show ?thesis .
qed

lemma sortCluster_ok:
  assumes "ids_ok vectors ids"
  shows "sortClusterByCentroidDistance vectors ids centroid = Some (cluster_order vectors ids centroid)"
proof -
  have "those (map (\<lambda>i. do { d \<leftarrow> vectorToCentroidDistance vectors i centroid; Some (Rank d i) }) ids) =
      Some (map (\<lambda>i. Rank (sqdist (vec_at vectors (unat i * Dimensions)) centroid) i) ids)"
    using assms vectorToCentroidDistance_ok [of _ vectors centroid]
    by (intro those_map_Some) (auto simp: ids_ok_def)
  then show ?thesis by (simp add: sortClusterByCentroidDistance_def cluster_order_def)
qed

subsection \<open>Appending rows\<close>

lemma take_put: "n < length xs \<Longrightarrow> take (Suc n) (xs[n := x]) = take n xs @ [x]"
  by (simp add: take_Suc_conv_app_nth)

lemma copy_at_ok:
  assumes "n + length ys \<le> length xs"
  shows "\<exists>zs. copy_at xs n ys = Some zs \<and> length zs = length xs \<and> take (n + length ys) zs = take n xs @ ys"
  using assms by (simp add: copy_at_def)

definition vecs :: "i16 list \<Rightarrow> u32 list \<Rightarrow> i16 list" where
  "vecs vectors ids = concat (map (\<lambda>i. vec_at vectors (unat i * Dimensions)) ids)"

definition labels_of :: "u8 list \<Rightarrow> u32 list \<Rightarrow> u8 list" where
  "labels_of labels ids = map (\<lambda>i. labels ! unat i) ids"

text \<open>The rows placed so far are those of the ids \<open>done\<close>, in order.\<close>

definition placed :: "i16 list \<Rightarrow> u8 list \<Rightarrow> u32 list \<Rightarrow> layout_state \<Rightarrow> bool" where
  "placed vectors labels ids s \<longleftrightarrow> row_pos s = length ids \<and>
     length (origIDs s) = length labels \<and> length (orderedLabels s) = length labels \<and>
     length (orderedVectors s) = length labels * Dimensions \<and>
     take (row_pos s) (origIDs s) = ids \<and> take (row_pos s) (orderedLabels s) = labels_of labels ids \<and>
     take (row_pos s * Dimensions) (orderedVectors s) = vecs vectors ids"

text \<open>The tables that placing rows leaves alone.\<close>

definition same_tables :: "layout_state \<Rightarrow> layout_state \<Rightarrow> bool" where
  "same_tables s t \<longleftrightarrow> centroids t = centroids s \<and> listOffsets t = listOffsets s \<and>
     blockOffsets t = blockOffsets s \<and> bboxMin t = bboxMin s \<and> bboxMax t = bboxMax s \<and> block_pos t = block_pos s"

lemma place_row_ok:
  assumes "placed vectors labels ids s" "length ids < length labels"
    and "unat i * Dimensions + Dimensions \<le> length vectors" "unat i < length labels"
  shows "\<exists>t. place_row vectors labels i s = Some t \<and> placed vectors labels (ids @ [i]) t \<and> same_tables s t"
proof -
  let ?v = "vec_at vectors (unat i * Dimensions)"
  have v: "length ?v = Dimensions" using assms(3) by (rule length_vec_at)
  have fit: "row_pos s * Dimensions + length ?v \<le> length (orderedVectors s)"
    using block_fits [OF assms(2), of Dimensions] assms(1) v by (simp add: placed_def)
  from copy_at_ok [OF fit] obtain ov where ov: "copy_at (orderedVectors s) (row_pos s * Dimensions) ?v = Some ov"
    "length ov = length (orderedVectors s)"
    "take (row_pos s * Dimensions + length ?v) ov = take (row_pos s * Dimensions) (orderedVectors s) @ ?v" by blast
  have pos: "row_pos s < length labels" "length (origIDs s) = length labels" "length (orderedLabels s) = length labels"
    using assms(1,2) by (auto simp: placed_def)
  have rows: "take (row_pos s * Dimensions) (orderedVectors s) = vecs vectors ids"
    using assms(1) unfolding placed_def by blast
  have "take (Suc (row_pos s) * Dimensions) ov = vecs vectors (ids @ [i])"
    using ov(3) v unfolding rows by (simp add: vecs_def add.commute)
  then show ?thesis
    using assms pos ov(1,2)
    by (auto simp: place_row_def slice_vec_at placed_def same_tables_def take_put labels_of_def)
qed

lemma place_rows_ok:
  "placed vectors labels ids s \<Longrightarrow> length ids + length js \<le> length labels \<Longrightarrow> ids_ok vectors js \<Longrightarrow>
   (\<forall>i \<in> set js. unat i < length labels) \<Longrightarrow>
   \<exists>t. foldM (place_row vectors labels) js s = Some t \<and> placed vectors labels (ids @ js) t \<and> same_tables s t"
proof (induction js arbitrary: ids s)
  case Nil
  then show ?case by (simp add: same_tables_def)
next
  case (Cons j js)
  then obtain u where u: "place_row vectors labels j s = Some u" "placed vectors labels (ids @ [j]) u" "same_tables s u"
    using place_row_ok [OF Cons.prems(1), of j] by (auto simp: ids_ok_def)
  have "ids_ok vectors js" using Cons.prems(3) by (simp add: ids_ok_def)
  with Cons.IH [OF u(2)] Cons.prems(2,4) obtain t
    where "foldM (place_row vectors labels) js u = Some t" "placed vectors labels ((ids @ [j]) @ js) t" "same_tables u t"
    by auto
  with u show ?case by (auto simp: same_tables_def)
qed

end
