(* ===== verification/Build_Tables.thy ===== *)
theory Build_Tables
  imports Build_Layout
begin

text \<open>
  The tables of the builder. \<open>laid\<close> says what the arrays of \<open>materializeIVF\<close> hold after some clusters
  have been placed: the rows in order, both offset tables, and for every cluster its centroid (the
  rounded mean of its rows), a box around its rows, and its rows sorted by distance to the centroid.
\<close>

subsection \<open>Rows of a table with one vector per cluster\<close>

lemma vec_at_take:
  assumes "a + Dimensions \<le> m" "m \<le> length xs"
  shows "vec_at (take m xs @ zs) a = vec_at xs a"
proof -
  have "a \<le> m" "Dimensions \<le> m - a" "min (length xs) m = m" using assms by auto
  then show ?thesis by (simp add: vec_at_def drop_take min_absorb1)
qed

lemma copy_row:
  assumes "c < n" "length xs = n * Dimensions" "length ys = Dimensions"
  shows "\<exists>zs. copy_at xs (c * Dimensions) ys = Some zs \<and> length zs = length xs \<and>
    vec_at zs (c * Dimensions) = ys \<and> (\<forall>k < c. vec_at zs (k * Dimensions) = vec_at xs (k * Dimensions))"
proof -
  let ?zs = "take (c * Dimensions) xs @ ys @ drop (c * Dimensions + Dimensions) xs"
  have fit: "c * Dimensions + Dimensions \<le> length xs" using block_fits [OF assms(1)] assms(2) by simp
  have "vec_at ?zs (k * Dimensions) = vec_at xs (k * Dimensions)" if "k < c" for k
  proof -
    have "k * Dimensions + Dimensions \<le> c * Dimensions" by (rule block_fits [OF that])
    then show ?thesis using fit by (intro vec_at_take) auto
  qed
  moreover have "vec_at ?zs (c * Dimensions) = ys" using fit assms(3) by (simp add: vec_at_def)
  ultimately show ?thesis using fit assms(3) by (simp add: copy_at_def)
qed

lemma map_nth_seg: "e \<le> length xs \<Longrightarrow> map ((!) xs) [s..<e] = seg xs s e"
  by (rule nth_equalityI) auto

lemma slice_seg: "s \<le> e \<Longrightarrow> e \<le> length xs \<Longrightarrow> slice xs s e = Some (seg xs s e)"
  by (simp add: slice_def drop_take)

subsection \<open>What a cluster looks like\<close>

definition centroid_of :: "i16 list \<Rightarrow> u32 list \<Rightarrow> i16 list" where
  "centroid_of vectors cs = map (\<lambda>d. roundDivInt64ToInt16
     (sum_list (map (\<lambda>i. sint (vectors ! (unat i * Dimensions + d))) cs)) (int (length cs))) [0..<Dimensions]"

lemma length_centroid_of [simp]: "length (centroid_of vectors cs) = Dimensions"
  by (simp add: centroid_of_def)

lemma centroid_of_mset: "mset cs = mset ds \<Longrightarrow> centroid_of vectors cs = centroid_of vectors ds"
  by (simp add: centroid_of_def sum_mset_sum_list [symmetric] mset_eq_length [of cs ds] cong: map_cong)

definition boxed :: "i16 list \<Rightarrow> u32 list \<Rightarrow> i16 list \<Rightarrow> i16 list \<Rightarrow> bool" where
  "boxed vectors cs mn mx \<longleftrightarrow> (\<forall>i \<in> set cs. \<forall>d < Dimensions.
     sint (mn ! d) \<le> sint (vectors ! (unat i * Dimensions + d)) \<and>
     sint (vectors ! (unat i * Dimensions + d)) \<le> sint (mx ! d))"

definition by_centroid :: "i16 list \<Rightarrow> u32 list \<Rightarrow> bool" where
  "by_centroid vectors cs \<longleftrightarrow>
     sorted (map (\<lambda>i. Rank (sqdist (vec_at vectors (unat i * Dimensions)) (centroid_of vectors cs)) i) cs)"

lemma by_centroid_cluster_order:
  "by_centroid vectors (cluster_order vectors cs (centroid_of vectors cs))"
proof -
  let ?r = "\<lambda>i. Rank (sqdist (vec_at vectors (unat i * Dimensions)) (centroid_of vectors cs)) i"
  let ?o = "cluster_order vectors cs (centroid_of vectors cs)"
  have "map ?r ?o = sort (map ?r cs)"
    unfolding cluster_order_def map_map
    by (rule map_idI) auto
  moreover have "centroid_of vectors ?o = centroid_of vectors cs" by (rule centroid_of_mset) simp
  ultimately show ?thesis by (simp add: by_centroid_def)
qed

lemma cluster_stats_ok:
  assumes "ids_ok vectors ids" "s \<le> e" "e \<le> length ids" "length ids < 2 ^ 32"
  shows "\<exists>mn mx. computeClusterStats vectors ids (s, e) = Some (centroid_of vectors (seg ids s e), mn, mx) \<and>
    length mn = Dimensions \<and> length mx = Dimensions \<and> boxed vectors (seg ids s e) mn mx"
proof -
  obtain a b c where abc: "computeClusterStats vectors ids (s, e) =
      Some (map (\<lambda>d. roundDivInt64ToInt16 (a ! d) (int e - int s)) [0..<Dimensions], b, c)"
    "stats_inv vectors ids [s..<e] (a, b, c)"
    using computeClusterStats_ok [OF assms(1,3,4)] by blast
  have seg: "seg ids s e = map ((!) ids) [s..<e]" using assms(3) by (simp add: map_nth_seg)
  have "map (\<lambda>d. roundDivInt64ToInt16 (a ! d) (int e - int s)) [0..<Dimensions] = centroid_of vectors (seg ids s e)"
    using abc(2) assms(2) by (simp add: centroid_of_def seg stats_inv_def comp_def)
  moreover have "boxed vectors (seg ids s e) b c"
    using abc(2) by (auto simp: boxed_def seg stats_inv_def)
  ultimately show ?thesis using abc by (auto simp: stats_inv_def)
qed

subsection \<open>The tables\<close>

definition blocks_of :: "u32 list list \<Rightarrow> nat" where
  "blocks_of css = sum_list (map (\<lambda>cs. blocksForRows (length cs)) css)"

definition offsets_of :: "u32 list list \<Rightarrow> nat \<Rightarrow> layout_state \<Rightarrow> bool" where
  "offsets_of css n s \<longleftrightarrow> length (listOffsets s) = n + 1 \<and> length (blockOffsets s) = n + 1 \<and>
     block_pos s = blocks_of css \<and>
     (\<forall>k \<le> length css. listOffsets s ! k = of_nat (length (concat (take k css))) \<and>
        blockOffsets s ! k = of_nat (blocks_of (take k css)))"

definition cluster_tables :: "i16 list \<Rightarrow> u32 list list \<Rightarrow> nat \<Rightarrow> layout_state \<Rightarrow> bool" where
  "cluster_tables vectors css n s \<longleftrightarrow> length (centroids s) = n * Dimensions \<and>
     length (bboxMin s) = n * Dimensions \<and> length (bboxMax s) = n * Dimensions \<and>
     (\<forall>k < length css. vec_at (centroids s) (k * Dimensions) = centroid_of vectors (css ! k) \<and>
        boxed vectors (css ! k) (vec_at (bboxMin s) (k * Dimensions)) (vec_at (bboxMax s) (k * Dimensions)) \<and>
        by_centroid vectors (css ! k))"

definition laid :: "i16 list \<Rightarrow> u8 list \<Rightarrow> nat \<Rightarrow> u32 list list \<Rightarrow> layout_state \<Rightarrow> bool" where
  "laid vectors labels n css s \<longleftrightarrow> placed vectors labels (concat css) s \<and> offsets_of css n s \<and>
     cluster_tables vectors css n s"

lemma boxed_mset: "mset cs = mset ds \<Longrightarrow> boxed vectors cs mn mx = boxed vectors ds mn mx"
  by (metis boxed_def set_mset_mset)

subsection \<open>Placing a cluster\<close>

lemma placed_frame:
  "placed vectors labels ids (s\<lparr>centroids := a, listOffsets := b, blockOffsets := c, bboxMin := d, bboxMax := e\<rparr>) =
     placed vectors labels ids s"
  "placed vectors labels ids (s\<lparr>listOffsets := b, blockOffsets := c, block_pos := p\<rparr>) = placed vectors labels ids s"
  by (simp_all add: placed_def)

lemma offsets_of_step:
  assumes "offsets_of css n s" "length css < n" "row_pos s = length (concat css)"
    and "listOffsets t = (listOffsets s)[length css := of_nat (row_pos s), Suc (length css) := of_nat (length (concat css) + length cs)]"
    and "blockOffsets t = (blockOffsets s)[length css := of_nat (block_pos s),
      Suc (length css) := of_nat (block_pos s + blocksForRows (length cs))]"
    and "block_pos t = block_pos s + blocksForRows (length cs)"
  shows "offsets_of (css @ [cs]) n t"
proof -
  have len: "length (listOffsets s) = n + 1" "length (blockOffsets s) = n + 1" "block_pos s = blocks_of css"
    using assms(1) by (auto simp: offsets_of_def)
  have "listOffsets t ! k = of_nat (length (concat (take k (css @ [cs])))) \<and>
      blockOffsets t ! k = of_nat (blocks_of (take k (css @ [cs])))" if "k \<le> length (css @ [cs])" for k
  proof -
    consider "k < length css" | "k = length css" | "k = Suc (length css)" using \<open>k \<le> length (css @ [cs])\<close> by fastforce
    then show ?thesis
    proof cases
      case 1
      then show ?thesis using assms(1,4,5) by (simp add: offsets_of_def)
    next
      case 2
      then show ?thesis using assms(2-5) len by simp
    next
      case 3
      then show ?thesis using assms(2-5) len by (simp add: blocks_of_def)
    qed
  qed
  then show ?thesis using len assms(4-6) by (simp add: offsets_of_def blocks_of_def)
qed

lemma cluster_tables_step:
  assumes "cluster_tables vectors css n s" "by_centroid vectors cs"
    and "\<And>f g. (f, g) \<in> {(centroids s, centroids t), (bboxMin s, bboxMin t), (bboxMax s, bboxMax t)} \<Longrightarrow>
      length g = length f \<and> (\<forall>k < length css. vec_at g (k * Dimensions) = vec_at f (k * Dimensions))"
    and "vec_at (centroids t) (length css * Dimensions) = centroid_of vectors cs"
    and "boxed vectors cs (vec_at (bboxMin t) (length css * Dimensions)) (vec_at (bboxMax t) (length css * Dimensions))"
  shows "cluster_tables vectors (css @ [cs]) n t"
proof -
  note old = assms(3) [of "centroids s" "centroids t"] assms(3) [of "bboxMin s" "bboxMin t"]
    assms(3) [of "bboxMax s" "bboxMax t"]
  have "vec_at (centroids t) (k * Dimensions) = centroid_of vectors ((css @ [cs]) ! k) \<and>
      boxed vectors ((css @ [cs]) ! k) (vec_at (bboxMin t) (k * Dimensions)) (vec_at (bboxMax t) (k * Dimensions)) \<and>
      by_centroid vectors ((css @ [cs]) ! k)" if "k < length (css @ [cs])" for k
  proof (cases "k < length css")
    case True
    then show ?thesis using assms(1) old by (simp add: cluster_tables_def nth_append)
  next
    case False
    then have "k = length css" using that by simp
    then show ?thesis using assms(2,4,5) by simp
  qed
  then show ?thesis using assms(1) old by (simp add: cluster_tables_def)
qed

lemma place_cluster_ok:
  assumes laid: "laid vectors labels n css s" and "length css < n"
    and ids: "ids_ok vectors ids" "\<forall>i \<in> set ids. unat i < length labels" "length ids < 2 ^ 32"
    and r: "a \<le> e" "e \<le> length ids" "length (concat css) + (e - a) \<le> length labels"
  shows "\<exists>cs t. place_cluster vectors labels ids (length css) (a, e) s = Some t \<and>
    laid vectors labels n (css @ [cs]) t \<and> mset cs = mset (seg ids a e)"
proof -
  let ?w = "seg ids a e" and ?c = "length css"
  let ?cen = "centroid_of vectors ?w"
  define cs where "cs = cluster_order vectors ?w ?cen"
  have p: "placed vectors labels (concat css) s" and o: "offsets_of css n s" and ct: "cluster_tables vectors css n s"
    using laid by (auto simp: laid_def)
  obtain mn mx where st: "computeClusterStats vectors ids (a, e) = Some (?cen, mn, mx)"
    "length mn = Dimensions" "length mx = Dimensions" "boxed vectors ?w mn mx"
    using cluster_stats_ok [OF ids(1) r(1,2) ids(3)] by blast
  have tl: "length (centroids s) = n * Dimensions" "length (bboxMin s) = n * Dimensions" "length (bboxMax s) = n * Dimensions"
    using ct by (auto simp: cluster_tables_def)
  obtain cens where cens: "copy_at (centroids s) (?c * Dimensions) ?cen = Some cens" "length cens = length (centroids s)"
    "vec_at cens (?c * Dimensions) = ?cen" "\<forall>k < ?c. vec_at cens (k * Dimensions) = vec_at (centroids s) (k * Dimensions)"
    using copy_row [OF assms(2) tl(1) length_centroid_of] by blast
  obtain mns where mns: "copy_at (bboxMin s) (?c * Dimensions) mn = Some mns" "length mns = length (bboxMin s)"
    "vec_at mns (?c * Dimensions) = mn" "\<forall>k < ?c. vec_at mns (k * Dimensions) = vec_at (bboxMin s) (k * Dimensions)"
    using copy_row [OF assms(2) tl(2) st(2)] by blast
  obtain mxs where mxs: "copy_at (bboxMax s) (?c * Dimensions) mx = Some mxs" "length mxs = length (bboxMax s)"
    "vec_at mxs (?c * Dimensions) = mx" "\<forall>k < ?c. vec_at mxs (k * Dimensions) = vec_at (bboxMax s) (k * Dimensions)"
    using copy_row [OF assms(2) tl(3) st(3)] by blast
  have sub: "set ?w \<subseteq> set ids" using set_take_subset set_drop_subset by (metis order_trans)
  have w: "ids_ok vectors ?w" using ids(1) sub by (auto simp: ids_ok_def)
  have m: "mset cs = mset ?w" by (simp add: cs_def)
  then have set: "set cs = set ?w" and len: "length cs = e - a"
    using r(1,2) by (metis set_mset_mset) (simp add: mset_eq_length [OF m] min_absorb1 r)
  have "ids_ok vectors cs" "\<forall>i \<in> set cs. unat i < length labels" using w ids(2) sub by (auto simp: ids_ok_def set)
  define s1 where "s1 = s\<lparr>centroids := cens, listOffsets := (listOffsets s)[?c := of_nat (row_pos s)],
    blockOffsets := (blockOffsets s)[?c := of_nat (block_pos s)], bboxMin := mns, bboxMax := mxs\<rparr>"
  have "placed vectors labels (concat css) s1" using p by (simp add: s1_def placed_frame)
  from place_rows_ok [OF this _ \<open>ids_ok vectors cs\<close> \<open>\<forall>i \<in> set cs. unat i < length labels\<close>] len r(3)
  obtain t where t: "foldM (place_row vectors labels) cs s1 = Some t" "placed vectors labels (concat css @ cs) t"
    "same_tables s1 t" by auto
  have rp: "row_pos s = length (concat css)" "row_pos t = length (concat css) + length cs"
    using p t(2) by (auto simp: placed_def)
  have lo: "length (listOffsets s) = n + 1" "length (blockOffsets s) = n + 1" using o by (auto simp: offsets_of_def)
  define u where "u = t\<lparr>listOffsets := (listOffsets t)[Suc ?c := of_nat (row_pos t)],
    blockOffsets := (blockOffsets t)[Suc ?c := of_nat (block_pos t + blocksForRows (length cs))],
    block_pos := block_pos t + blocksForRows (length cs)\<rparr>"
  have tf: "length (listOffsets t) = n + 1" "length (blockOffsets t) = n + 1"
    using t(3) lo by (simp_all add: same_tables_def s1_def)
  have sc: "sortClusterByCentroidDistance vectors ?w ?cen = Some cs" unfolding cs_def by (rule sortCluster_ok [OF w])
  have "place_cluster vectors labels ids ?c (a, e) s = do {
      t \<leftarrow> foldM (place_row vectors labels) cs s1;
      lo \<leftarrow> put (listOffsets t) (Suc ?c) (of_nat (row_pos t));
      let bp = block_pos t + blocksForRows (length cs);
      bo \<leftarrow> put (blockOffsets t) (Suc ?c) (of_nat bp);
      Some (t\<lparr>listOffsets := lo, blockOffsets := bo, block_pos := bp\<rparr>) }"
    using assms(2) lo st(1) cens(1) mns(1) mxs(1) r(1,2) sc
    by (simp add: place_cluster_def slice_seg s1_def)
  then have "place_cluster vectors labels ids ?c (a, e) s = Some u"
    using assms(2) t(1) tf by (simp add: u_def)
  moreover have "placed vectors labels (concat (css @ [cs])) u" using t(2) by (simp add: u_def placed_frame)
  moreover have "offsets_of (css @ [cs]) n u"
    using t(3) rp by (intro offsets_of_step [OF o assms(2)]) (simp_all add: u_def same_tables_def s1_def)
  moreover have "cluster_tables vectors (css @ [cs]) n u"
  proof (rule cluster_tables_step [OF ct])
    show "by_centroid vectors cs" unfolding cs_def by (rule by_centroid_cluster_order)
  qed (use t(3) cens mns mxs st(4) m in \<open>auto simp: u_def same_tables_def s1_def centroid_of_mset [OF m] boxed_mset [OF m]\<close>)
  ultimately show ?thesis using m by (auto simp: laid_def)
qed

end
