(* ===== verification/Build_Index.thy ===== *)
theory Build_Index
  imports Build_Tables Search_Result
begin

text \<open>
  What \<open>BuildIVFIndex\<close> returns: an index that satisfies every hypothesis of the search theorems,
  whose rows are the quantized reference vectors with their labels and positions.
\<close>

subsection \<open>All clusters\<close>

lemma foldM_indexed: "foldM (\<lambda>(c, r). f c r) (zip [0..<length rs] rs) s = foldM (\<lambda>c. f c (rs ! c)) [0..<length rs] s"
proof -
  have "zip [0..<length rs] rs = map (\<lambda>c. (c, rs ! c)) [0..<length rs]"
    by (rule nth_equalityI) auto
  then show ?thesis by (simp add: foldM_map)
qed

lemma cuts_bounds:
  assumes "\<forall>i < n. f i + lo \<le> (f (Suc i) :: nat)" "i \<le> j" "j \<le> n"
  shows "f i \<le> f j"
  using assms(2,3)
proof (induction rule: dec_induct)
  case (step k)
  then have "f k + lo \<le> f (Suc k)" using assms(1) by simp
  with step show ?case by simp
qed simp

definition laid_all :: "i16 list \<Rightarrow> u8 list \<Rightarrow> u32 list \<Rightarrow> u32 list list \<Rightarrow> layout_state \<Rightarrow> bool" where
  "laid_all vectors labels ids css s \<longleftrightarrow> laid vectors labels (length css) css s \<and>
     mset (concat css) = mset ids \<and> length ids = length labels \<and> length ids < 2 ^ 32"

lemma place_clusters_ok:
  assumes "cuts rs 0 (length rs) 0 (length ids) lo hi" "ids_ok vectors ids"
    and "\<forall>i \<in> set ids. unat i < length labels" "length ids = length labels" "length ids < 2 ^ 32"
    and "laid vectors labels (length rs) [] s"
  shows "\<exists>css t. foldM (\<lambda>(c, r). place_cluster vectors labels ids c r) (zip [0..<length rs] rs) s = Some t \<and>
    laid_all vectors labels ids css t \<and> length css = length rs \<and>
    (\<forall>cs \<in> set css. lo \<le> length cs \<and> length cs \<le> hi)"
proof -
  obtain f where f: "f 0 = 0" "f (length rs) = length ids"
    "\<forall>i < length rs. rs ! i = (f i, f (Suc i)) \<and> f i + lo \<le> f (Suc i) \<and> f (Suc i) \<le> f i + hi"
    using assms(1) by (auto simp: cuts_def)
  then have mono: "i \<le> j \<Longrightarrow> j \<le> length rs \<Longrightarrow> f i \<le> f j" for i j
    using cuts_bounds [of "length rs" f lo] by blast
  let ?P = "\<lambda>c s. \<exists>css. length css = c \<and> laid vectors labels (length rs) css s \<and>
    mset (concat css) = mset (take (f c) ids) \<and> (\<forall>cs \<in> set css. lo \<le> length cs \<and> length cs \<le> hi)"
  have "\<exists>t. foldM (\<lambda>c. place_cluster vectors labels ids c (rs ! c)) [0..<length rs] s = Some t \<and> ?P (length rs) t"
  proof (rule foldM_upt [where P = ?P])
    show "?P 0 s" using assms(6) f(1) by simp
  next
    fix c s
    assume c: "c < length rs" and "?P c s"
    then obtain css where css: "length css = c" "laid vectors labels (length rs) css s"
      "mset (concat css) = mset (take (f c) ids)" "\<forall>cs \<in> set css. lo \<le> length cs \<and> length cs \<le> hi" by blast
    have r: "rs ! c = (f c, f (Suc c))" "f c \<le> f (Suc c)" "f (Suc c) \<le> length ids"
      "f c + lo \<le> f (Suc c)" "f (Suc c) \<le> f c + hi"
      using c f mono [of "Suc c" "length rs"] by auto
    have len: "length (concat css) = f c" using mset_eq_length [OF css(3)] r by simp
    then have "length (concat css) + (f (Suc c) - f c) \<le> length labels" using r assms(4) by simp
    from place_cluster_ok [OF css(2) _ assms(2,3,5) r(2,3) this] css(1) c obtain cs t
      where t: "place_cluster vectors labels ids c (rs ! c) s = Some t" "laid vectors labels (length rs) (css @ [cs]) t"
        "mset cs = mset (seg ids (f c) (f (Suc c)))" by (auto simp: r(1))
    have "take (f c) ids @ seg ids (f c) (f (Suc c)) = take (f (Suc c)) ids"
      using append_take_drop_id [of "f c" "take (f (Suc c)) ids"] r(2) by (simp add: min_absorb1)
    then have "mset (concat (css @ [cs])) = mset (take (f (Suc c)) ids)"
      using css(3) t(3) by (metis concat.simps concat_append append_Nil2 mset_append)
    moreover have "length cs = f (Suc c) - f c" using mset_eq_length [OF t(3)] r by simp
    ultimately show "\<exists>t. place_cluster vectors labels ids c (rs ! c) s = Some t \<and> ?P (Suc c) t"
      using t css(1,4) r by (intro exI [of _ t] conjI exI [of _ "css @ [cs]"]) auto
  qed
  then obtain t css where "foldM (\<lambda>c. place_cluster vectors labels ids c (rs ! c)) [0..<length rs] s = Some t"
    "length css = length rs" "laid vectors labels (length rs) css t" "mset (concat css) = mset ids"
    "\<forall>cs \<in> set css. lo \<le> length cs \<and> length cs \<le> hi"
    unfolding f(2) by auto
  then show ?thesis unfolding foldM_indexed using assms(4,5)
    by (intro exI [of _ css] exI [of _ t]) (simp add: laid_all_def)
qed

subsection \<open>The offset tables\<close>

lemma blocksForRows_le: "blocksForRows rows \<le> rows"
  by (simp add: blocksForRows_def ivfBlockSize_def) arith

lemma blocks_of_le: "blocks_of css \<le> length (concat css)"
  unfolding blocks_of_def by (induction css) (simp_all add: add_mono blocksForRows_le)

lemma blocks_of_append: "blocks_of (xs @ ys) = blocks_of xs + blocks_of ys"
  by (simp add: blocks_of_def)

lemma length_concat_prefix: "length (concat (take k css)) \<le> length (concat css)"
  by (metis append_take_drop_id concat_append le_add1 length_append)

lemma laid_all_offsets:
  assumes "laid_all vectors labels ids css s"
  shows "k \<le> length css \<Longrightarrow> unat (listOffsets s ! k) = length (concat (take k css))"
    and "k \<le> length css \<Longrightarrow> unat (blockOffsets s ! k) = blocks_of (take k css)"
    and "length (concat css) = length labels"
proof -
  have len: "length (concat css) = length labels" "length labels < 2 ^ 32"
    using assms mset_eq_length [of "concat css" ids] by (auto simp: laid_all_def)
  then show "length (concat css) = length labels" by simp
  have o: "offsets_of css (length css) s" using assms by (simp add: laid_all_def laid_def)
  show "unat (listOffsets s ! k) = length (concat (take k css))" if "k \<le> length css"
    using o that length_concat_prefix [of k css] len
    by (simp add: offsets_of_def unsigned_of_nat take_bit_nat_eq_self del: length_concat)
  have "blocks_of (take k css) < 2 ^ 32"
    using blocks_of_le [of "take k css"] length_concat_prefix [of k css] len by linarith
  then show "unat (blockOffsets s ! k) = blocks_of (take k css)" if "k \<le> length css"
    using o that by (simp add: offsets_of_def unsigned_of_nat take_bit_nat_eq_self)
qed

lemma laid_all_offsets_ok:
  assumes "laid_all vectors labels ids css s"
  shows "offsets_ok (length labels) (length css) (listOffsets s)"
    and "block_offsets_ok (length css) (listOffsets s) (blockOffsets s)"
proof -
  note off = laid_all_offsets [OF assms]
  have len: "length (listOffsets s) = length css + 1" "length (blockOffsets s) = length css + 1"
    using assms by (auto simp: laid_all_def laid_def offsets_of_def)
  have zero: "listOffsets s ! 0 = 0" "blockOffsets s ! 0 = 0"
    using off(1,2) [of 0] by (auto simp: blocks_of_def unat_eq_zero)
  have step: "unat (listOffsets s ! (c + 1)) = unat (listOffsets s ! c) + length (css ! c)"
    "unat (blockOffsets s ! (c + 1)) = unat (blockOffsets s ! c) + blocksForRows (length (css ! c))"
    if "c < length css" for c
    using off(1,2) [of c] off(1,2) [of "Suc c"] that
    by (simp_all add: take_Suc_conv_app_nth blocks_of_append) (simp add: blocks_of_def)
  show "offsets_ok (length labels) (length css) (listOffsets s)"
    using off(1) [of "length css"] off(3) len zero step by (simp add: offsets_ok_def word_le_nat_alt)
  show "block_offsets_ok (length css) (listOffsets s) (blockOffsets s)"
    using len zero step by (simp add: block_offsets_ok_def word_le_nat_alt)
qed

subsection \<open>The rows\<close>

lemma length_vecs: "ids_ok vectors ids \<Longrightarrow> length (vecs vectors ids) = length ids * Dimensions"
  unfolding ids_ok_def vecs_def by (induction ids) (simp_all add: length_vec_at)

lemma length_concat_vectors: "\<forall>v \<in> set vs. length v = Dimensions \<Longrightarrow> length (concat vs) = length vs * Dimensions"
  by (induction vs) auto

lemma vec_at_concat:
  assumes "\<forall>v \<in> set vs. length v = Dimensions" "i < length vs"
  shows "vec_at (concat vs) (i * Dimensions) = vs ! i"
proof -
  have "vs = take i vs @ vs ! i # drop (Suc i) vs" using assms(2) by (rule id_take_nth_drop)
  then have "concat vs = concat (take i vs) @ vs ! i @ concat (drop (Suc i) vs)"
    by (metis concat.simps(2) concat_append)
  moreover have "length (concat (take i vs)) = i * Dimensions"
    using assms in_set_takeD [of _ i vs] by (subst length_concat_vectors) auto
  moreover have "length (vs ! i) = Dimensions" using assms by simp
  ultimately show ?thesis by (simp add: vec_at_def del: length_concat)
qed

lemma vec_at_vecs:
  assumes "ids_ok vectors ids" "row < length ids"
  shows "vec_at (vecs vectors ids) (row * Dimensions) = vec_at vectors (unat (ids ! row) * Dimensions)"
proof -
  have "\<forall>v \<in> set (map (\<lambda>i. vec_at vectors (unat i * Dimensions)) ids). length v = Dimensions"
    using assms(1) by (auto simp: ids_ok_def length_vec_at)
  from vec_at_concat [OF this] assms(2) show ?thesis by (simp add: vecs_def)
qed

lemma ids_ok_mset: "mset cs = mset ids \<Longrightarrow> ids_ok vectors cs = ids_ok vectors ids"
  by (metis ids_ok_def set_mset_mset)

lemma laid_all_rows:
  assumes "laid_all vectors labels ids css s"
  shows "orderedVectors s = vecs vectors (concat css)" "orderedLabels s = labels_of labels (concat css)"
    "origIDs s = concat css"
proof -
  have p: "placed vectors labels (concat css) s" using assms by (simp add: laid_all_def laid_def)
  have pos: "row_pos s = length labels" using p laid_all_offsets(3) [OF assms] by (simp add: placed_def)
  have "length (orderedVectors s) = row_pos s * Dimensions" using p pos unfolding placed_def by simp
  moreover have "take (row_pos s * Dimensions) (orderedVectors s) = vecs vectors (concat css)"
    using p unfolding placed_def by blast
  ultimately show "orderedVectors s = vecs vectors (concat css)" by simp
  have "length (orderedLabels s) = row_pos s" using p pos unfolding placed_def by simp
  moreover have "take (row_pos s) (orderedLabels s) = labels_of labels (concat css)" using p unfolding placed_def by blast
  ultimately show "orderedLabels s = labels_of labels (concat css)" by simp
  have "length (origIDs s) = row_pos s" using p pos unfolding placed_def by simp
  moreover have "take (row_pos s) (origIDs s) = concat css" using p unfolding placed_def by blast
  ultimately show "origIDs s = concat css" by simp
qed

text \<open>A row between the offsets of a cluster is one of its ids.\<close>

lemma concat_nth:
  assumes "c < length css" "length (concat (take c css)) \<le> row" "row < length (concat (take (Suc c) css))"
  shows "concat css ! row \<in> set (css ! c)"
proof -
  define xs where "xs = concat (take c css)"
  define ys where "ys = concat (drop (Suc c) css)"
  have "concat (take (Suc c) css) = xs @ css ! c" using assms(1) by (simp add: xs_def take_Suc_conv_app_nth)
  moreover have "concat css = concat (take (Suc c) css) @ ys" by (metis append_take_drop_id concat_append ys_def)
  ultimately have "concat css = xs @ css ! c @ ys" "length xs \<le> row" "row < length xs + length (css ! c)"
    using assms(2,3) by (simp_all add: xs_def del: length_concat)
  moreover from this(2,3) have "row - length xs < length (css ! c)" by linarith
  ultimately show ?thesis by (simp add: nth_append)
qed

subsection \<open>The whole layout\<close>

lemma laid_start:
  "laid vectors labels n []
    \<lparr>orderedVectors = replicate (length labels * Dimensions) 0, orderedLabels = replicate (length labels) 0,
     centroids = replicate (n * Dimensions) 0, listOffsets = replicate (n + 1) 0,
     blockOffsets = replicate (n + 1) 0, bboxMin = replicate (n * Dimensions) 0,
     bboxMax = replicate (n * Dimensions) 0, origIDs = replicate (length labels) 0,
     row_pos = 0, block_pos = 0\<rparr>"
  by (simp add: laid_def placed_def offsets_of_def cluster_tables_def blocks_of_def vecs_def labels_of_def)

lemma materializeIVF_ok:
  assumes "cuts rs 0 (length rs) 0 (length ids) lo hi" "ids_ok vectors ids"
    and "\<forall>i \<in> set ids. unat i < length labels" "length ids = length labels" "length ids < 2 ^ 32"
    and "length vectors = length labels * Dimensions"
  shows "\<exists>css s bs. materializeIVF vectors labels ids rs opts = Some (orderedVectors s, orderedLabels s, bs,
       \<lparr>Clusters = int (length css), Centroids = centroids s, CentroidBlocks = [], ListOffsets = listOffsets s,
        BlockOffsets = blockOffsets s, BBoxMin = bboxMin s, BBoxMax = bboxMax s, OrigIDs = origIDs s,
        NProbe = optNProbe opts, AmbiguousNProbe = optAmbiguousNProbe opts, Repair = optRepair opts\<rparr>) \<and>
    laid_all vectors labels ids css s \<and> length css = length rs \<and>
    (\<forall>cs \<in> set css. lo \<le> length cs \<and> length cs \<le> hi) \<and>
    buildIVFBlocks (orderedVectors s) (listOffsets s) (blockOffsets s) = Some bs \<and>
    length bs = unat (blockOffsets s ! length css) * ivfBlockStride"
proof -
  obtain css t where t: "foldM (\<lambda>(c, r). place_cluster vectors labels ids c r) (zip [0..<length rs] rs)
    \<lparr>orderedVectors = replicate (length labels * Dimensions) 0, orderedLabels = replicate (length labels) 0,
     centroids = replicate (length rs * Dimensions) 0, listOffsets = replicate (length rs + 1) 0,
     blockOffsets = replicate (length rs + 1) 0, bboxMin = replicate (length rs * Dimensions) 0,
     bboxMax = replicate (length rs * Dimensions) 0, origIDs = replicate (length labels) 0,
     row_pos = 0, block_pos = 0\<rparr> = Some t"
    and l: "laid_all vectors labels ids css t" "length css = length rs"
      "\<forall>cs \<in> set css. lo \<le> length cs \<and> length cs \<le> hi"
    using place_clusters_ok [OF assms(1-5) laid_start] by blast
  have "ids_ok vectors (concat css)" using l(1) assms(2) ids_ok_mset [of "concat css" ids] by (simp add: laid_all_def)
  then have "length labels * Dimensions \<le> length (orderedVectors t)"
    using laid_all_rows(1) [OF l(1)] laid_all_offsets(3) [OF l(1)] by (simp add: length_vecs del: length_concat)
  from buildIVFBlocks_ok [OF laid_all_offsets_ok [OF l(1)] this] obtain bs
    where "buildIVFBlocks (orderedVectors t) (listOffsets t) (blockOffsets t) = Some bs"
      "length bs = unat (blockOffsets t ! length css) * ivfBlockStride" by blast
  then show ?thesis using l
    by (intro exI [of _ css] exI [of _ t] exI [of _ bs])
      (simp only: materializeIVF_def Let_def assms(6) t Option.bind_lunit simp_thms)
qed

subsection \<open>The index\<close>

definition exact_sizes :: "QuantizedIndex \<Rightarrow> bool" where
  "exact_sizes idx \<longleftrightarrow> length (Centroids (IVF idx)) = clusters_of idx * Dimensions \<and>
     length (CentroidBlocks (IVF idx)) = blocksForRows (clusters_of idx) * ivfBlockStride \<and>
     length (BBoxMin (IVF idx)) = clusters_of idx * Dimensions \<and> length (BBoxMax (IVF idx)) = clusters_of idx * Dimensions \<and>
     length (Blocks idx) = unat (BlockOffsets (IVF idx) ! clusters_of idx) * ivfBlockStride"

definition index_holds :: "i16 list \<Rightarrow> u8 list \<Rightarrow> u32 list list \<Rightarrow> QuantizedIndex \<Rightarrow> bool" where
  "index_holds vectors labels css idx \<longleftrightarrow>
     Clusters (IVF idx) = int (length css) \<and> hasIVF idx \<and> hasIVFBlocks idx \<and> params_ok idx \<and> centroid_blocks_ok idx \<and>
     Labels idx = labels_of labels (concat css) \<and> OrigIDs (IVF idx) = concat css \<and>
     Vectors idx = vecs vectors (concat css) \<and>
     offsets_ok (length (Labels idx)) (length css) (ListOffsets (IVF idx)) \<and>
     block_offsets_ok (length css) (ListOffsets (IVF idx)) (BlockOffsets (IVF idx)) \<and>
     (\<forall>k \<le> length css. unat (ListOffsets (IVF idx) ! k) = length (concat (take k css))) \<and>
     buildIVFBlocks (Vectors idx) (ListOffsets (IVF idx)) (BlockOffsets (IVF idx)) = Some (Blocks idx) \<and>
     has_boxes idx \<and> exact_sizes idx \<and>
     (\<forall>k < length css. vec_at (Centroids (IVF idx)) (k * Dimensions) = centroid_of vectors (css ! k) \<and>
        boxed vectors (css ! k) (vec_at (BBoxMin (IVF idx)) (k * Dimensions)) (vec_at (BBoxMax (IVF idx)) (k * Dimensions)) \<and>
        by_centroid vectors (css ! k))"

lemma index_holdsD:
  assumes "index_holds vectors labels css idx"
  shows "Clusters (IVF idx) = int (length css)" "hasIVF idx" "hasIVFBlocks idx" "params_ok idx" "centroid_blocks_ok idx"
    and "Labels idx = labels_of labels (concat css)" "OrigIDs (IVF idx) = concat css"
    and "Vectors idx = vecs vectors (concat css)"
    and "offsets_ok (length (Labels idx)) (length css) (ListOffsets (IVF idx))"
    and "block_offsets_ok (length css) (ListOffsets (IVF idx)) (BlockOffsets (IVF idx))"
    and "\<forall>k \<le> length css. unat (ListOffsets (IVF idx) ! k) = length (concat (take k css))"
    and "buildIVFBlocks (Vectors idx) (ListOffsets (IVF idx)) (BlockOffsets (IVF idx)) = Some (Blocks idx)"
    and "has_boxes idx"
    and "\<forall>k < length css. vec_at (Centroids (IVF idx)) (k * Dimensions) = centroid_of vectors (css ! k) \<and>
        boxed vectors (css ! k) (vec_at (BBoxMin (IVF idx)) (k * Dimensions)) (vec_at (BBoxMax (IVF idx)) (k * Dimensions)) \<and>
        by_centroid vectors (css ! k)"
    and "exact_sizes idx"
  using assms unfolding index_holds_def by blast+

lemma new_index_ok:
  assumes "0 < Clusters m" "length (Centroids m) = nat (Clusters m) * Dimensions" "CentroidBlocks m = []"
    and "int (length (ListOffsets m)) = Clusters m + 1"
  shows "\<exists>idx cb. NewIVFQuantizedIndex vs ls m = Some idx \<and> hasIVF idx \<and> params_ok idx \<and> centroid_blocks_ok idx \<and>
    idx = normalizeIVFDefaults \<lparr>Vectors = vs, Blocks = [], Labels = ls, IVF = m\<lparr>CentroidBlocks := cb\<rparr>, mmap = []\<rparr> \<and>
    length cb = blocksForRows (nat (Clusters m)) * ivfBlockStride"
proof -
  obtain cb where cb: "buildCentroidBlocks (Centroids m) (nat (Clusters m)) = Some cb"
    "length cb = blocksForRows (nat (Clusters m)) * ivfBlockStride"
    "\<forall>c < nat (Clusters m). lane_holds cb (c div 8 * ivfBlockStride) (c mod 8) (vec_at (Centroids m) (c * Dimensions))"
    using buildCentroidBlocks_ok [of "nat (Clusters m)" "Centroids m"] assms(2) by auto
  let ?raw = "\<lparr>Vectors = vs, Blocks = [], Labels = ls, IVF = m\<lparr>CentroidBlocks := cb\<rparr>, mmap = []\<rparr>"
  have len: "int (length (Centroids m)) = Clusters m * int Dimensions" using assms(1,2) by simp
  then have raw: "hasIVF ?raw" using assms by (simp add: hasIVF_def)
  have "NewIVFQuantizedIndex vs ls m = Some (normalizeIVFDefaults ?raw)"
    using assms cb(1) len by (simp add: NewIVFQuantizedIndex_def)
  moreover have "hasIVF (normalizeIVFDefaults ?raw)" using raw by (simp add: hasIVF_def)
  moreover have "params_ok (normalizeIVFDefaults ?raw)" by (rule normalize_params_ok [OF raw])
  moreover have "centroid_blocks_ok (normalizeIVFDefaults ?raw)" using cb(3) by (simp add: centroid_blocks_ok_def)
  ultimately show ?thesis using cb(2) by blast
qed

lemma laid_all_index:
  assumes l: "laid_all vectors labels ids css s" and "css \<noteq> []"
    and bs: "buildIVFBlocks (orderedVectors s) (listOffsets s) (blockOffsets s) = Some bs"
      "length bs = unat (blockOffsets s ! length css) * ivfBlockStride"
    and m: "Clusters m = int (length css)" "Centroids m = centroids s" "CentroidBlocks m = []" "ListOffsets m = listOffsets s"
      "BlockOffsets m = blockOffsets s" "BBoxMin m = bboxMin s" "BBoxMax m = bboxMax s" "OrigIDs m = origIDs s"
  shows "\<exists>idx. NewIVFQuantizedIndex (orderedVectors s) (orderedLabels s) m = Some idx \<and>
    index_holds vectors labels css (idx\<lparr>Blocks := bs\<rparr>) \<and> Repair (IVF idx) = Repair m \<and>
    (0 < NProbe m \<longrightarrow> NProbe (IVF idx) = min (NProbe m) (Clusters m))"
proof -
  have o: "offsets_of css (length css) s" and ct: "cluster_tables vectors css (length css) s"
    using l by (auto simp: laid_all_def laid_def)
  obtain idx cb where idx: "NewIVFQuantizedIndex (orderedVectors s) (orderedLabels s) m = Some idx"
    "hasIVF idx" "params_ok idx" "centroid_blocks_ok idx"
    "idx = normalizeIVFDefaults \<lparr>Vectors = orderedVectors s, Blocks = [], Labels = orderedLabels s,
      IVF = m\<lparr>CentroidBlocks := cb\<rparr>, mmap = []\<rparr>"
    "length cb = blocksForRows (length css) * ivfBlockStride"
    using new_index_ok [of m "orderedVectors s" "orderedLabels s"] m assms(2) ct o
    by (auto simp: cluster_tables_def offsets_of_def)
  let ?idx = "idx\<lparr>Blocks := bs\<rparr>"
  have len: "length (Labels ?idx) = length labels"
    using laid_all_rows(2) [OF l] laid_all_offsets(3) [OF l] by (simp add: idx(5) labels_of_def del: length_concat)
  have "index_holds vectors labels css ?idx"
    unfolding index_holds_def
  proof (intro conjI)
    show "hasIVF ?idx" "params_ok ?idx" "centroid_blocks_ok ?idx"
      using idx(2-4) by (simp_all add: hasIVF_def params_ok_def centroid_blocks_ok_def)
    then show "hasIVFBlocks ?idx" using o bs(2) m by (simp add: hasIVFBlocks_def idx(5) offsets_of_def)
    show "offsets_ok (length (Labels ?idx)) (length css) (ListOffsets (IVF ?idx))"
      using laid_all_offsets_ok(1) [OF l] m unfolding len by (simp add: idx(5))
    show "has_boxes ?idx" using ct m by (simp add: has_boxes_def cluster_tables_def idx(5))
    show "exact_sizes ?idx" using ct m bs(2) idx(6) by (simp add: exact_sizes_def cluster_tables_def idx(5))
  qed (use m bs(1) laid_all_rows [OF l] laid_all_offsets [OF l] laid_all_offsets_ok [OF l] ct
      in \<open>simp_all add: idx(5) cluster_tables_def\<close>)
  moreover have "Repair (IVF idx) = Repair m" by (simp add: idx(5))
  moreover have "0 < NProbe m \<longrightarrow> NProbe (IVF idx) = min (NProbe m) (Clusters m)"
    using idx(2) unfolding idx(5) normalize_hasIVF by (auto simp: normalize_NProbe)
  ultimately show ?thesis using idx(1) by blast
qed

end
