(* ===== verification/Build_Correct.thy ===== *)
theory Build_Correct
  imports Build_Index
begin

text \<open>
  The builder meets the search: an index that \<open>index_holds\<close> satisfies the hypotheses of the
  search theorems, its rows are the reference vectors, and \<open>BuildIVFIndex\<close> returns such an index for
  every dataset it accepts.
\<close>

subsection \<open>Such an index can be searched\<close>

lemma index_holds_wf:
  assumes "index_holds vectors labels css idx" "length css \<le> 8192"
  shows "wf_index idx"
proof -
  note h = index_holdsD [OF assms(1)]
  have "length (OrigIDs (IVF idx)) = length (Labels idx)" by (simp add: h(6,7) labels_of_def)
  with h(1-3,9,10) assms(2) show ?thesis by (simp add: wf_index_def)
qed

lemma index_holds_row:
  assumes "index_holds vectors labels css idx" "length css \<le> 8192" "ids_ok vectors (concat css)"
    and "c < length css" "row \<in> set (rows_in idx c)"
  shows "row < length (concat css)" "concat css ! row \<in> set (css ! c)"
    "rowvec idx c row = vec_at vectors (unat (concat css ! row) * Dimensions)"
proof -
  note wf = index_holds_wf [OF assms(1,2)]
  note h = index_holdsD [OF assms(1)]
  have c: "clusters_of idx = length css" "length (Labels idx) = length (concat css)"
    by (simp_all add: h(1,6) labels_of_def)
  show row: "row < length (concat css)" using wf_row_less [OF wf _ assms(5)] assms(4) c by simp
  show "concat css ! row \<in> set (css ! c)"
    using assms(4,5) h(11) by (intro concat_nth) (auto simp: rows_of_def)
  have "length (Labels idx) * Dimensions \<le> length (Vectors idx)" using c h(8) length_vecs [OF assms(3)] by simp
  from rowvec_built [OF wf h(3) _ assms(5) h(12) this] assms(4) c(1)
  show "rowvec idx c row = vec_at vectors (unat (concat css ! row) * Dimensions)"
    using vec_at_vecs [OF assms(3) row] h(8) by simp
qed

lemma ids_ok_subset: "ids_ok vectors ids \<Longrightarrow> i \<in> set ids \<Longrightarrow> unat i * Dimensions + Dimensions \<le> length vectors"
  by (simp add: ids_ok_def)

lemma index_holds_boxes:
  assumes "index_holds vectors labels css idx" "length css \<le> 8192" "ids_ok vectors (concat css)"
  shows "boxes_ok idx"
proof -
  have h: "has_boxes idx" "clusters_of idx = length css" by (simp_all add: index_holdsD [OF assms(1)])
  have "sint (BBoxMin (IVF idx) ! (c * Dimensions + k)) \<le> sint (rowvec idx c row ! k) \<and>
      sint (rowvec idx c row ! k) \<le> sint (BBoxMax (IVF idx) ! (c * Dimensions + k))"
    if c: "c < length css" "row \<in> set (rows_in idx c)" "k < Dimensions" for c row k
  proof -
    note r = index_holds_row [OF assms c(1,2)]
    let ?i = "concat css ! row"
    have "c * Dimensions + Dimensions \<le> length css * Dimensions" by (rule block_fits [OF c(1)])
    then have b: "c * Dimensions + Dimensions \<le> length (BBoxMin (IVF idx))"
      "c * Dimensions + Dimensions \<le> length (BBoxMax (IVF idx))"
      using h by (simp_all add: has_boxes_def)
    have "unat ?i * Dimensions + Dimensions \<le> length vectors"
      by (rule ids_ok_subset [OF assms(3)]) (rule nth_mem [OF r(1)])
    then have "rowvec idx c row ! k = vectors ! (unat ?i * Dimensions + k)" using r(3) c(3) by (simp add: nth_vec_at)
    moreover have "boxed vectors (css ! c) (vec_at (BBoxMin (IVF idx)) (c * Dimensions)) (vec_at (BBoxMax (IVF idx)) (c * Dimensions))"
      using index_holdsD(14) [OF assms(1)] c(1) by simp
    ultimately show ?thesis using r(2) c(3) b by (auto simp: boxed_def nth_vec_at)
  qed
  with h show ?thesis by (simp add: boxes_ok_def)
qed

lemma index_holds_cands:
  assumes "index_holds vectors labels css idx" "length css \<le> 8192" "ids_ok vectors (concat css)"
  shows "all_cands idx q =
    map (\<lambda>i. Cand (sqdist q (vec_at vectors (unat i * Dimensions))) i (labels ! unat i = 1)) (concat css)"
proof -
  let ?g = "\<lambda>i. Cand (sqdist q (vec_at vectors (unat i * Dimensions))) i (labels ! unat i = 1)"
  let ?lo = "ListOffsets (IVF idx)"
  have h: "clusters_of idx = length css" "Labels idx = labels_of labels (concat css)" "OrigIDs (IVF idx) = concat css"
    "offsets_ok (length (Labels idx)) (length css) ?lo" "unat (?lo ! length css) = length (concat css)"
    using index_holdsD [OF assms(1)] by auto
  have "cluster_cands idx q c = map (\<lambda>row. ?g (concat css ! row)) (rows_in idx c)" if "c < length css" for c
    using index_holds_row [OF assms that] h by (auto simp: cluster_cands_def cand_at_def row_cand_def labels_of_def)
  then have "all_cands idx q = concat (map (\<lambda>c. map (\<lambda>row. ?g (concat css ! row)) (rows_in idx c)) [0..<length css])"
    using h(1) by (auto simp: all_cands_def scan_cands_def intro!: arg_cong [of _ _ concat])
  also have "\<dots> = map (\<lambda>row. ?g (concat css ! row)) (concat (map (rows_of ?lo) [0..<length css]))"
    by (simp add: map_concat comp_def)
  also have "\<dots> = map ?g (map ((!) (concat css)) [0..<length (concat css)])"
    using concat_rows_of [OF h(4) order_refl] h(5) by simp
  finally show ?thesis by (simp only: map_nth)
qed

subsection \<open>From the references to the index\<close>

definition refs_ok :: "Reference list \<Rightarrow> bool" where
  "refs_ok refs \<longleftrightarrow> length refs < 2 ^ 32 \<and> (\<forall>r \<in> set refs. length (Vector r) = Dimensions)"

definition ref_vectors :: "Reference list \<Rightarrow> i16 list" where
  "ref_vectors refs = concat (map (\<lambda>r. QuantizeVector (Vector r)) refs)"

definition ref_labels :: "Reference list \<Rightarrow> u8 list" where
  "ref_labels refs = map (\<lambda>r. LabelByte (Label r)) refs"

definition ref_ids :: "Reference list \<Rightarrow> u32 list" where
  "ref_ids refs = map of_nat [0..<length refs]"

text \<open>The candidates a query has in the dataset itself.\<close>

definition ref_cands :: "Reference list \<Rightarrow> i16 list \<Rightarrow> cand list" where
  "ref_cands refs q = map (\<lambda>i. Cand (sqdist q (QuantizeVector (Vector (refs ! i)))) (of_nat i)
     (Label (refs ! i) = ''fraud'')) [0..<length refs]"

lemma ref_vectors_ok:
  assumes "refs_ok refs"
  shows "length (ref_vectors refs) = length refs * Dimensions"
    and "i < length refs \<Longrightarrow> vec_at (ref_vectors refs) (i * Dimensions) = QuantizeVector (Vector (refs ! i))"
proof -
  have v: "\<forall>v \<in> set (map (\<lambda>r. QuantizeVector (Vector r)) refs). length v = Dimensions"
    using assms by (simp add: refs_ok_def QuantizeVector_def)
  show "length (ref_vectors refs) = length refs * Dimensions"
    unfolding ref_vectors_def by (subst length_concat_vectors [OF v]) simp
  show "vec_at (ref_vectors refs) (i * Dimensions) = QuantizeVector (Vector (refs ! i))" if "i < length refs"
    using vec_at_concat [OF v, of i] that by (simp add: ref_vectors_def)
qed

lemma ref_ids_ok:
  assumes "refs_ok refs"
  shows "ids_ok (ref_vectors refs) (ref_ids refs)" "\<forall>i \<in> set (ref_ids refs). unat i < length (ref_labels refs)"
    "distinct (ref_ids refs)"
proof -
  have n: "unat (of_nat i :: u32) = i" if "i < length refs" for i
    using assms that by (simp add: refs_ok_def unsigned_of_nat take_bit_nat_eq_self)
  then show "ids_ok (ref_vectors refs) (ref_ids refs)" "\<forall>i \<in> set (ref_ids refs). unat i < length (ref_labels refs)"
    using block_fits [of _ "length refs" Dimensions]
    by (auto simp: ids_ok_def ref_ids_def ref_labels_def ref_vectors_ok(1) [OF assms])
  have "inj_on (of_nat :: nat \<Rightarrow> u32) {0..<length refs}"
    using n by (metis atLeastLessThan_iff inj_onI)
  then show "distinct (ref_ids refs)" by (simp add: ref_ids_def distinct_map)
qed

lemma build_cands:
  assumes "refs_ok refs" "index_holds (ref_vectors refs) (ref_labels refs) css idx" "length css \<le> 8192"
    and "mset (concat css) = mset (ref_ids refs)"
  shows "mset (all_cands idx q) = mset (ref_cands refs q)"
proof -
  have ids: "ids_ok (ref_vectors refs) (concat css)"
    using ref_ids_ok(1) [OF assms(1)] ids_ok_mset [OF assms(4)] by simp
  have n: "unat (of_nat i :: u32) = i" if "i < length refs" for i
    using assms(1) that by (simp add: refs_ok_def unsigned_of_nat take_bit_nat_eq_self)
  let ?g = "\<lambda>i. Cand (sqdist q (vec_at (ref_vectors refs) (unat i * Dimensions))) i (ref_labels refs ! unat i = 1)"
  have "mset (all_cands idx q) = image_mset ?g (mset (concat css))"
    unfolding index_holds_cands [OF assms(2,3) ids] by simp
  also have "\<dots> = mset (map ?g (ref_ids refs))" unfolding assms(4) by simp
  also have "map ?g (ref_ids refs) = ref_cands refs q"
    using ref_vectors_ok(2) [OF assms(1)] n by (auto simp: ref_ids_def ref_cands_def ref_labels_def LabelByte_def)
  finally show ?thesis .
qed

subsection \<open>The builder\<close>

lemma power_of_two_nat: "isPowerOfTwo v \<Longrightarrow> \<exists>k. nat v = 2 ^ k"
  using isPowerOfTwo_iff [of v] by (auto simp: nat_power_eq)

definition accepts :: "Reference list \<Rightarrow> IVFBuildOptions \<Rightarrow> bool" where
  "accepts refs opts \<longleftrightarrow> refs \<noteq> [] \<and> isPowerOfTwo (build_clusters (length refs) (optClusters opts))"

lemma BuildIVFIndex_ok:
  assumes "refs_ok refs" "accepts refs opts"
  defines "n \<equiv> nat (build_clusters (length refs) (optClusters opts))"
  shows "\<exists>idx css. BuildIVFIndex refs opts = Some (Inr idx) \<and>
    index_holds (ref_vectors refs) (ref_labels refs) css idx \<and> length css = n \<and>
    mset (concat css) = mset (ref_ids refs) \<and>
    (\<forall>cs \<in> set css. length refs div n \<le> length cs \<and> length cs \<le> (length refs + n - 1) div n) \<and>
    Repair (IVF idx) = optRepair opts \<and>
    (0 < optNProbe opts \<longrightarrow> NProbe (IVF idx) = min (optNProbe opts) (int n))"
proof -
  let ?N = "length refs" and ?ids = "ref_ids refs" and ?vs = "ref_vectors refs" and ?ls = "ref_labels refs"
  have p2: "isPowerOfTwo (build_clusters ?N (optClusters opts))" and ne: "refs \<noteq> []"
    using assms(2) by (auto simp: accepts_def)
  from power_of_two_nat [OF p2] obtain k where k: "n = 2 ^ k" unfolding n_def by blast
  have N: "length ?ids = ?N" "length ?ls = ?N" by (simp_all add: ref_ids_def ref_labels_def)
  have "ids_ok ?vs ?ids" by (rule ref_ids_ok(1) [OF assms(1)])
  from balancedSplit_ok [of 0 ?N ?ids 0 k "replicate n (0, 0)" ?vs] this N k obtain ids rs
    where split: "balancedSplit ?vs 0 ?N 0 n (?ids, replicate n (0, 0)) = Some (ids, rs)"
      "split_post 0 ?N 0 n ?ids (replicate n (0, 0)) ids rs" by auto
  have rs: "length rs = n" "length ids = ?N" "cuts rs 0 n 0 ?N (?N div n) ((?N + n - 1) div n)"
    using split(2) N by (simp_all add: split_post_def)
  have m: "mset ids = mset ?ids" using split(2) N by (auto simp: split_post_def)
  have ids: "ids_ok ?vs ids" "\<forall>i \<in> set ids. unat i < length ?ls"
    using ref_ids_ok [OF assms(1)] m by (metis ids_ok_mset) (metis m ref_ids_ok(2) [OF assms(1)] set_mset_mset)
  have len: "length ids = length ?ls" "length ids < 2 ^ 32" "length ?vs = length ?ls * Dimensions"
    using rs(2) N assms(1) ref_vectors_ok(1) [OF assms(1)] by (simp_all add: refs_ok_def)
  have "cuts rs 0 (length rs) 0 (length ids) (?N div n) ((?N + n - 1) div n)" using rs by simp
  from materializeIVF_ok [OF this ids len, of opts] obtain css s bs where
    mat: "materializeIVF ?vs ?ls ids rs opts = Some (orderedVectors s, orderedLabels s, bs,
       \<lparr>Clusters = int (length css), Centroids = centroids s, CentroidBlocks = [], ListOffsets = listOffsets s,
        BlockOffsets = blockOffsets s, BBoxMin = bboxMin s, BBoxMax = bboxMax s, OrigIDs = origIDs s,
        NProbe = optNProbe opts, AmbiguousNProbe = optAmbiguousNProbe opts, Repair = optRepair opts\<rparr>)"
      "laid_all ?vs ?ls ids css s" "length css = length rs"
      "\<forall>cs \<in> set css. ?N div n \<le> length cs \<and> length cs \<le> (?N + n - 1) div n"
      "buildIVFBlocks (orderedVectors s) (listOffsets s) (blockOffsets s) = Some bs"
      "length bs = unat (blockOffsets s ! length css) * ivfBlockStride" by blast
  let ?m = "\<lparr>Clusters = int (length css), Centroids = centroids s, CentroidBlocks = [], ListOffsets = listOffsets s,
        BlockOffsets = blockOffsets s, BBoxMin = bboxMin s, BBoxMax = bboxMax s, OrigIDs = origIDs s,
        NProbe = optNProbe opts, AmbiguousNProbe = optAmbiguousNProbe opts, Repair = optRepair opts\<rparr>"
  have "css \<noteq> []" using mat(3) rs(1) k by auto
  from laid_all_index [OF mat(2) this mat(5,6), of ?m] obtain idx
    where idx: "NewIVFQuantizedIndex (orderedVectors s) (orderedLabels s) ?m = Some idx"
      "index_holds ?vs ?ls css (idx\<lparr>Blocks := bs\<rparr>)" "Repair (IVF idx) = optRepair opts"
      "0 < optNProbe opts \<longrightarrow> NProbe (IVF idx) = min (optNProbe opts) (int (length css))" by auto
  have "build_clusters ?N (optClusters opts) > 0" using p2 by (simp add: isPowerOfTwo_def)
  then have "BuildIVFIndex refs opts = Some (Inr (idx\<lparr>Blocks := bs\<rparr>))"
    using ne p2 split(1) mat(1) idx(1) N
    by (simp add: BuildIVFIndex_def ref_vectors_def [symmetric] ref_labels_def [symmetric] ref_ids_def [symmetric]
        n_def [symmetric])
  moreover have "mset (concat css) = mset ?ids" using mat(2) m by (simp add: laid_all_def)
  ultimately show ?thesis using idx(2-4) mat(3,4) rs(1)
    by (intro exI [of _ "idx\<lparr>Blocks := bs\<rparr>"] exI [of _ css]) simp
qed

subsection \<open>Building, then searching\<close>

lemma build_distinct:
  assumes "refs_ok refs" "index_holds vectors labels css idx" "mset (concat css) = mset (ref_ids refs)"
  shows "distinct_ids idx"
  using index_holdsD(7) [OF assms(2)] ref_ids_ok(3) [OF assms(1)] assms(3) mset_eq_imp_distinct_iff
  by (fastforce simp: distinct_ids_def)

text \<open>The result satisfies what the search asks for, and its rows are the references.\<close>

definition searchable :: "Reference list \<Rightarrow> QuantizedIndex \<Rightarrow> bool" where
  "searchable refs idx \<longleftrightarrow> wf_index idx \<and> hasIVFBlocks idx \<and> centroid_blocks_ok idx \<and> params_ok idx \<and>
     boxes_ok idx \<and> distinct_ids idx \<and> (\<forall>q. frauds_of (all_cands idx q) = frauds_of (ref_cands refs q))"

lemma build_searchable:
  assumes "refs_ok refs" "accepts refs opts" "build_clusters (length refs) (optClusters opts) \<le> 8192"
  shows "\<exists>idx. BuildIVFIndex refs opts = Some (Inr idx) \<and> searchable refs idx \<and>
    Clusters (IVF idx) = build_clusters (length refs) (optClusters opts) \<and> Repair (IVF idx) = optRepair opts \<and>
    (0 < optNProbe opts \<longrightarrow> NProbe (IVF idx) = min (optNProbe opts) (Clusters (IVF idx)))"
proof -
  let ?n = "nat (build_clusters (length refs) (optClusters opts))"
  obtain idx css where b: "BuildIVFIndex refs opts = Some (Inr idx)"
    "index_holds (ref_vectors refs) (ref_labels refs) css idx" "length css = ?n"
    "mset (concat css) = mset (ref_ids refs)" "Repair (IVF idx) = optRepair opts"
    "0 < optNProbe opts \<longrightarrow> NProbe (IVF idx) = min (optNProbe opts) (int ?n)"
    using BuildIVFIndex_ok [OF assms(1,2)] by blast
  note h = index_holdsD [OF b(2)]
  have few: "length css \<le> 8192" using b(3) assms(3) by simp
  have ids: "ids_ok (ref_vectors refs) (concat css)"
    using ref_ids_ok(1) [OF assms(1)] ids_ok_mset [OF b(4)] by simp
  have wf: "wf_index idx" by (rule index_holds_wf [OF b(2) few])
  have d: "distinct_ids idx" by (rule build_distinct [OF assms(1) b(2,4)])
  have "frauds_of (all_cands idx q) = frauds_of (ref_cands refs q)" for q
    using top5_perm [OF build_cands [OF assms(1) b(2) few b(4)] distinct_ranks [OF wf d]] by (simp add: frauds_of_def)
  then have "searchable refs idx"
    using h(3-5) wf d index_holds_boxes [OF b(2) few ids] by (simp add: searchable_def)
  moreover have "0 < build_clusters (length refs) (optClusters opts)"
    using assms(2) by (simp add: accepts_def isPowerOfTwo_def)
  ultimately show ?thesis using b h(1) by (intro exI [of _ idx]) simp
qed

text \<open>And it has exactly the sizes that a file of it has.\<close>

lemma build_sizes:
  assumes "refs_ok refs" "accepts refs opts" "BuildIVFIndex refs opts = Some (Inr idx)"
  shows "exact_sizes idx \<and> length (Labels idx) = length refs"
proof -
  obtain css where css: "index_holds (ref_vectors refs) (ref_labels refs) css idx" "mset (concat css) = mset (ref_ids refs)"
    using BuildIVFIndex_ok [OF assms(1,2)] assms(3) by auto
  have "length (Labels idx) = length refs"
    using mset_eq_length [OF css(2)] by (simp add: index_holdsD(6) [OF css(1)] labels_of_def ref_ids_def del: length_concat)
  then show ?thesis using index_holdsD(15) [OF css(1)] by simp
qed

lemma searchable_search_ok:
  assumes "searchable refs idx" "quantized_query q"
  shows "search_ok useAVX2 idx q" "exact_scans True idx" "0 < NProbe (IVF idx)"
  using assms by (auto simp: searchable_def search_ok_def exact_scans_def params_ok_def)

lemma searchable_answer:
  assumes "searchable refs idx" "quantized_query q"
  shows "Search5Quantized True idx q = Some (search_answer idx q)"
proof -
  note ok = searchable_search_ok [OF assms]
  have "hasIVF idx" "boxes_ok idx" "distinct_ids idx" using assms(1) by (auto simp: searchable_def wf_index_def)
  with searchIVF_answer [OF ok(1,2) _ _ ok(3)] show ?thesis by (simp add: Search5Quantized_def)
qed

text \<open>The answer when nothing is missed: the count among the five references nearest to the query, but for the
  hand-tuned late denial.\<close>

definition nearest_answer :: "Reference list \<Rightarrow> bool \<Rightarrow> i16 list \<Rightarrow> nat" where
  "nearest_answer refs repair q =
     (let k = frauds_of (ref_cands refs q)
      in if repair \<and> k < 3 \<and> needsApprovalRepair q \<and> needsKnownLateDenialRepair q then 3 else k)"

lemma searchable_nearest:
  assumes "searchable refs idx" "quantized_query q"
  shows "probes_all idx \<Longrightarrow> search_answer idx q = nearest_answer refs (Repair (IVF idx)) q"
    and "repaired_exactly idx q \<Longrightarrow> search_answer idx q = frauds_of (ref_cands refs q)"
proof -
  note ok = searchable_search_ok [OF assms]
  have s: "boxes_ok idx" "distinct_ids idx" "\<And>q. frauds_of (all_cands idx q) = frauds_of (ref_cands refs q)"
    using assms(1) by (auto simp: searchable_def)
  show "search_answer idx q = nearest_answer refs (Repair (IVF idx)) q" if "probes_all idx"
    using search_answer_all_probed [OF ok(1,2) s(1,2) that ok(3)] by (simp add: nearest_answer_def s(3) Let_def)
  show "search_answer idx q = frauds_of (ref_cands refs q)" if "repaired_exactly idx q"
    using search_answer_repaired [OF that] by (simp add: s(3))
qed

lemma searchable_exact:
  assumes "searchable refs idx" "quantized_query q" "probes_all idx"
  shows "Search5Quantized True idx q = Some (nearest_answer refs (Repair (IVF idx)) q)"
  using searchable_answer [OF assms(1,2)] searchable_nearest(1) [OF assms] by simp

text \<open>\<open>Search5\<close> quantizes a float vector and searches.\<close>

definition Search5 :: "bool \<Rightarrow> QuantizedIndex \<Rightarrow> flt list \<Rightarrow> nat option" where
  "Search5 useAVX2 idx query = Search5Quantized useAVX2 idx (QuantizeVector query)"

subsection \<open>Rounding\<close>

lemma sint_i16_id: "- 32768 \<le> x \<Longrightarrow> x \<le> 32767 \<Longrightarrow> sint (word_of_int x :: i16) = x"
  by (simp add: signed_of_int signed_take_bit_int_eq_self)

lemma div_less: "x div c < k" if "0 < c" "x < c * k" for x c k :: int
proof -
  have "c * (x div c) \<le> x" using that(1) by (metis add_le_same_cancel1 add_left_mono le_add_same_cancel1 mult_div_mod_eq pos_mod_sign)
  with that(2) have "c * (x div c) < c * k" by linarith
  then show ?thesis using that(1) by simp
qed

lemma round_div_nearest:
  fixes a c :: int
  assumes "0 < c"
  shows "\<bar>2 * (a - c * ((a + c div 2) div c))\<bar> \<le> c"
proof -
  define r where "r = (a + c div 2) div c"
  define m where "m = (a + c div 2) mod c"
  have "c * r + m = a + c div 2" "0 \<le> m" "m < c"
    using assms by (simp_all add: r_def m_def)
  moreover have "2 * (c div 2) \<le> c" "c \<le> 2 * (c div 2) + 1" by linarith+
  ultimately show ?thesis unfolding r_def [symmetric] abs_le_iff right_diff_distrib by linarith
qed

lemma roundDiv_value:
  assumes "0 < c" "c < 4294967296" "0 \<le> a" "a \<le> 32768 * c"
  shows "a \<le> 32767 * c \<Longrightarrow> sint (roundDivInt64ToInt16 a c) = (a + c div 2) div c"
    and "0 < a \<Longrightarrow> sint (roundDivInt64ToInt16 (- a) c) = - ((a + c div 2) div c)"
proof -
  define r where "r = (a + c div 2) div c"
  have h: "0 \<le> c div 2" "c div 2 < c" using assms(1) by simp_all
  have q: "quot64 c 2 = c div 2" using assms(1,2) by (intro quot64_pos) auto
  have r0: "0 \<le> r" using assms(1,3) h by (simp add: r_def pos_imp_zdiv_nonneg_iff)
  have "a + c div 2 < c * 32769" using assms(4) h by linarith
  then have "r < 32769" unfolding r_def by (rule div_less [OF assms(1)])
  then have r: "r \<le> 32768" by simp
  have small: "0 \<le> a + c div 2" "a + c div 2 \<le> 9223372036854775807" using assms h by linarith+
  show "sint (roundDivInt64ToInt16 a c) = (a + c div 2) div c" if "a \<le> 32767 * c"
  proof -
    have "a + c div 2 < c * 32768" using that h by linarith
    then have "r < 32768" unfolding r_def by (rule div_less [OF assms(1)])
    then show ?thesis
      using assms(1,3) small quot64_pos(1) [OF assms(1) small] r0
      by (simp add: roundDivInt64ToInt16_def q r_def [symmetric] sint_i16_id)
  qed
  show "sint (roundDivInt64ToInt16 (- a) c) = - ((a + c div 2) div c)" if "0 < a"
  proof -
    have "sub64 (- a) (c div 2) = - (a + c div 2)" using small by simp
    then show ?thesis
      using assms(1) that quot64_pos(2) [OF assms(1) small] r0 r sint_i16_id [of "- r"]
      by (simp add: roundDivInt64ToInt16_def q r_def [symmetric] sint_i16_id)
  qed
qed

lemma roundDiv_nearest:
  assumes "0 < c" "c < 4294967296" "- 32768 * c \<le> a" "a \<le> 32767 * c"
  shows "\<bar>2 * (a - c * sint (roundDivInt64ToInt16 a c))\<bar> \<le> c"
proof (cases "0 \<le> a")
  case True
  then show ?thesis
    using roundDiv_value(1) [OF assms(1,2) True _ assms(4)] round_div_nearest [OF assms(1), of a] assms(1,4) by simp
next
  case False
  then have "sint (roundDivInt64ToInt16 a c) = - ((- a + c div 2) div c)"
    using roundDiv_value(2) [OF assms(1,2), of "- a"] assms(3) by simp
  moreover have "\<bar>2 * (- a - c * ((- a + c div 2) div c))\<bar> \<le> c" by (rule round_div_nearest [OF assms(1)])
  ultimately show ?thesis by simp
qed

end
