(* ===== verification/Index_File.thy ===== *)
theory Index_File
  imports Build_Correct
begin

text \<open>
  The index file (\<open>binary_index.go\<close>, \<open>binary_index_linux.go\<close>, \<open>binary_index_heap.go\<close>): the writer,
  the offset validation, the loader that reads a file field by field and the loader that maps it into
  memory. A file is the list of its bytes, and the operating system's part (opening, mapping,
  a failing write) is left out. Memory is unbounded. A reader returns an error or a value and the rest;
  \<open>None\<close> is a panic, or a read outside the mapping.
\<close>

subsection \<open>Little-endian values\<close>

definition enc16 :: "i16 \<Rightarrow> u8 list" where
  "enc16 w = [ucast w, ucast (drop_bit 8 w)]"

definition enc32 :: "u32 \<Rightarrow> u8 list" where
  "enc32 w = [ucast w, ucast (drop_bit 8 w), ucast (drop_bit 16 w), ucast (drop_bit 24 w)]"

definition dec16 :: "u8 \<Rightarrow> u8 \<Rightarrow> i16" where
  "dec16 a b = ucast a OR push_bit 8 (ucast b)"

definition dec32 :: "u8 \<Rightarrow> u8 \<Rightarrow> u8 \<Rightarrow> u8 \<Rightarrow> u32" where
  "dec32 a b c d = ucast a OR push_bit 8 (ucast b) OR push_bit 16 (ucast c) OR push_bit 24 (ucast d)"

definition enc16s :: "i16 list \<Rightarrow> u8 list" where
  "enc16s ws = concat (map enc16 ws)"

definition enc32s :: "u32 list \<Rightarrow> u8 list" where
  "enc32s ws = concat (map enc32 ws)"

fun dec16s :: "u8 list \<Rightarrow> i16 list" where
  "dec16s (a # b # bs) = dec16 a b # dec16s bs"
| "dec16s _ = []"

fun dec32s :: "u8 list \<Rightarrow> u32 list" where
  "dec32s (a # b # c # d # bs) = dec32 a b c d # dec32s bs"
| "dec32s _ = []"

subsection \<open>Headers and errors\<close>

record binaryHeader =
  Magic :: "u8 list"
  Version :: u32
  headerDimensions :: u32
  headerScale :: u32
  headerCount :: u32

record ivfBinaryHeader =
  headerClusters :: u32
  headerNProbe :: u32
  headerAmbiguousNProbe :: u32
  headerFlags :: u32

definition binaryMagic :: "u8 list" where
  "binaryMagic = [72, 78, 68, 88, 50, 48, 50, 54]"

definition currentBinaryIndexVersion :: u32 where
  "currentBinaryIndexVersion = 4"

definition binaryHeaderSize :: nat where "binaryHeaderSize = 24"
definition ivfBinaryHeaderSize :: nat where "ivfBinaryHeaderSize = 16"

datatype load_error =
  EOF | UnexpectedEOF | UnsupportedFormat | UnsupportedVersion u32 | InvalidClusterCount | TruncatedIndex
| UnsupportedClusterCount nat | InvalidListOffsets | InvalidListBounds | NonMonotonicListOffsets
| InvalidBlockOffsets | NonMonotonicBlockOffsets | InvalidBlockSpan

definition enc_header :: "binaryHeader \<Rightarrow> u8 list" where
  "enc_header h = Magic h @ enc32s [Version h, headerDimensions h, headerScale h, headerCount h]"

definition enc_ivf_header :: "ivfBinaryHeader \<Rightarrow> u8 list" where
  "enc_ivf_header h = enc32s [headerClusters h, headerNProbe h, headerAmbiguousNProbe h, headerFlags h]"

subsection \<open>Writing\<close>

definition index_header :: "QuantizedIndex \<Rightarrow> binaryHeader" where
  "index_header idx = \<lparr>Magic = binaryMagic, Version = currentBinaryIndexVersion, headerDimensions = of_nat Dimensions,
     headerScale = scast QuantScale, headerCount = of_nat (length (Labels idx))\<rparr>"

definition index_ivf_header :: "QuantizedIndex \<Rightarrow> ivfBinaryHeader" where
  "index_ivf_header idx = \<lparr>headerClusters = word_of_int (Clusters (IVF idx)), headerNProbe = word_of_int (NProbe (IVF idx)),
     headerAmbiguousNProbe = word_of_int (AmbiguousNProbe (IVF idx)), headerFlags = (if Repair (IVF idx) then 1 else 0)\<rparr>"

text \<open>The index, whose transposed centroids may have been filled in, and the bytes of the file.\<close>

definition writeIVFQuantizedIndex :: "QuantizedIndex \<Rightarrow> (QuantizedIndex \<times> u8 list) option" where
  "writeIVFQuantizedIndex idx = do {
     let clusters = nat (Clusters (IVF idx));
     let centroidBlockLen = (if Clusters (IVF idx) > 0 then blocksForRows clusters * ivfBlockStride else 0);
     idx \<leftarrow> (if Clusters (IVF idx) > 0 \<and> length (Centroids (IVF idx)) \<ge> clusters * Dimensions
                \<and> length (CentroidBlocks (IVF idx)) < centroidBlockLen
             then do {
               cb \<leftarrow> buildCentroidBlocks (Centroids (IVF idx)) clusters;
               Some (idx\<lparr>IVF := (IVF idx)\<lparr>CentroidBlocks := cb\<rparr>\<rparr>) }
             else Some idx);
     let centroidBlocks = CentroidBlocks (IVF idx);
     let centroidBlocks = (if length centroidBlocks > centroidBlockLen then take centroidBlockLen centroidBlocks
                           else centroidBlocks);
     Some (idx, enc_header (index_header idx) @ enc_ivf_header (index_ivf_header idx) @
       enc16s (Centroids (IVF idx)) @ enc16s centroidBlocks @
       enc32s (ListOffsets (IVF idx)) @ enc32s (BlockOffsets (IVF idx)) @
       enc16s (BBoxMin (IVF idx)) @ enc16s (BBoxMax (IVF idx)) @ enc32s (OrigIDs (IVF idx)) @
       Labels idx @ (if length (Labels idx) mod 2 \<noteq> 0 then [0] else []) @ enc16s (Blocks idx)) }"

definition WriteIVFBinaryIndex :: "Reference list \<Rightarrow> IVFBuildOptions \<Rightarrow> (build_error + u8 list) option" where
  "WriteIVFBinaryIndex refs opts = do {
     r \<leftarrow> BuildIVFIndex refs opts;
     case r of Inl e \<Rightarrow> Some (Inl e)
     | Inr idx \<Rightarrow> do { (idx, bytes) \<leftarrow> writeIVFQuantizedIndex idx; Some (Inr bytes) } }"

subsection \<open>Validation\<close>

text \<open>\<open>None\<close> is \<open>nil\<close>: the offsets are accepted. The block offsets are \<open>None\<close> before version 3.\<close>

fun check_list :: "u32 list \<Rightarrow> nat list \<Rightarrow> load_error option" where
  "check_list lo [] = None"
| "check_list lo (i # is) = (if lo ! (i + 1) < lo ! i then Some NonMonotonicListOffsets else check_list lo is)"

fun check_blocks :: "u32 list \<Rightarrow> u32 list \<Rightarrow> nat list \<Rightarrow> load_error option" where
  "check_blocks lo bo [] = None"
| "check_blocks lo bo (i # is) =
     (if bo ! (i + 1) < bo ! i then Some NonMonotonicBlockOffsets
      else if unat (bo ! (i + 1) - bo ! i) \<noteq> blocksForRows (unat (lo ! (i + 1) - lo ! i)) then Some InvalidBlockSpan
      else check_blocks lo bo is)"

definition validateIVFOffsets :: "nat \<Rightarrow> nat \<Rightarrow> u32 list \<Rightarrow> u32 list option \<Rightarrow> load_error option" where
  "validateIVFOffsets cnt clusters lo bo_opt =
     (if clusters > 8192 then Some (UnsupportedClusterCount clusters)
      else if length lo \<noteq> clusters + 1 then Some InvalidListOffsets
      else if lo ! 0 \<noteq> 0 \<or> unat (lo ! (length lo - 1)) \<noteq> cnt then Some InvalidListBounds
      else case check_list lo [0..<clusters] of
        Some e \<Rightarrow> Some e
      | None \<Rightarrow> (case bo_opt of
          None \<Rightarrow> None
        | Some bo \<Rightarrow>
            if length bo \<noteq> clusters + 1 \<or> bo ! 0 \<noteq> 0 then Some InvalidBlockOffsets
            else check_blocks lo bo [0..<clusters]))"

subsection \<open>Reading field by field\<close>

definition read_full :: "nat \<Rightarrow> u8 list \<Rightarrow> load_error + u8 list \<times> u8 list" where
  "read_full n f = (if n \<le> length f then Inr (take n f, drop n f) else if f = [] then Inl EOF else Inl UnexpectedEOF)"

definition and_then :: "'e + 'a \<Rightarrow> ('a \<Rightarrow> ('e + 'b) option) \<Rightarrow> ('e + 'b) option" where
  "and_then r k = (case r of Inl e \<Rightarrow> Some (Inl e) | Inr x \<Rightarrow> k x)"

definition read16s :: "nat \<Rightarrow> u8 list \<Rightarrow> load_error + i16 list \<times> u8 list" where
  "read16s n f = map_sum (\<lambda>e. e) (map_prod dec16s (\<lambda>f. f)) (read_full (n * 2) f)"

definition read32s :: "nat \<Rightarrow> u8 list \<Rightarrow> load_error + u32 list \<times> u8 list" where
  "read32s n f = map_sum (\<lambda>e. e) (map_prod dec32s (\<lambda>f. f)) (read_full (n * 4) f)"

definition dec_header :: "u8 list \<Rightarrow> binaryHeader" where
  "dec_header bs = (let ws = dec32s (drop 8 bs) in
     \<lparr>Magic = take 8 bs, Version = ws ! 0, headerDimensions = ws ! 1, headerScale = ws ! 2, headerCount = ws ! 3\<rparr>)"

definition dec_ivf_header :: "u8 list \<Rightarrow> ivfBinaryHeader" where
  "dec_ivf_header bs = (let ws = dec32s bs in
     \<lparr>headerClusters = ws ! 0, headerNProbe = ws ! 1, headerAmbiguousNProbe = ws ! 2, headerFlags = ws ! 3\<rparr>)"

definition readBinaryHeader :: "u8 list \<Rightarrow> load_error + binaryHeader \<times> u8 list" where
  "readBinaryHeader f = (case read_full binaryHeaderSize f of
     Inl e \<Rightarrow> Inl e
   | Inr (bs, f) \<Rightarrow>
       let header = dec_header bs in
       if Magic header \<noteq> binaryMagic \<or> headerDimensions header \<noteq> of_nat Dimensions \<or>
          headerScale header \<noteq> scast QuantScale
       then Inl UnsupportedFormat
       else if Version header \<noteq> 2 \<and> Version header \<noteq> 3 \<and> Version header \<noteq> 4
       then Inl (UnsupportedVersion (Version header))
       else Inr (header, f))"

definition loaded_metadata ::
  "ivfBinaryHeader \<Rightarrow> i16 list \<Rightarrow> i16 list \<Rightarrow> u32 list \<Rightarrow> u32 list option \<Rightarrow> i16 list \<Rightarrow> i16 list \<Rightarrow> u32 list \<Rightarrow> IVFMetadata" where
  "loaded_metadata ih cents cblocks lo bo mins maxs ids =
     \<lparr>Clusters = int (unat (headerClusters ih)), Centroids = cents, CentroidBlocks = cblocks,
      ListOffsets = lo, BlockOffsets = (case bo of None \<Rightarrow> [] | Some bo \<Rightarrow> bo), BBoxMin = mins, BBoxMax = maxs,
      OrigIDs = ids, NProbe = int (unat (headerNProbe ih)),
      AmbiguousNProbe = int (unat (headerAmbiguousNProbe ih)), Repair = (headerFlags ih AND 1 = 1)\<rparr>"

text \<open>What follows the ids: labels, padding and blocks from version 3 on, before it vectors and labels.\<close>

definition read_labels_blocks :: "nat \<Rightarrow> u32 list \<Rightarrow> u8 list \<Rightarrow> load_error + i16 list \<times> u8 list \<times> i16 list" where
  "read_labels_blocks cnt bo f =
     (case read_full cnt f of Inl e \<Rightarrow> Inl e | Inr (labels, f) \<Rightarrow>
      case (if cnt mod 2 \<noteq> 0 then read_full 1 f else Inr ([], f)) of Inl e \<Rightarrow> Inl e | Inr (pad, f) \<Rightarrow>
      case read16s (unat (bo ! (length bo - 1)) * ivfBlockStride) f of Inl e \<Rightarrow> Inl e | Inr (blocks, f) \<Rightarrow>
      Inr ([], labels, blocks))"

definition read_vectors_labels :: "nat \<Rightarrow> u8 list \<Rightarrow> load_error + i16 list \<times> u8 list \<times> i16 list" where
  "read_vectors_labels cnt f =
     (case read16s (cnt * Dimensions) f of Inl e \<Rightarrow> Inl e | Inr (vectors, f) \<Rightarrow>
      case read_full cnt f of Inl e \<Rightarrow> Inl e | Inr (labels, f) \<Rightarrow>
      Inr (vectors, labels, []))"

text \<open>Everything after the offset tables; \<open>bo\<close> is \<open>Some\<close> exactly from version 3 on.\<close>

definition read_rest ::
  "ivfBinaryHeader \<Rightarrow> nat \<Rightarrow> nat \<Rightarrow> i16 list \<Rightarrow> i16 list \<Rightarrow> u32 list \<Rightarrow> u32 list option \<Rightarrow> u8 list \<Rightarrow>
    (load_error + QuantizedIndex) option" where
  "read_rest ih cnt clusters cents cblocks lo bo f =
     and_then (read16s (clusters * Dimensions) f) (\<lambda>(mins, f).
     and_then (read16s (clusters * Dimensions) f) (\<lambda>(maxs, f).
     and_then (read32s cnt f) (\<lambda>(ids, f).
     and_then (case bo of Some bo \<Rightarrow> read_labels_blocks cnt bo f | None \<Rightarrow> read_vectors_labels cnt f)
       (\<lambda>(vectors, labels, blocks). do {
     idx \<leftarrow> NewIVFQuantizedIndex vectors labels (loaded_metadata ih cents cblocks lo bo mins maxs ids);
     Some (Inr (idx\<lparr>Blocks := blocks\<rparr>)) }))))"

definition loadIVFBinaryIndexHeap :: "u8 list \<Rightarrow> binaryHeader \<Rightarrow> (load_error + QuantizedIndex) option" where
  "loadIVFBinaryIndexHeap f header =
     and_then (read_full ivfBinaryHeaderSize f) (\<lambda>(bs, f).
     let ih = dec_ivf_header bs;
         cnt = unat (headerCount header);
         clusters = unat (headerClusters ih) in
     if clusters = 0 then Some (Inl InvalidClusterCount) else
     and_then (read16s (clusters * Dimensions) f) (\<lambda>(cents, f).
     and_then (if Version header \<ge> 4 then read16s (blocksForRows clusters * ivfBlockStride) f else Inr ([], f)) (\<lambda>(cblocks, f).
     and_then (read32s (clusters + 1) f) (\<lambda>(lo, f).
     and_then (if Version header \<ge> 3 then map_sum (\<lambda>e. e) (map_prod Some (\<lambda>f. f)) (read32s (clusters + 1) f)
               else Inr (None, f)) (\<lambda>(bo, f).
     case validateIVFOffsets cnt clusters lo bo of
       Some e \<Rightarrow> Some (Inl e)
     | None \<Rightarrow> read_rest ih cnt clusters cents cblocks lo bo f)))))"

definition loadBinaryIndexHeap :: "u8 list \<Rightarrow> (load_error + QuantizedIndex) option" where
  "loadBinaryIndexHeap f = and_then (readBinaryHeader f) (\<lambda>(header, f). loadIVFBinaryIndexHeap f header)"

subsection \<open>Mapping into memory\<close>

text \<open>Touching one byte of every page; the checksum only keeps the reads alive.\<close>

definition preloadMmap :: "u8 list \<Rightarrow> u8 \<Rightarrow> u8 option" where
  "preloadMmap data sink =
     (if data = [] then Some sink
      else do {
        acc \<leftarrow> foldM (\<lambda>k acc. do { b \<leftarrow> get data (k * 4096); Some (acc XOR b) }) [0..<(length data + 4095) div 4096] 0;
        b \<leftarrow> get data (length data - 1);
        Some (sink XOR (acc XOR b)) })"

text \<open>\<open>unsafe.Slice\<close> at \<open>&data[pos]\<close>: the address is bounds-checked, the extent is not; a view that
  leaves the mapping is \<open>None\<close> too.\<close>

definition view :: "u8 list \<Rightarrow> nat \<Rightarrow> nat \<Rightarrow> u8 list option" where
  "view data pos n = (if pos < length data \<and> pos + n \<le> length data then Some (take n (drop pos data)) else None)"

definition view16s :: "u8 list \<Rightarrow> nat \<Rightarrow> nat \<Rightarrow> i16 list option" where
  "view16s data pos n = map_option dec16s (view data pos (n * 2))"

definition view32s :: "u8 list \<Rightarrow> nat \<Rightarrow> nat \<Rightarrow> u32 list option" where
  "view32s data pos n = map_option dec32s (view data pos (n * 4))"

text \<open>Everything after the offset tables, from \<open>pos\<close> on.\<close>

definition view_rest ::
  "u32 \<Rightarrow> ivfBinaryHeader \<Rightarrow> nat \<Rightarrow> nat \<Rightarrow> i16 list \<Rightarrow> i16 list \<Rightarrow> u32 list \<Rightarrow> u32 list option \<Rightarrow> u8 list \<Rightarrow> nat \<Rightarrow>
    (load_error + QuantizedIndex) option" where
  "view_rest version ih cnt clusters cents cblocks lo bo data pos = do {
     let bboxBytes = clusters * Dimensions * 2;
     let vectorBytes = (if version = 2 then cnt * Dimensions * 2 else 0);
     let labelPadding = (if version \<ge> 3 \<and> cnt mod 2 \<noteq> 0 then 1 else 0);
     mins \<leftarrow> view16s data pos (clusters * Dimensions);
     let pos = pos + bboxBytes;
     maxs \<leftarrow> view16s data pos (clusters * Dimensions);
     let pos = pos + bboxBytes;
     ids \<leftarrow> view32s data pos cnt;
     let pos = pos + cnt * 4;
     vectors \<leftarrow> (if version = 2 then view16s data pos (cnt * Dimensions) else Some []);
     let pos = pos + vectorBytes;
     labels \<leftarrow> slice data pos (pos + cnt);
     let pos = pos + cnt + labelPadding;
     let blockCount = (case bo of Some bo \<Rightarrow> unat (bo ! (length bo - 1)) | None \<Rightarrow> 0);
     if version \<ge> 3 \<and> length data < pos + blockCount * ivfBlockStride * 2
     then Some (Inl TruncatedIndex)
     else do {
       blocks \<leftarrow> (if version \<ge> 3 then view16s data pos (blockCount * ivfBlockStride) else Some []);
       idx \<leftarrow> NewIVFQuantizedIndex vectors labels (loaded_metadata ih cents cblocks lo bo mins maxs ids);
       Some (Inr (idx\<lparr>Blocks := blocks, mmap := data\<rparr>)) } }"

definition loadIVFBinaryIndexMmap :: "u8 list \<Rightarrow> binaryHeader \<Rightarrow> (load_error + QuantizedIndex) option" where
  "loadIVFBinaryIndexMmap data header =
     (let cnt = unat (headerCount header); version = Version header; pos = binaryHeaderSize in
      if length data < pos + ivfBinaryHeaderSize then Some (Inl TruncatedIndex)
      else do {
        ih \<leftarrow> view data pos ivfBinaryHeaderSize;
        let ih = dec_ivf_header ih;
        let pos = pos + ivfBinaryHeaderSize;
        let clusters = unat (headerClusters ih);
        if clusters = 0 then Some (Inl InvalidClusterCount)
        else
          let centroidsBytes = clusters * Dimensions * 2;
              centroidBlockBytes = (if version \<ge> 4 then blocksForRows clusters * ivfBlockStride * 2 else 0);
              listOffsetsBytes = (clusters + 1) * 4;
              blockOffsetsBytes = (if version \<ge> 3 then (clusters + 1) * 4 else 0);
              labelPadding = (if version \<ge> 3 \<and> cnt mod 2 \<noteq> 0 then 1 else 0);
              bboxBytes = clusters * Dimensions * 2;
              origIDsBytes = cnt * 4;
              vectorBytes = (if version = 2 then cnt * Dimensions * 2 else 0);
              need = pos + centroidsBytes + centroidBlockBytes + listOffsetsBytes + blockOffsetsBytes + bboxBytes
                + bboxBytes + origIDsBytes + vectorBytes + cnt + labelPadding
          in if length data < need then Some (Inl TruncatedIndex)
          else do {
            cents \<leftarrow> view16s data pos (clusters * Dimensions);
            let pos = pos + centroidsBytes;
            cblocks \<leftarrow> (if version \<ge> 4 then view16s data pos (centroidBlockBytes div 2) else Some []);
            let pos = pos + centroidBlockBytes;
            lo \<leftarrow> view32s data pos (clusters + 1);
            let pos = pos + listOffsetsBytes;
            bo \<leftarrow> (if version \<ge> 3 then map_option Some (view32s data pos (clusters + 1)) else Some None);
            let pos = pos + blockOffsetsBytes;
            case validateIVFOffsets cnt clusters lo bo of
              Some e \<Rightarrow> Some (Inl e)
            | None \<Rightarrow> view_rest version ih cnt clusters cents cblocks lo bo data pos } })"

definition loadBinaryIndex :: "u8 list \<Rightarrow> (load_error + QuantizedIndex) option" where
  "loadBinaryIndex f = and_then (readBinaryHeader f) (\<lambda>(header, rest). do {
     sink \<leftarrow> preloadMmap f 0;
     loadIVFBinaryIndexMmap f header })"

text \<open>The function of that name in the builds for other systems.\<close>

definition loadBinaryIndex_other :: "u8 list \<Rightarrow> (load_error + QuantizedIndex) option" where
  "loadBinaryIndex_other f = loadBinaryIndexHeap f"

end
