(* ===== verification/Index_Mmap.thy ===== *)
theory Index_Mmap
  imports Index_Load
begin

text \<open>
  The memory-mapped loader against the heap loader. Once the file is as long as \<open>need\<close>, both read the
  same bytes at the same positions; \<open>shared_prefix\<close> gives those fields.
\<close>

subsection \<open>Reading at a position\<close>

lemma read_full_at: "p + n \<le> length f \<Longrightarrow> read_full n (drop p f) = Inr (take n (drop p f), drop (p + n) f)"
  by (simp add: read_full_def add.commute)

lemma read16s_at:
  "p + n * 2 \<le> length f \<Longrightarrow> read16s n (drop p f) = Inr (dec16s (take (n * 2) (drop p f)), drop (p + n * 2) f)"
  by (simp add: read16s_def read_full_at)

lemma read32s_at:
  "p + n * 4 \<le> length f \<Longrightarrow> read32s n (drop p f) = Inr (dec32s (take (n * 4) (drop p f)), drop (p + n * 4) f)"
  by (simp add: read32s_def read_full_at)

lemma view_at: "0 < n \<Longrightarrow> p + n \<le> length f \<Longrightarrow> view f p n = Some (take n (drop p f))"
  by (simp add: view_def)

lemma view16s_at: "0 < n \<Longrightarrow> p + n * 2 \<le> length f \<Longrightarrow> view16s f p n = Some (dec16s (take (n * 2) (drop p f)))"
  by (simp add: view16s_def view_at)

lemma view32s_at: "0 < n \<Longrightarrow> p + n * 4 \<le> length f \<Longrightarrow> view32s f p n = Some (dec32s (take (n * 4) (drop p f)))"
  by (simp add: view32s_def view_at)

lemma and_then_Inr [simp]: "and_then (Inr x) k = k x"
  by (simp add: and_then_def)

lemma and_then_Inl [simp]: "and_then (Inl e) k = Some (Inl e)"
  by (simp add: and_then_def)

lemma and_then_accepts: "and_then r k = Some (Inr y) \<longleftrightarrow> (\<exists>x. r = Inr x \<and> k x = Some (Inr y))"
  by (cases r) auto

lemma and_then_accepts2:
  "and_then r (\<lambda>(a, b). k a b) = Some (Inr y) \<longleftrightarrow> (\<exists>a b. r = Inr (a, b) \<and> k a b = Some (Inr y))"
  by (auto simp: and_then_accepts)

subsection \<open>The fields of a file\<close>

text \<open>Where the fields start, for a version, a cluster count and a row count.\<close>

definition cent_blocks :: "u32 \<Rightarrow> nat \<Rightarrow> nat" where
  "cent_blocks v n = (if v \<ge> 4 then blocksForRows n * ivfBlockStride else 0)"

definition block_table :: "u32 \<Rightarrow> nat \<Rightarrow> nat" where
  "block_table v n = (if v \<ge> 3 then (n + 1) * 4 else 0)"

definition tables_end :: "u32 \<Rightarrow> nat \<Rightarrow> nat" where
  "tables_end v n = 40 + n * Dimensions * 2 + cent_blocks v n * 2 + (n + 1) * 4 + block_table v n"

definition rows_end :: "u32 \<Rightarrow> nat \<Rightarrow> nat \<Rightarrow> nat" where
  "rows_end v n cnt = tables_end v n + n * Dimensions * 2 + n * Dimensions * 2 + cnt * 4 +
     (if v = 2 then cnt * Dimensions * 2 else 0) + cnt + (if v \<ge> 3 \<and> cnt mod 2 \<noteq> 0 then 1 else 0)"

definition field16 :: "u8 list \<Rightarrow> nat \<Rightarrow> nat \<Rightarrow> i16 list" where
  "field16 f p n = dec16s (take (n * 2) (drop p f))"

definition field32 :: "u8 list \<Rightarrow> nat \<Rightarrow> nat \<Rightarrow> u32 list" where
  "field32 f p n = dec32s (take (n * 4) (drop p f))"

text \<open>The heap loader on a file that is long enough.\<close>

lemma heap_prefix:
  assumes "tables_end v n \<le> length f" "v = Version h" "n = unat (headerClusters ih)" "0 < n"
    and "ih = dec_ivf_header (take 16 (drop 24 f))" "cnt = unat (headerCount h)"
  defines "p \<equiv> 40 + n * Dimensions * 2" and "lp \<equiv> 40 + n * Dimensions * 2 + cent_blocks v n * 2"
  defines "lo \<equiv> field32 f lp (n + 1)"
    and "bo \<equiv> (if v \<ge> 3 then Some (field32 f (lp + (n + 1) * 4) (n + 1)) else None)"
    and "cb \<equiv> field16 f p (cent_blocks v n)"
  shows "loadIVFBinaryIndexHeap (drop 24 f) h = (case validateIVFOffsets cnt n lo bo of Some e \<Rightarrow> Some (Inl e)
    | None \<Rightarrow> read_rest ih cnt n (field16 f 40 (n * Dimensions)) cb lo bo (drop (tables_end v n) f))"
proof -
  have b: "read_full ivfBinaryHeaderSize (drop 24 f) = Inr (take 16 (drop 24 f), drop 40 f)"
    using assms(1) read_full_at [of 24 16 f] by (simp add: ivfBinaryHeaderSize_def tables_end_def)
  have c: "read16s (n * Dimensions) (drop 40 f) = Inr (field16 f 40 (n * Dimensions), drop p f)"
    using assms(1) read16s_at [of 40 "n * Dimensions" f] by (simp add: p_def field16_def tables_end_def)
  have d: "(if v \<ge> 4 then read16s (blocksForRows n * ivfBlockStride) (drop p f) else Inr ([], drop p f)) = Inr (cb, drop lp f)"
    using assms(1) read16s_at [of p "cent_blocks v n" f]
    by (cases "v \<ge> 4") (simp_all add: p_def lp_def cb_def field16_def tables_end_def cent_blocks_def)
  have l: "read32s (n + 1) (drop lp f) = Inr (lo, drop (lp + (n + 1) * 4) f)"
    using assms(1) read32s_at [of lp "n + 1" f] by (simp add: lp_def lo_def field32_def tables_end_def)
  have e: "(if v \<ge> 3 then map_sum (\<lambda>e. e) (map_prod Some (\<lambda>f. f)) (read32s (n + 1) (drop (lp + (n + 1) * 4) f))
      else Inr (None, drop (lp + (n + 1) * 4) f)) = Inr (bo, drop (tables_end v n) f)"
    using assms(1) read32s_at [of "lp + (n + 1) * 4" "n + 1" f]
    by (cases "v \<ge> 3") (simp_all add: lp_def bo_def field32_def tables_end_def block_table_def)
  show ?thesis
    unfolding loadIVFBinaryIndexHeap_def Let_def b and_then_Inr prod.case assms(5) [symmetric]
      assms(3) [symmetric] assms(2) [symmetric] assms(6) [symmetric] c d l e
    using assms(4) by simp
qed

text \<open>The mapping loader on such a file.\<close>

lemma mmap_prefix:
  assumes "rows_end v n cnt \<le> length f" "v = Version h" "n = unat (headerClusters ih)" "0 < n"
    and "ih = dec_ivf_header (take 16 (drop 24 f))" "cnt = unat (headerCount h)"
  defines "p \<equiv> 40 + n * Dimensions * 2" and "lp \<equiv> 40 + n * Dimensions * 2 + cent_blocks v n * 2"
  defines "lo \<equiv> field32 f lp (n + 1)"
    and "bo \<equiv> (if v \<ge> 3 then Some (field32 f (lp + (n + 1) * 4) (n + 1)) else None)"
    and "cb \<equiv> field16 f p (cent_blocks v n)"
  shows "loadIVFBinaryIndexMmap f h = (case validateIVFOffsets cnt n lo bo of Some e \<Rightarrow> Some (Inl e)
    | None \<Rightarrow> view_rest v ih cnt n (field16 f 40 (n * Dimensions)) cb lo bo f (tables_end v n))"
proof -
  have need: "tables_end v n + n * Dimensions * 2 + n * Dimensions * 2 \<le> length f" "0 < n * Dimensions"
    using assms(1,4) by (simp_all add: rows_end_def Dimensions_def)
  have b: "view f 24 16 = Some (take 16 (drop 24 f))" "\<not> length f < 24 + 16"
    using need view_at [of 16 24 f] by (simp_all add: tables_end_def)
  have lp: "lp = p + cent_blocks v n * 2" "tables_end v n = lp + (n + 1) * 4 + block_table v n"
    by (simp_all add: p_def lp_def tables_end_def)
  have fit: "40 + n * Dimensions * 2 \<le> length f" "p + cent_blocks v n * 2 \<le> length f" "lp + (n + 1) * 4 \<le> length f"
    "lp + (n + 1) * 4 + block_table v n \<le> length f"
    using need(1) unfolding lp p_def by linarith+
  have c: "view16s f 40 (n * Dimensions) = Some (field16 f 40 (n * Dimensions))"
    unfolding field16_def by (rule view16s_at [OF need(2) fit(1)])
  have cb: "(if v \<ge> 4 then blocksForRows n * ivfBlockStride * 2 else 0) = cent_blocks v n * 2"
    by (simp add: cent_blocks_def)
  have bt: "(if v \<ge> 3 then (n + 1) * 4 else 0) = block_table v n" by (simp add: block_table_def)
  have d: "(if v \<ge> 4 then view16s f p (cent_blocks v n * 2 div 2) else Some []) = Some cb"
  proof (cases "v \<ge> 4")
    case True
    have "0 < cent_blocks v n" using True assms(4) blocksForRows_pos [of n] by (simp add: cent_blocks_def layout)
    then show ?thesis using True view16s_at [OF _ fit(2)] by (simp add: cb_def field16_def)
  next
    case False
    then show ?thesis by (simp add: cb_def field16_def cent_blocks_def)
  qed
  have l: "view32s f lp (n + 1) = Some lo"
    unfolding lo_def field32_def by (rule view32s_at [OF _ fit(3)]) simp
  have e: "(if v \<ge> 3 then map_option Some (view32s f (lp + (n + 1) * 4) (n + 1)) else Some None) = Some bo"
    using view32s_at [of "n + 1" "lp + (n + 1) * 4" f] fit(4)
    by (cases "v \<ge> 3") (simp_all add: bo_def field32_def block_table_def)
  have r: "\<not> length f < 40 + n * Dimensions * 2 + cent_blocks v n * 2 + (n + 1) * 4 + block_table v n +
      n * Dimensions * 2 + n * Dimensions * 2 + cnt * 4 + (if v = 2 then cnt * Dimensions * 2 else 0) + cnt +
      (if v \<ge> 3 \<and> cnt mod 2 \<noteq> 0 then 1 else 0)"
    using assms(1) by (simp only: rows_end_def tables_end_def not_less)
  have p: "40 + n * Dimensions * 2 = p" "p + cent_blocks v n * 2 = lp" "lp + (n + 1) * 4 + block_table v n = tables_end v n"
    by (simp_all add: p_def lp_def tables_end_def)
  have forty: "binaryHeaderSize + ivfBinaryHeaderSize = 40" "binaryHeaderSize = 24" "ivfBinaryHeaderSize = 16"
    by (simp_all add: binaryHeaderSize_def ivfBinaryHeaderSize_def)
  have "n \<noteq> 0" using assms(4) by simp
  have plus: "24 + 16 = (40 :: nat)" by simp
  show ?thesis
    unfolding loadIVFBinaryIndexMmap_def Let_def forty assms(2) [symmetric] assms(6) [symmetric]
    using b(2) \<open>n \<noteq> 0\<close> r
    by (simp only: plus b(1) if_False Option.bind_lunit assms(5) [symmetric] assms(3) [symmetric] cb bt c p d l e)
qed

subsection \<open>The same result\<close>

lemma block_offsets_cover:
  assumes "offsets_ok cnt n lo" "block_offsets_ok n lo bo" "k \<le> n"
  shows "unat (bo ! k) \<le> unat (lo ! k) \<and> unat (lo ! k) \<le> 8 * unat (bo ! k)"
  using assms(3)
proof (induction k)
  case 0
  then show ?case using assms(1,2) by (simp add: offsets_ok_def block_offsets_ok_def)
next
  case (Suc k)
  let ?r = "unat (lo ! Suc k) - unat (lo ! k)"
  have "unat (lo ! k) \<le> unat (lo ! Suc k)" "unat (bo ! k) \<le> unat (bo ! Suc k)"
    using Suc.prems offsets_mono [OF assms(1), of k "Suc k"] block_offsets_mono [OF assms(2), of k "Suc k"] by auto
  moreover have "unat (bo ! Suc k) - unat (bo ! k) = blocksForRows ?r"
    using assms(2) Suc.prems by (simp add: block_offsets_ok_def)
  moreover have "blocksForRows ?r \<le> ?r" "?r \<le> blocksForRows ?r * 8" by (rule blocksForRows_le, rule blocksForRows_cover)
  ultimately show ?case using Suc by linarith
qed

text \<open>A file of no rows may end where the mapping loader takes an address: that is a panic.\<close>

definition same_load :: "u8 list \<Rightarrow> (load_error + QuantizedIndex) option \<Rightarrow> (load_error + QuantizedIndex) option \<Rightarrow> bool" where
  "same_load f heap mapped \<longleftrightarrow> (case heap of None \<Rightarrow> False
    | Some (Inl e) \<Rightarrow> (\<exists>e'. mapped = Some (Inl e'))
    | Some (Inr idx) \<Rightarrow> mapped = Some (Inr (idx\<lparr>mmap := f\<rparr>)) \<or> Labels idx = [] \<and> mapped = None)"

lemma same_finish:
  assumes "load_post P (do { idx \<leftarrow> NewIVFQuantizedIndex vs ls m; Some (Inr (idx\<lparr>Blocks := bs\<rparr>)) })"
  shows "same_load f (do { idx \<leftarrow> NewIVFQuantizedIndex vs ls m; Some (Inr (idx\<lparr>Blocks := bs\<rparr>)) })
      (do { idx \<leftarrow> NewIVFQuantizedIndex vs ls m; Some (Inr (idx\<lparr>Blocks := bs, mmap := f\<rparr>)) })"
    and "ls = [] \<Longrightarrow> same_load f (do { idx \<leftarrow> NewIVFQuantizedIndex vs ls m; Some (Inr (idx\<lparr>Blocks := bs\<rparr>)) }) None"
proof -
  obtain idx where idx: "NewIVFQuantizedIndex vs ls m = Some idx" using assms by (auto simp: load_post_def split: bind_splits)
  then have "Labels idx = ls" by (auto simp: NewIVFQuantizedIndex_def split: bind_splits)
  with idx show "same_load f (do { idx \<leftarrow> NewIVFQuantizedIndex vs ls m; Some (Inr (idx\<lparr>Blocks := bs\<rparr>)) })
      (do { idx \<leftarrow> NewIVFQuantizedIndex vs ls m; Some (Inr (idx\<lparr>Blocks := bs, mmap := f\<rparr>)) })"
    "ls = [] \<Longrightarrow> same_load f (do { idx \<leftarrow> NewIVFQuantizedIndex vs ls m; Some (Inr (idx\<lparr>Blocks := bs\<rparr>)) }) None"
    by (simp_all add: same_load_def)
qed

lemma view16s_cases:
  "p + n * 2 \<le> length f \<Longrightarrow> view16s f p n = Some (field16 f p n) \<or> n = 0 \<and> view16s f p n = None"
  by (cases "n = 0") (auto simp: view16s_at field16_def view16s_def view_def)

lemma view32s_cases:
  "p + n * 4 \<le> length f \<Longrightarrow> view32s f p n = Some (field32 f p n) \<or> n = 0 \<and> view32s f p n = None"
  by (cases "n = 0") (auto simp: view32s_at field32_def view32s_def view_def)

text \<open>Both loaders after the boxes and the ids.\<close>

definition heap_tail ::
  "nat \<Rightarrow> u32 list option \<Rightarrow> u8 list \<Rightarrow> nat \<Rightarrow> (i16 list \<Rightarrow> u8 list \<Rightarrow> i16 list \<Rightarrow> (load_error + QuantizedIndex) option) \<Rightarrow>
    (load_error + QuantizedIndex) option" where
  "heap_tail cnt bo f p k = and_then (case bo of Some bo \<Rightarrow> read_labels_blocks cnt bo (drop p f)
     | None \<Rightarrow> read_vectors_labels cnt (drop p f)) (\<lambda>(vs, ls, bs). k vs ls bs)"

definition mmap_tail ::
  "u32 \<Rightarrow> nat \<Rightarrow> u32 list option \<Rightarrow> u8 list \<Rightarrow> nat \<Rightarrow> (i16 list \<Rightarrow> u8 list \<Rightarrow> i16 list \<Rightarrow> (load_error + QuantizedIndex) option) \<Rightarrow>
    (load_error + QuantizedIndex) option" where
  "mmap_tail v cnt bo f p k = do {
     vectors \<leftarrow> (if v = 2 then view16s f p (cnt * Dimensions) else Some []);
     let p = p + (if v = 2 then cnt * Dimensions * 2 else 0);
     labels \<leftarrow> slice f p (p + cnt);
     let p = p + cnt + (if v \<ge> 3 \<and> cnt mod 2 \<noteq> 0 then 1 else 0);
     let blockCount = (case bo of Some bo \<Rightarrow> unat (bo ! (length bo - 1)) | None \<Rightarrow> 0);
     if v \<ge> 3 \<and> length f < p + blockCount * ivfBlockStride * 2 then Some (Inl TruncatedIndex)
     else do { blocks \<leftarrow> (if v \<ge> 3 then view16s f p (blockCount * ivfBlockStride) else Some []); k vectors labels blocks } }"

lemma tails_v2:
  assumes "p + cnt * Dimensions * 2 + cnt \<le> length f"
  shows "heap_tail cnt None f p h = h (field16 f p (cnt * Dimensions)) (take cnt (drop (p + cnt * Dimensions * 2) f)) []"
    and "mmap_tail 2 cnt None f p k = k (field16 f p (cnt * Dimensions)) (take cnt (drop (p + cnt * Dimensions * 2) f)) []
      \<or> cnt = 0 \<and> mmap_tail 2 cnt None f p k = None"
proof -
  have fit: "p + cnt * Dimensions * 2 \<le> length f" using assms by linarith
  show "heap_tail cnt None f p h = h (field16 f p (cnt * Dimensions)) (take cnt (drop (p + cnt * Dimensions * 2) f)) []"
    unfolding heap_tail_def read_vectors_labels_def option.case read16s_at [OF fit] sum.case prod.case
      read_full_at [OF assms] and_then_Inr field16_def ..
  have sl: "slice f (p + cnt * Dimensions * 2) (p + cnt * Dimensions * 2 + cnt) =
      Some (take cnt (drop (p + cnt * Dimensions * 2) f))"
    using assms by (simp add: slice_def)
  show "mmap_tail 2 cnt None f p k = k (field16 f p (cnt * Dimensions)) (take cnt (drop (p + cnt * Dimensions * 2) f)) []
      \<or> cnt = 0 \<and> mmap_tail 2 cnt None f p k = None"
    using view16s_cases [OF fit] sl by (auto simp: mmap_tail_def Dimensions_def)
qed

lemma tails_v3:
  fixes b :: "u32 list"
  assumes "3 \<le> v" "v \<noteq> 2" "p + cnt + (if cnt mod 2 \<noteq> 0 then 1 else 0) \<le> length f"
  defines "q \<equiv> p + cnt + (if cnt mod 2 \<noteq> 0 then 1 else 0)" and "bc \<equiv> unat (b ! (length b - 1)) * ivfBlockStride"
  shows "q + bc * 2 \<le> length f \<Longrightarrow>
      heap_tail cnt (Some b) f p h = h [] (take cnt (drop p f)) (field16 f q bc) \<and>
      (mmap_tail v cnt (Some b) f p k = k [] (take cnt (drop p f)) (field16 f q bc) \<or>
        bc = 0 \<and> mmap_tail v cnt (Some b) f p k = None)"
    and "\<not> q + bc * 2 \<le> length f \<Longrightarrow>
      (\<exists>e. heap_tail cnt (Some b) f p h = Some (Inl e)) \<and> mmap_tail v cnt (Some b) f p k = Some (Inl TruncatedIndex)"
proof -
  have fit: "p + cnt \<le> length f" "q \<le> length f" using assms(3) by (simp_all add: q_def)
  have pad: "(if cnt mod 2 \<noteq> 0 then read_full 1 (drop (p + cnt) f) else Inr ([], drop (p + cnt) f)) =
      Inr (if cnt mod 2 \<noteq> 0 then take 1 (drop (p + cnt) f) else [], drop q f)"
    using assms(3) read_full_at [of "p + cnt" 1 f] by (cases "cnt mod 2 \<noteq> 0") (simp_all add: q_def)
  have heap: "heap_tail cnt (Some b) f p h = and_then (case read16s bc (drop q f) of Inl e \<Rightarrow> Inl e
      | Inr (blocks, f') \<Rightarrow> Inr ([], take cnt (drop p f), blocks)) (\<lambda>(vs, ls, bs). h vs ls bs)"
    unfolding heap_tail_def read_labels_blocks_def option.case read_full_at [OF fit(1)] sum.case prod.case pad bc_def ..
  have "slice f p (p + cnt) = Some (take cnt (drop p f))" using fit(1) by (simp add: slice_def)
  then have mapped: "mmap_tail v cnt (Some b) f p k = (if length f < q + bc * 2 then Some (Inl TruncatedIndex)
      else do { blocks \<leftarrow> view16s f q bc; k [] (take cnt (drop p f)) blocks })"
    using assms(1,2) by (simp add: mmap_tail_def q_def bc_def)
  show "heap_tail cnt (Some b) f p h = h [] (take cnt (drop p f)) (field16 f q bc) \<and>
      (mmap_tail v cnt (Some b) f p k = k [] (take cnt (drop p f)) (field16 f q bc) \<or>
        bc = 0 \<and> mmap_tail v cnt (Some b) f p k = None)" if fits: "q + bc * 2 \<le> length f"
    unfolding heap mapped read16s_at [OF fits] using fits view16s_cases [OF fits] by (auto simp: field16_def)
  show "(\<exists>e. heap_tail cnt (Some b) f p h = Some (Inl e)) \<and> mmap_tail v cnt (Some b) f p k = Some (Inl TruncatedIndex)"
    if "\<not> q + bc * 2 \<le> length f"
  proof -
    have "\<not> bc * 2 \<le> length f - q" using that fit(2) by linarith
    then show ?thesis unfolding heap mapped using that by (simp add: read16s_def read_full_def)
  qed
qed

text \<open>Everything after the offset tables.\<close>

lemma rest_agree:
  assumes v: "validateIVFOffsets cnt n lo bo = None" and fit: "rows_end v n cnt \<le> length f"
    and ver: "v = 2 \<and> bo = None \<or> 3 \<le> v \<and> v \<noteq> 2 \<and> bo = Some b"
    and n: "n = unat (headerClusters ih)" "0 < n" "length cs = n * Dimensions"
  shows "same_load f (read_rest ih cnt n cs cb lo bo (drop (tables_end v n) f))
    (view_rest v ih cnt n cs cb lo bo f (tables_end v n))"
proof -
  let ?q = "tables_end v n + n * Dimensions * 2 + n * Dimensions * 2"
  let ?p = "?q + cnt * 4"
  define mins where "mins = field16 f (tables_end v n) (n * Dimensions)"
  define maxs where "maxs = field16 f (tables_end v n + n * Dimensions * 2) (n * Dimensions)"
  define m where "m = loaded_metadata ih cs cb lo bo mins maxs (field32 f ?q cnt)"
  let ?h = "\<lambda>vs ls bs. do { idx \<leftarrow> NewIVFQuantizedIndex vs ls m; Some (Inr (idx\<lparr>Blocks := bs\<rparr>)) }"
  let ?k = "\<lambda>vs ls bs. do { idx \<leftarrow> NewIVFQuantizedIndex vs ls m; Some (Inr (idx\<lparr>Blocks := bs, mmap := f\<rparr>)) }"
  have fits: "tables_end v n + n * Dimensions * 2 \<le> length f" "?q \<le> length f" "?p \<le> length f"
    using fit unfolding rows_end_def by linarith+
  have nD: "0 < n * Dimensions" using n(2) by (simp add: Dimensions_def)
  have heap: "read_rest ih cnt n cs cb lo bo (drop (tables_end v n) f) = heap_tail cnt bo f ?p ?h"
    unfolding read_rest_def read16s_at [OF fits(1)] and_then_Inr prod.case read16s_at [OF fits(2)] read32s_at [OF fits(3)]
      heap_tail_def m_def mins_def maxs_def field16_def field32_def ..
  have views: "view16s f (tables_end v n) (n * Dimensions) = Some mins"
    "view16s f (tables_end v n + n * Dimensions * 2) (n * Dimensions) = Some maxs"
    using view16s_at [OF nD fits(1)] view16s_at [OF nD fits(2)] by (simp_all add: mins_def maxs_def field16_def)
  have "view_rest v ih cnt n cs cb lo bo f (tables_end v n) = do {
      ids \<leftarrow> view32s f ?q cnt;
      mmap_tail v cnt bo f ?p (\<lambda>vs ls bs. do {
        idx \<leftarrow> NewIVFQuantizedIndex vs ls (loaded_metadata ih cs cb lo bo mins maxs ids);
        Some (Inr (idx\<lparr>Blocks := bs, mmap := f\<rparr>)) }) }"
    unfolding view_rest_def Let_def views Option.bind_lunit mmap_tail_def ..
  then have mapped: "view_rest v ih cnt n cs cb lo bo f (tables_end v n) = mmap_tail v cnt bo f ?p ?k \<or>
      cnt = 0 \<and> view_rest v ih cnt n cs cb lo bo f (tables_end v n) = None"
    using view32s_cases [OF fits(3)] by (auto simp only: Option.bind_lunit Option.bind_lzero m_def)
  have post: "load_post loaded_ok (heap_tail cnt bo f ?p ?h)"
    using read_rest_ok [OF v n, of cb "drop (tables_end v n) f"] unfolding heap .
  have off: "offsets_ok cnt n lo" using v by (simp add: validate_iff)
  from ver show ?thesis
  proof
    assume two: "v = 2 \<and> bo = None"
    have tail: "?p + cnt * Dimensions * 2 + cnt \<le> length f" using fit two by (simp add: rows_end_def)
    let ?vs = "field16 f ?p (cnt * Dimensions)" and ?ls = "take cnt (drop (?p + cnt * Dimensions * 2) f)"
    have h: "heap_tail cnt bo f ?p ?h = ?h ?vs ?ls []" using tails_v2(1) [OF tail, of ?h] two by simp
    have k: "mmap_tail v cnt bo f ?p ?k = ?k ?vs ?ls [] \<or> cnt = 0 \<and> mmap_tail v cnt bo f ?p ?k = None"
      using tails_v2(2) [OF tail, of ?k] two by simp
    note s = same_finish [OF post [unfolded h], of f]
    have "cnt = 0 \<Longrightarrow> same_load f (?h ?vs ?ls []) None" by (rule s(2)) simp
    then show ?thesis unfolding heap h using mapped k s(1) by metis
  next
    assume three: "3 \<le> v \<and> v \<noteq> 2 \<and> bo = Some b"
    have tail: "?p + cnt + (if cnt mod 2 \<noteq> 0 then 1 else 0) \<le> length f" using fit three by (simp add: rows_end_def)
    have b: "block_offsets_ok n lo b" using v three by (simp add: validate_iff)
    have "unat (lo ! n) = cnt" "length b - 1 = n" using off b by (simp_all add: offsets_ok_def block_offsets_ok_def)
    with block_offsets_cover [OF off b order_refl]
    have zero: "unat (b ! (length b - 1)) * ivfBlockStride = 0 \<longleftrightarrow> cnt = 0" by (auto simp: layout)
    note t = tails_v3 [OF three [THEN conjunct1] three [THEN conjunct2, THEN conjunct1] tail, where b = b and h = ?h and k = ?k]
    define q where "q = ?p + cnt + (if cnt mod 2 \<noteq> 0 then 1 else 0)"
    define bc where "bc = unat (b ! (length b - 1)) * ivfBlockStride"
    have bo: "bo = Some b" using three by simp
    show ?thesis
    proof (cases "q + bc * 2 \<le> length f")
      case True
      let ?ls = "take cnt (drop ?p f)" and ?bs = "field16 f q bc"
      have h: "heap_tail cnt bo f ?p ?h = ?h [] ?ls ?bs"
        using t(1) True unfolding q_def bc_def bo by blast
      have k: "mmap_tail v cnt bo f ?p ?k = ?k [] ?ls ?bs \<or> cnt = 0 \<and> mmap_tail v cnt bo f ?p ?k = None"
        using t(1) True zero unfolding q_def bc_def bo by blast
      note s = same_finish [OF post [unfolded h], of f]
      have "cnt = 0 \<Longrightarrow> same_load f (?h [] ?ls ?bs) None" by (rule s(2)) simp
      then show ?thesis unfolding heap h using mapped k s(1) by metis
    next
      case False
      then have "\<not> ?p + cnt + (if cnt mod 2 \<noteq> 0 then 1 else 0) + unat (b ! (length b - 1)) * ivfBlockStride * 2 \<le> length f"
        unfolding q_def bc_def .
      from t(2) [OF this] obtain e where h: "heap_tail cnt bo f ?p ?h = Some (Inl e)"
        and k: "mmap_tail v cnt bo f ?p ?k = Some (Inl TruncatedIndex)" unfolding bo by blast
      have "cnt \<noteq> 0" using False fits(3) zero by (auto simp: q_def bc_def)
      with mapped k have "view_rest v ih cnt n cs cb lo bo f (tables_end v n) = Some (Inl TruncatedIndex)" by metis
      then show ?thesis unfolding heap h by (simp add: same_load_def)
    qed
  qed
qed

subsection \<open>The whole file\<close>

lemma read_rest_long:
  assumes "read_rest ih cnt n cs cb lo bo (drop (tables_end v n) f) = Some (Inr idx)" "tables_end v n \<le> length f"
    and "v = 2 \<and> bo = None \<or> 3 \<le> v \<and> v \<noteq> 2 \<and> bo = Some b"
  shows "rows_end v n cnt \<le> length f"
proof -
  define q where "q = tables_end v n"
  define m where "m = n * Dimensions"
  obtain mn f1 mx f2 ids f3 vs t where e: "read16s (n * Dimensions) (drop (tables_end v n) f) = Inr (mn, f1)"
    "read16s (n * Dimensions) f1 = Inr (mx, f2)" "read32s cnt f2 = Inr (ids, f3)"
    "(case bo of Some bo \<Rightarrow> read_labels_blocks cnt bo f3 | None \<Rightarrow> read_vectors_labels cnt f3) = Inr (vs, t)"
    using assms(1) unfolding read_rest_def by (simp only: and_then_accepts2) blast
  obtain ls bs where t: "t = (ls, bs)" by (cases t)
  have r: "m * 2 \<le> length (drop q f)" "f1 = drop (m * 2) (drop q f)"
    "m * 2 \<le> length f1" "f2 = drop (m * 2) f1" "cnt * 4 \<le> length f2" "f3 = drop (cnt * 4) f2"
    "(case bo of Some bo \<Rightarrow> read_labels_blocks cnt bo f3 | None \<Rightarrow> read_vectors_labels cnt f3) = Inr (vs, ls, bs)"
    using e(1-3) e(4) [unfolded t] unfolding read16s_Inr read32s_Inr m_def q_def by auto
  have "(if v = 2 then cnt * Dimensions * 2 else 0) + cnt + (if v \<ge> 3 \<and> cnt mod 2 \<noteq> 0 then 1 else 0) \<le> length f3"
    using assms(3)
  proof
    assume two: "v = 2 \<and> bo = None"
    then have "cnt * Dimensions * 2 \<le> length f3" "cnt \<le> length f3 - cnt * Dimensions * 2"
      using r(7) by (auto simp: read_vectors_labels_def read16s_Inr read_full_Inr split: sum.splits)
    then have "cnt * Dimensions * 2 + cnt \<le> length f3" by linarith
    then show ?thesis using two by simp
  next
    assume "3 \<le> v \<and> v \<noteq> 2 \<and> bo = Some b"
    then show ?thesis using r(7) by (auto simp: read_labels_blocks_def read16s_Inr read_full_Inr split: sum.splits if_splits)
  qed
  then have "q + m * 2 + m * 2 + cnt * 4 + (if v = 2 then cnt * Dimensions * 2 else 0) + cnt +
      (if v \<ge> 3 \<and> cnt mod 2 \<noteq> 0 then 1 else 0) \<le> length f"
    using r(1-6) assms(2) unfolding q_def [symmetric] by (simp only: length_drop) linarith
  then show ?thesis unfolding rows_end_def q_def m_def .
qed

lemma heap_tables_long:
  assumes "loadIVFBinaryIndexHeap (drop 24 f) h = Some (Inr idx)" "24 \<le> length f"
    and "n = unat (headerClusters (dec_ivf_header (take 16 (drop 24 f))))"
  shows "0 < n \<and> tables_end (Version h) n \<le> length f"
proof -
  define m where "m = n * Dimensions"
  have forty: "40 \<le> length f"
  proof (rule ccontr)
    assume "\<not> 40 \<le> length f"
    then have "read_full ivfBinaryHeaderSize (drop 24 f) = Inl EOF \<or> read_full ivfBinaryHeaderSize (drop 24 f) = Inl UnexpectedEOF"
      using assms(2) by (auto simp: read_full_def ivfBinaryHeaderSize_def)
    then show False using assms(1) by (auto simp: loadIVFBinaryIndexHeap_def)
  qed
  then have b: "read_full ivfBinaryHeaderSize (drop 24 f) = Inr (take 16 (drop 24 f), drop 40 f)"
    using read_full_at [of 24 16 f] by (simp add: ivfBinaryHeaderSize_def)
  note load = assms(1) [unfolded loadIVFBinaryIndexHeap_def Let_def b and_then_Inr prod.case, folded assms(3)]
  have n: "n \<noteq> 0" using load by (auto split: if_splits)
  obtain cs f1 x f2 lo f3 w f4 where e: "read16s (n * Dimensions) (drop 40 f) = Inr (cs, f1)"
    "(if Version h \<ge> 4 then read16s (blocksForRows n * ivfBlockStride) f1 else Inr ([], f1)) = Inr (x, f2)"
    "read32s (n + 1) f2 = Inr (lo, f3)"
    "(if Version h \<ge> 3 then map_sum (\<lambda>e. e) (map_prod Some (\<lambda>f. f)) (read32s (n + 1) f3) else Inr (None, f3)) = Inr (w, f4)"
    using load n by (simp only: if_False and_then_accepts2) blast
  have r: "m * 2 \<le> length (drop 40 f)" "f1 = drop (m * 2) (drop 40 f)"
    "(if Version h \<ge> 4 then read16s (blocksForRows n * ivfBlockStride) f1 else Inr ([], f1)) = Inr (x, f2)"
    "(n + 1) * 4 \<le> length f2" "f3 = drop ((n + 1) * 4) f2"
    "(if Version h \<ge> 3 then map_sum (\<lambda>e. e) (map_prod Some (\<lambda>f. f)) (read32s (n + 1) f3) else Inr (None, f3)) = Inr (w, f4)"
    using e(1,3) e(2,4) unfolding read16s_Inr read32s_Inr m_def by blast+
  have c: "cent_blocks (Version h) n * 2 \<le> length f1" "f2 = drop (cent_blocks (Version h) n * 2) f1"
    using r(3) by (auto simp: cent_blocks_def read16s_Inr split: if_splits)
  have b: "block_table (Version h) n \<le> length f3"
    using r(6) by (auto simp: block_table_def read32s_def read_full_def split: if_splits)
  have "40 + m * 2 + cent_blocks (Version h) n * 2 + (n + 1) * 4 + block_table (Version h) n \<le> length f"
    using r(1,2,4,5) c b forty by (simp only: length_drop) linarith
  then show ?thesis using n by (simp add: tables_end_def m_def)
qed

lemma mmap_truncated:
  assumes "40 \<le> length f" "n = unat (headerClusters (dec_ivf_header (take 16 (drop 24 f))))" "0 < n"
    and "length f < rows_end (Version h) n (unat (headerCount h))"
  shows "loadIVFBinaryIndexMmap f h = Some (Inl TruncatedIndex)"
proof -
  have "view f 24 16 = Some (take 16 (drop 24 f))" "\<not> length f < 24 + 16"
    using assms(1) view_at [of 16 24 f] by simp_all
  moreover have "(if Version h \<ge> 4 then blocksForRows n * ivfBlockStride * 2 else 0) = cent_blocks (Version h) n * 2"
    by (simp add: cent_blocks_def)
  moreover have "(if Version h \<ge> 3 then (n + 1) * 4 else 0) = block_table (Version h) n" by (simp add: block_table_def)
  moreover have "n \<noteq> 0" using assms(3) by simp
  moreover have forty: "binaryHeaderSize + ivfBinaryHeaderSize = 40" "binaryHeaderSize = 24" "ivfBinaryHeaderSize = 16"
    "24 + 16 = (40 :: nat)" by (simp_all add: binaryHeaderSize_def ivfBinaryHeaderSize_def)
  ultimately show ?thesis
    using assms(4) unfolding rows_end_def tables_end_def loadIVFBinaryIndexMmap_def Let_def forty
    by (simp only: if_False if_True Option.bind_lunit assms(2) [symmetric])
qed

end
