(* ===== verification/Index_Roundtrip.thy ===== *)
theory Index_Roundtrip
  imports Index_Mmap
begin

text \<open>
  The two loaders on a whole file, and the round trip: a written index is loaded as it was, without
  its row-major vectors, by both loaders.
\<close>

subsection \<open>Agreement\<close>

lemma preload_ok: "\<exists>s. preloadMmap data sink = Some s"
proof (cases "data = []")
  case False
  have "\<exists>t. foldM (\<lambda>k acc. do { b \<leftarrow> get data (k * 4096); Some (acc XOR b) }) [0..<(length data + 4095) div 4096] 0
      = Some t \<and> True"
  proof (rule foldM_returns)
    fix k s
    assume "k \<in> set [0..<(length data + 4095) div 4096]"
    then have "k * 4096 < length data" by simp
    then show "\<exists>t. (do { b \<leftarrow> get data (k * 4096); Some (s XOR b) }) = Some t \<and> True" by simp
  qed simp
  with False show ?thesis by (auto simp: preloadMmap_def)
qed (simp add: preloadMmap_def)

lemma readBinaryHeader_Inr:
  assumes "readBinaryHeader f = Inr (h, rest)"
  shows "rest = drop 24 f" "24 \<le> length f" "Version h = 2 \<or> Version h = 3 \<or> Version h = 4"
  using assms by (auto simp: readBinaryHeader_def read_full_Inr binaryHeaderSize_def Let_def split: sum.splits if_splits)

lemma mapped_agrees:
  assumes "24 \<le> length f" "Version h = 2 \<or> Version h = 3 \<or> Version h = 4"
  shows "same_load f (loadIVFBinaryIndexHeap (drop 24 f) h) (loadIVFBinaryIndexMmap f h)"
proof -
  define ih where "ih = dec_ivf_header (take 16 (drop 24 f))"
  define n where "n = unat (headerClusters ih)"
  define v where "v = Version h"
  define cnt where "cnt = unat (headerCount h)"
  have post: "load_post loaded_ok (loadIVFBinaryIndexHeap (drop 24 f) h)" by (rule heap_loader_ok)
  have reject: "same_load f (loadIVFBinaryIndexHeap (drop 24 f) h) (loadIVFBinaryIndexMmap f h)"
    if "loadIVFBinaryIndexMmap f h = Some (Inl e)" "\<And>idx. loadIVFBinaryIndexHeap (drop 24 f) h \<noteq> Some (Inr idx)" for e
  proof -
    from post obtain y where y: "loadIVFBinaryIndexHeap (drop 24 f) h = Some y" by (auto simp: load_post_def)
    with that(1) that(2) [of "projr y"] show ?thesis by (cases y) (simp_all add: same_load_def)
  qed
  consider "length f < 40" | "40 \<le> length f" "n = 0" | "40 \<le> length f" "0 < n" "length f < rows_end v n cnt"
    | "0 < n" "rows_end v n cnt \<le> length f" by linarith
  then show ?thesis
  proof cases
    case 1
    then have "loadIVFBinaryIndexMmap f h = Some (Inl TruncatedIndex)"
      by (simp add: loadIVFBinaryIndexMmap_def binaryHeaderSize_def ivfBinaryHeaderSize_def)
    moreover have "tables_end v n > length f" using 1 by (simp add: tables_end_def)
    ultimately show ?thesis using heap_tables_long [OF _ assms(1), of h] reject
      unfolding ih_def [symmetric] n_def [symmetric] v_def [symmetric] by fastforce
  next
    case 2
    then have "loadIVFBinaryIndexMmap f h = Some (Inl InvalidClusterCount)"
      using view_at [of 16 24 f]
      by (simp add: loadIVFBinaryIndexMmap_def binaryHeaderSize_def ivfBinaryHeaderSize_def n_def ih_def)
    then show ?thesis using heap_tables_long [OF _ assms(1), of h] reject 2(2)
      unfolding ih_def [symmetric] n_def [symmetric] by fastforce
  next
    case 3
    have "loadIVFBinaryIndexMmap f h = Some (Inl TruncatedIndex)"
      using mmap_truncated [of f n h] 3 by (simp add: n_def ih_def v_def cnt_def)
    moreover have "loadIVFBinaryIndexHeap (drop 24 f) h \<noteq> Some (Inr idx)" for idx
    proof
      assume load: "loadIVFBinaryIndexHeap (drop 24 f) h = Some (Inr idx)"
      then have t: "tables_end v n \<le> length f"
        using heap_tables_long [OF load assms(1)] by (simp add: n_def ih_def v_def)
      note heap_prefix [OF t v_def n_def 3(2) ih_def cnt_def]
      from load [unfolded this] obtain cs cb lo bo where "read_rest ih cnt n cs cb lo bo (drop (tables_end v n) f) = Some (Inr idx)"
        "v = 2 \<and> bo = None \<or> 3 \<le> v \<and> v \<noteq> 2 \<and> (\<exists>b. bo = Some b)"
        using assms(2) by (fastforce simp: v_def split: option.splits)
      then have "rows_end v n cnt \<le> length f" using read_rest_long t by blast
      then show False using 3(3) by simp
    qed
    ultimately show ?thesis by (rule reject)
  next
    case 4
    then have t: "tables_end v n \<le> length f" by (simp add: rows_end_def)
    define lo where "lo = field32 f (40 + n * Dimensions * 2 + cent_blocks v n * 2) (n + 1)"
    define bo where "bo = (if v \<ge> 3 then Some (field32 f (40 + n * Dimensions * 2 + cent_blocks v n * 2 + (n + 1) * 4) (n + 1)) else None)"
    define cs where "cs = field16 f 40 (n * Dimensions)"
    note heap = heap_prefix [OF t v_def n_def 4(1) ih_def cnt_def, folded lo_def bo_def cs_def]
    note mapped = mmap_prefix [OF 4(2) v_def n_def 4(1) ih_def cnt_def, folded lo_def bo_def cs_def]
    show ?thesis
    proof (cases "validateIVFOffsets cnt n lo bo")
      case None
      have "length cs = n * Dimensions"
        using t by (simp add: cs_def field16_def tables_end_def)
      moreover have "v = 2 \<and> bo = None \<or> 3 \<le> v \<and> v \<noteq> 2 \<and> bo = Some (the bo)"
        using assms(2) by (auto simp: bo_def v_def)
      ultimately show ?thesis
        unfolding heap mapped None option.case using rest_agree [OF None 4(2) _ n_def 4(1)] by blast
    next
      case (Some e)
      then show ?thesis unfolding heap mapped by (simp add: same_load_def)
    qed
  qed
qed

lemma loaders_agree: "same_load f (loadBinaryIndexHeap f) (loadBinaryIndex f)"
proof (cases "readBinaryHeader f")
  case (Inl e)
  then show ?thesis by (simp add: loadBinaryIndexHeap_def loadBinaryIndex_def same_load_def)
next
  case (Inr p)
  obtain h rest where p: "p = (h, rest)" by (cases p)
  obtain s where "preloadMmap f 0 = Some s" using preload_ok by blast
  then show ?thesis
    using mapped_agrees [OF readBinaryHeader_Inr(2,3)] readBinaryHeader_Inr(1) Inr p
    by (simp add: loadBinaryIndexHeap_def loadBinaryIndex_def)
qed

text \<open>So the builds for Linux and for other systems load the same indexes.\<close>

lemma builds_agree: "same_load f (loadBinaryIndex_other f) (loadBinaryIndex f)"
  using loaders_agree by (simp add: loadBinaryIndex_other_def)

lemma heap_load_ok: "load_post loaded_ok (loadBinaryIndexHeap f)"
  unfolding loadBinaryIndexHeap_def using heap_loader_ok by (intro load_post_and_then2)

subsection \<open>Writing, then loading\<close>

lemma read_full_app: "length a = n \<Longrightarrow> read_full n (a @ b) = Inr (a, b)"
  by (simp add: read_full_def)

lemma read16s_app: "length ws = n \<Longrightarrow> read16s n (enc16s ws @ b) = Inr (ws, b)"
  by (simp add: read16s_def read_full_app)

lemma read32s_app: "length ws = n \<Longrightarrow> read32s n (enc32s ws @ b) = Inr (ws, b)"
  by (simp add: read32s_def read_full_app)

lemma dec_enc_header: "length (Magic h) = 8 \<Longrightarrow> dec_header (enc_header h) = h"
  by (cases h) (simp add: dec_header_def enc_header_def)

lemma dec_enc_ivf_header: "dec_ivf_header (enc_ivf_header h) = h"
  by (cases h) (simp add: dec_ivf_header_def enc_ivf_header_def)

text \<open>What the writer is given: the builder's result, or any index of that shape.\<close>

definition file_ok :: "QuantizedIndex \<Rightarrow> bool" where
  "file_ok idx \<longleftrightarrow> wf_index idx \<and> hasIVFBlocks idx \<and> params_ok idx \<and> exact_sizes idx"

lemma file_okD:
  assumes "file_ok idx"
  shows "0 < clusters_of idx" "clusters_of idx \<le> 8192" "Clusters (IVF idx) = int (clusters_of idx)"
    "length (ListOffsets (IVF idx)) = clusters_of idx + 1" "length (BlockOffsets (IVF idx)) = clusters_of idx + 1"
    "length (OrigIDs (IVF idx)) = length (Labels idx)" "length (Labels idx) < 2 ^ 32"
    "validateIVFOffsets (length (Labels idx)) (clusters_of idx) (ListOffsets (IVF idx)) (Some (BlockOffsets (IVF idx))) = None"
proof -
  have w: "wf_index idx" "hasIVFBlocks idx" using assms by (auto simp: file_ok_def)
  then have o: "offsets_ok (length (Labels idx)) (clusters_of idx) (ListOffsets (IVF idx))"
    "block_offsets_ok (clusters_of idx) (ListOffsets (IVF idx)) (BlockOffsets (IVF idx))"
    by (auto simp: wf_index_def)
  show c: "0 < clusters_of idx" "clusters_of idx \<le> 8192" "Clusters (IVF idx) = int (clusters_of idx)"
    using w(1) by (auto simp: wf_index_def hasIVF_def)
  show "length (ListOffsets (IVF idx)) = clusters_of idx + 1" "length (BlockOffsets (IVF idx)) = clusters_of idx + 1"
    "length (OrigIDs (IVF idx)) = length (Labels idx)"
    using o w by (auto simp: offsets_ok_def block_offsets_ok_def wf_index_def)
  have "unat (ListOffsets (IVF idx) ! clusters_of idx) = length (Labels idx)" using o(1) by (simp add: offsets_ok_def)
  then show "length (Labels idx) < 2 ^ 32" using unsigned_less [of "ListOffsets (IVF idx) ! clusters_of idx", where ?'a = nat] by simp
  show "validateIVFOffsets (length (Labels idx)) (clusters_of idx) (ListOffsets (IVF idx)) (Some (BlockOffsets (IVF idx))) = None"
    using o c(2) by (simp add: validate_iff)
qed

definition index_bytes :: "QuantizedIndex \<Rightarrow> u8 list" where
  "index_bytes idx = enc_header (index_header idx) @ enc_ivf_header (index_ivf_header idx) @
     enc16s (Centroids (IVF idx)) @ enc16s (CentroidBlocks (IVF idx)) @
     enc32s (ListOffsets (IVF idx)) @ enc32s (BlockOffsets (IVF idx)) @
     enc16s (BBoxMin (IVF idx)) @ enc16s (BBoxMax (IVF idx)) @ enc32s (OrigIDs (IVF idx)) @
     Labels idx @ (if length (Labels idx) mod 2 \<noteq> 0 then [0] else []) @ enc16s (Blocks idx)"

lemma write_ok:
  assumes "file_ok idx"
  shows "writeIVFQuantizedIndex idx = Some (idx, index_bytes idx)"
  using file_okD(1) [OF assms] assms
  by (simp add: writeIVFQuantizedIndex_def index_bytes_def file_ok_def exact_sizes_def Let_def)

lemma uint32_id: "0 \<le> x \<Longrightarrow> x \<le> 8192 \<Longrightarrow> int (unat (word_of_int x :: u32)) = x"
  by (simp add: take_bit_int_eq_self unsigned_of_int)

lemma loaded_metadata_written:
  assumes "file_ok idx"
  shows "loaded_metadata (index_ivf_header idx) (Centroids (IVF idx)) (CentroidBlocks (IVF idx)) (ListOffsets (IVF idx))
    (Some (BlockOffsets (IVF idx))) (BBoxMin (IVF idx)) (BBoxMax (IVF idx)) (OrigIDs (IVF idx)) = IVF idx"
proof -
  have p: "params_ok idx" using assms by (simp add: file_ok_def)
  note d = file_okD [OF assms]
  have "Clusters (IVF idx) \<le> 8192" using d(2,3) by simp
  then have "int (unat (word_of_int (Clusters (IVF idx)) :: u32)) = Clusters (IVF idx)"
    "int (unat (word_of_int (NProbe (IVF idx)) :: u32)) = NProbe (IVF idx)"
    "int (unat (word_of_int (AmbiguousNProbe (IVF idx)) :: u32)) = AmbiguousNProbe (IVF idx)"
    using p d(1) by (auto simp only: params_ok_def intro!: uint32_id)
  moreover have "((if Repair (IVF idx) then 1 else 0) AND 1 = (1 :: u32)) = Repair (IVF idx)" by simp
  ultimately show ?thesis
    unfolding loaded_metadata_def index_ivf_header_def ivfBinaryHeader.simps option.case
    by (simp only:) simp
qed

lemma new_index_loaded:
  assumes "file_ok idx"
  shows "NewIVFQuantizedIndex [] (Labels idx) (IVF idx) = Some (idx\<lparr>Vectors := [], Blocks := [], mmap := []\<rparr>)"
proof -
  have h: "hasIVF idx" "params_ok idx" using assms by (auto simp: file_ok_def wf_index_def)
  have "0 < blocksForRows (clusters_of idx)" by (rule blocksForRows_pos [OF file_okD(1) [OF assms]])
  then have "CentroidBlocks (IVF idx) \<noteq> []" using assms by (auto simp: file_ok_def exact_sizes_def layout)
  moreover have "hasIVF (idx\<lparr>Vectors := [], Blocks := [], mmap := []\<rparr>)" "params_ok (idx\<lparr>Vectors := [], Blocks := [], mmap := []\<rparr>)"
    using h by (simp_all add: hasIVF_def params_ok_def)
  then have "normalizeIVFDefaults (idx\<lparr>Vectors := [], Blocks := [], mmap := []\<rparr>) = idx\<lparr>Vectors := [], Blocks := [], mmap := []\<rparr>"
    by (rule normalize_idem)
  moreover have eq: "\<lparr>Vectors = [], Blocks = [], Labels = Labels idx, IVF = IVF idx, mmap = []\<rparr> =
      idx\<lparr>Vectors := [], Blocks := [], mmap := []\<rparr>" by simp
  ultimately show ?thesis unfolding NewIVFQuantizedIndex_def eq [symmetric] by simp
qed

lemma read_labels_blocks_written:
  assumes "file_ok idx"
  shows "read_labels_blocks (length (Labels idx)) (BlockOffsets (IVF idx))
      (Labels idx @ (if length (Labels idx) mod 2 \<noteq> 0 then [0] else []) @ enc16s (Blocks idx)) =
    Inr ([], Labels idx, Blocks idx)"
proof -
  let ?pad = "if length (Labels idx) mod 2 \<noteq> 0 then [0] else []"
  have pad: "(if length (Labels idx) mod 2 \<noteq> 0 then read_full 1 (?pad @ enc16s (Blocks idx)) else Inr ([], ?pad @ enc16s (Blocks idx)))
      = Inr (?pad, enc16s (Blocks idx))"
    by (simp add: read_full_def)
  have "length (BlockOffsets (IVF idx)) - 1 = clusters_of idx" using file_okD(5) [OF assms] by simp
  then have "read16s (unat (BlockOffsets (IVF idx) ! (length (BlockOffsets (IVF idx)) - 1)) * ivfBlockStride) (enc16s (Blocks idx))
      = Inr (Blocks idx, [])"
    using assms read16s_app [of "Blocks idx" _ "[]"] by (simp add: file_ok_def exact_sizes_def)
  then show ?thesis unfolding read_labels_blocks_def read_full_app [OF refl] sum.case prod.case pad by simp
qed

lemma heap_roundtrip:
  assumes "file_ok idx"
  shows "loadBinaryIndexHeap (index_bytes idx) = Some (Inr (idx\<lparr>Vectors := [], mmap := []\<rparr>))"
proof -
  note d = file_okD [OF assms]
  let ?n = "clusters_of idx" and ?h = "index_header idx" and ?ih = "index_ivf_header idx"
  define r4 where "r4 = enc16s (BBoxMin (IVF idx)) @ enc16s (BBoxMax (IVF idx)) @ enc32s (OrigIDs (IVF idx)) @
     Labels idx @ (if length (Labels idx) mod 2 \<noteq> 0 then [0] else []) @ enc16s (Blocks idx)"
  define r1 where "r1 = enc_ivf_header ?ih @ enc16s (Centroids (IVF idx)) @ enc16s (CentroidBlocks (IVF idx)) @
     enc32s (ListOffsets (IVF idx)) @ enc32s (BlockOffsets (IVF idx)) @ r4"
  have bytes: "index_bytes idx = enc_header ?h @ r1" by (simp only: index_bytes_def r1_def r4_def append_assoc)
  have "length (enc_header ?h) = binaryHeaderSize" "length (Magic ?h) = 8"
    by (simp_all add: enc_header_def index_header_def binaryMagic_def binaryHeaderSize_def)
  then have head: "readBinaryHeader (index_bytes idx) = Inr (?h, r1)"
    unfolding readBinaryHeader_def bytes by (simp add: read_full_app dec_enc_header index_header_def currentBinaryIndexVersion_def)
  have "0 \<le> Clusters (IVF idx)" "Clusters (IVF idx) \<le> 8192" using d(1,2) by simp_all
  from uint32_id [OF this] have "nat (int (unat (headerClusters ?ih))) = ?n"
    unfolding index_ivf_header_def ivfBinaryHeader.simps by (rule arg_cong)
  then have n: "unat (headerClusters ?ih) = ?n" unfolding nat_int .
  have cnt: "unat (headerCount ?h) = length (Labels idx)" "Version ?h = 4"
    using d(7) by (simp_all add: index_header_def unsigned_of_nat take_bit_nat_eq_self currentBinaryIndexVersion_def)
  have ih: "read_full ivfBinaryHeaderSize (enc_ivf_header ?ih @ x) = Inr (enc_ivf_header ?ih, x)" for x
    by (rule read_full_app) (simp add: enc_ivf_header_def ivfBinaryHeaderSize_def)
  have f: "length (Centroids (IVF idx)) = ?n * Dimensions"
    "length (CentroidBlocks (IVF idx)) = blocksForRows ?n * ivfBlockStride"
    "length (BBoxMin (IVF idx)) = ?n * Dimensions" "length (BBoxMax (IVF idx)) = ?n * Dimensions"
    using assms by (auto simp: file_ok_def exact_sizes_def)
  have rest: "read_rest ?ih (length (Labels idx)) ?n (Centroids (IVF idx)) (CentroidBlocks (IVF idx)) (ListOffsets (IVF idx))
      (Some (BlockOffsets (IVF idx))) r4 = Some (Inr (idx\<lparr>Vectors := [], mmap := []\<rparr>))"
    unfolding read_rest_def r4_def read16s_app [OF f(3)] read16s_app [OF f(4)] read32s_app [OF d(6)] and_then_Inr prod.case
      option.case read_labels_blocks_written [OF assms] loaded_metadata_written [OF assms] new_index_loaded [OF assms]
    by simp
  have "loadIVFBinaryIndexHeap r1 ?h = Some (Inr (idx\<lparr>Vectors := [], mmap := []\<rparr>))"
    unfolding loadIVFBinaryIndexHeap_def r1_def ih and_then_Inr prod.case Let_def dec_enc_ivf_header n cnt
      read16s_app [OF f(1)] read16s_app [OF f(2)] read32s_app [OF d(4)]
    using d(1,8) rest read32s_app [OF d(4)] read32s_app [OF d(5)] by simp
  then show ?thesis unfolding loadBinaryIndexHeap_def head by simp
qed

text \<open>Both loaders give back what was written, the mapping loader with the mapping.\<close>

lemma write_load:
  assumes "file_ok idx" "Labels idx \<noteq> []"
  shows "loadBinaryIndex (index_bytes idx) = Some (Inr (idx\<lparr>Vectors := [], mmap := index_bytes idx\<rparr>))"
  using loaders_agree [of "index_bytes idx"] heap_roundtrip [OF assms(1)] assms(2) by (simp add: same_load_def)

subsection \<open>From the dataset to the loaded index\<close>

lemma hasIVF_frame [simp]:
  "hasIVF (idx\<lparr>Vectors := vs, mmap := mm\<rparr>) = hasIVF idx"
  "hasIVFBlocks (idx\<lparr>Vectors := vs, mmap := mm\<rparr>) = hasIVFBlocks idx"
  by (simp_all add: hasIVF_def hasIVFBlocks_def)

lemma cands_frame:
  assumes "hasIVFBlocks idx"
  shows "rowvec (idx\<lparr>Vectors := vs, mmap := mm\<rparr>) c row = rowvec idx c row"
    "all_cands (idx\<lparr>Vectors := vs, mmap := mm\<rparr>) q = all_cands idx q"
proof -
  show r: "rowvec (idx\<lparr>Vectors := vs, mmap := mm\<rparr>) c row = rowvec idx c row" for c row
    using assms by (simp add: rowvec_def block_vec_def)
  have "cluster_cands (idx\<lparr>Vectors := vs, mmap := mm\<rparr>) q = cluster_cands idx q"
    by (rule ext) (simp add: cluster_cands_def cand_at_def row_cand_def r)
  then show "all_cands (idx\<lparr>Vectors := vs, mmap := mm\<rparr>) q = all_cands idx q"
    by (simp add: all_cands_def scan_cands_def)
qed

lemma searchable_frame:
  assumes "searchable refs idx"
  shows "searchable refs (idx\<lparr>Vectors := vs, mmap := mm\<rparr>)"
proof -
  have b: "hasIVFBlocks idx" using assms by (simp add: searchable_def)
  show ?thesis
    using assms b
    by (simp add: searchable_def wf_index_def params_ok_def centroid_blocks_ok_def boxes_ok_def has_boxes_def
        distinct_ids_def cands_frame [OF b])
qed

subsection \<open>What a user of a loader relies on\<close>

locale index_source =
  fixes load :: "u8 list \<Rightarrow> (load_error + QuantizedIndex) option"
  assumes accepted: "load f = Some (Inr idx) \<Longrightarrow> loaded_ok idx"
    and written: "file_ok idx \<Longrightarrow> Labels idx \<noteq> [] \<Longrightarrow>
      \<exists>mm. load (index_bytes idx) = Some (Inr (idx\<lparr>Vectors := [], mmap := mm\<rparr>))"
begin

lemma search_loaded:
  assumes "load f = Some (Inr idx)"
  shows "\<exists>k \<le> 5. Search5Quantized False idx q = Some k"
proof -
  have ok: "wf_index idx" "params_ok idx" using accepted [OF assms] by (auto simp: loaded_ok_def)
  then have "search_ok False idx q" "0 < NProbe (IVF idx)" by (simp_all add: search_ok_def params_ok_def)
  from searchIVF_total [OF this] ok(1) show ?thesis by (simp add: Search5Quantized_def wf_index_def)
qed

lemma load_built:
  assumes "refs_ok refs" "accepts refs opts" "build_clusters (length refs) (optClusters opts) \<le> 8192"
  shows "\<exists>bytes idx. WriteIVFBinaryIndex refs opts = Some (Inr bytes) \<and> load bytes = Some (Inr idx) \<and> searchable refs idx \<and>
    Clusters (IVF idx) = build_clusters (length refs) (optClusters opts) \<and> Repair (IVF idx) = optRepair opts \<and>
    (0 < optNProbe opts \<longrightarrow> NProbe (IVF idx) = min (optNProbe opts) (Clusters (IVF idx)))"
proof -
  obtain idx where idx: "BuildIVFIndex refs opts = Some (Inr idx)" "searchable refs idx"
    "Clusters (IVF idx) = build_clusters (length refs) (optClusters opts)" "Repair (IVF idx) = optRepair opts"
    "0 < optNProbe opts \<longrightarrow> NProbe (IVF idx) = min (optNProbe opts) (Clusters (IVF idx))"
    using build_searchable [OF assms] by blast
  note sz = build_sizes [OF assms(1,2) idx(1)]
  have f: "file_ok idx" using idx(2) sz by (simp add: searchable_def file_ok_def)
  have ne: "Labels idx \<noteq> []" using sz assms(2) by (auto simp: accepts_def)
  obtain mm where load: "load (index_bytes idx) = Some (Inr (idx\<lparr>Vectors := [], mmap := mm\<rparr>))"
    using written [OF f ne] by blast
  have "WriteIVFBinaryIndex refs opts = Some (Inr (index_bytes idx))"
    by (simp add: WriteIVFBinaryIndex_def idx(1) write_ok [OF f])
  then show ?thesis
    using load searchable_frame [OF idx(2)] idx(3-5)
    by (intro exI [of _ "index_bytes idx"] exI [of _ "idx\<lparr>Vectors := [], mmap := mm\<rparr>"]) simp
qed

end

lemma loaded_ok_mmap [simp]: "loaded_ok (idx\<lparr>mmap := mm\<rparr>) = loaded_ok idx"
  by (simp add: loaded_ok_def wf_index_def params_ok_def has_boxes_def hasIVF_def hasIVFBlocks_def)

interpretation heap: index_source loadBinaryIndexHeap
proof
  show "loaded_ok idx" if "loadBinaryIndexHeap f = Some (Inr idx)" for f idx
    using heap_load_ok [of f] that by (simp add: load_post_def)
  show "\<exists>mm. loadBinaryIndexHeap (index_bytes idx) = Some (Inr (idx\<lparr>Vectors := [], mmap := mm\<rparr>))"
    if "file_ok idx" for idx
    using heap_roundtrip [OF that] by blast
qed

interpretation mapped: index_source loadBinaryIndex
proof
  show "loaded_ok idx" if "loadBinaryIndex f = Some (Inr idx)" for f idx
  proof -
    obtain y where y: "loadBinaryIndexHeap f = Some y" "\<forall>idx. y = Inr idx \<longrightarrow> loaded_ok idx"
      using heap_load_ok [of f] by (auto simp: load_post_def)
    with loaders_agree [of f] that show ?thesis by (cases y) (auto simp: same_load_def)
  qed
  show "\<exists>mm. loadBinaryIndex (index_bytes idx) = Some (Inr (idx\<lparr>Vectors := [], mmap := mm\<rparr>))"
    if "file_ok idx" "Labels idx \<noteq> []" for idx
    using write_load [OF that] by blast
qed

end
