(* ===== verification/Build_Samples.thy ===== *)
theory Build_Samples
  imports Index_Roundtrip Samples
begin

text \<open>A small dataset for the properties of the builder, and an index file of no rows.\<close>

definition sample_ref :: "rat \<Rightarrow> string \<Rightarrow> Reference" where
  "sample_ref x label = \<lparr>Vector = Fin x # replicate 13 (Fin 0), Label = label\<rparr>"

definition sample_refs :: "Reference list" where
  "sample_refs = [sample_ref 0 ''legit'', sample_ref (1 / 2) ''fraud'', sample_ref 1 ''fraud'']"

definition sample_opts :: IVFBuildOptions where
  "sample_opts = \<lparr>optClusters = 2, optNProbe = 4, optAmbiguousNProbe = 0, optRepair = True\<rparr>"

lemma build_clusters_sample: "build_clusters (length sample_refs) (optClusters sample_opts) = 2"
  by (simp add: build_clusters_def sample_refs_def sample_opts_def)

lemma isPowerOfTwo_2: "isPowerOfTwo 2"
  using isPowerOfTwo_power [of 1] by simp

lemma sample_refs_ok: "refs_ok sample_refs" "accepts sample_refs sample_opts" "refs_ok []"
proof -
  show "refs_ok sample_refs" "refs_ok []"
    by (simp_all add: refs_ok_def sample_refs_def sample_ref_def Dimensions_def)
  show "accepts sample_refs sample_opts"
    unfolding accepts_def build_clusters_sample using isPowerOfTwo_2 by (simp add: sample_refs_def)
qed

definition empty_file :: "u8 list" where
  "empty_file = enc_header \<lparr>Magic = binaryMagic, Version = 2, headerDimensions = 14, headerScale = 10000, headerCount = 0\<rparr> @
     enc_ivf_header \<lparr>headerClusters = 1, headerNProbe = 1, headerAmbiguousNProbe = 1, headerFlags = 0\<rparr> @ replicate 92 0"

end
