(* ===== verification/Exact_Search.thy ===== *)
theory Exact_Search
  imports Vectorize Build_Correct
begin

text \<open>
  The brute-force searcher (\<open>search.go\<close>): \<open>float32\<close> squared distances to every reference, five best in
  two parallel arrays that start with the largest \<open>float32\<close>. Distances equal to the fifth are skipped, so of
  equal distances the earlier reference stays. An interpretation of \<open>bounded_best\<close> gives the result:
  the frauds among the five nearest references whose distance is below the largest \<open>float32\<close>.
\<close>

subsection \<open>The code\<close>

definition squaredDistance :: "flt list \<Rightarrow> flt list \<Rightarrow> flt" where
  "squaredDistance a b =
     fold (\<lambda>i sum. let d = fsub binary32 (a ! i) (b ! i) in fadd binary32 sum (fmul binary32 d d)) [0..<Dimensions] (Fin 0)"

record exact_state =
  exactDist :: "flt list"
  exactFraud :: "bool list"

definition maxFloat32 :: flt where
  "maxFloat32 = Fin (max_finite binary32)"

definition exact_init :: exact_state where
  "exact_init = \<lparr>exactDist = replicate 5 maxFloat32, exactFraud = replicate 5 False\<rparr>"

function exact_insert_from :: "nat \<Rightarrow> flt \<Rightarrow> bool \<Rightarrow> exact_state \<Rightarrow> exact_state" where
  "exact_insert_from i d fraud s =
     (if i < 5 then
        if fless d (exactDist s ! i)
        then s\<lparr>exactDist := (shift_right i 4 (exactDist s))[i := d],
               exactFraud := (shift_right i 4 (exactFraud s))[i := fraud]\<rparr>
        else exact_insert_from (Suc i) d fraud s
      else s)"
  by pat_completeness auto
termination
  by (relation "measure (\<lambda>(i, d, fraud, s). 5 - i)") auto

declare exact_insert_from.simps [simp del]

definition exact_step :: "flt list \<Rightarrow> Reference \<Rightarrow> exact_state \<Rightarrow> exact_state" where
  "exact_step query ref s =
     (let d = squaredDistance query (Vector ref)
      in if fleq (exactDist s ! 4) d then s else exact_insert_from 0 d (Label ref = ''fraud'') s)"

definition ExactSearcher_Search5 :: "Reference list \<Rightarrow> flt list \<Rightarrow> nat" where
  "ExactSearcher_Search5 references query =
     (let s = fold (exact_step query) references exact_init;
          limit = (if length references < 5 then length references else 5)
      in fold (\<lambda>i frauds. if exactFraud s ! i then Suc frauds else frauds) [0..<limit] 0)"

subsection \<open>Distances\<close>

text \<open>No distance is negative, finite or infinite.\<close>

definition nonneg_value :: "flt \<Rightarrow> bool" where
  "nonneg_value v \<longleftrightarrow> (case v of Fin a \<Rightarrow> 0 \<le> a | Inf s \<Rightarrow> s | NaN \<Rightarrow> True)"

lemma nonneg_value_simps [simp]:
  "nonneg_value (Fin a) \<longleftrightarrow> 0 \<le> a" "nonneg_value (Inf t) \<longleftrightarrow> t" "nonneg_value NaN"
  by (simp_all add: nonneg_value_def)

lemma rnd_nonneg [simp]: "0 \<le> x \<Longrightarrow> nonneg_value (rnd fmt x)"
  using round_half_even_ge [of 0 "x / pow2 (ulp_exp fmt x)"] pow2_pos [of "ulp_exp fmt x"]
  by (auto simp: rnd_def Let_def less_imp_le)

lemma fadd_nonneg: "nonneg_value a \<Longrightarrow> nonneg_value b \<Longrightarrow> nonneg_value (fadd fmt a b)"
  by (cases a; cases b) auto

lemma square_nonneg: "nonneg_value (fmul fmt d d)"
  by (cases d) auto

lemma squaredDistance_nonneg: "nonneg_value (squaredDistance a b)"
proof -
  have "nonneg_value s \<Longrightarrow>
      nonneg_value (fold (\<lambda>i sum. let d = fsub binary32 (a ! i) (b ! i) in fadd binary32 sum (fmul binary32 d d)) is s)" for "is" s
    by (induction "is" arbitrary: s) (simp_all add: Let_def fadd_nonneg square_nonneg)
  then show ?thesis by (simp add: squaredDistance_def)
qed

subsection \<open>The five best\<close>

fun fin_val :: "flt \<Rightarrow> rat" where
  "fin_val (Fin a) = a"
| "fin_val _ = 0"

definition exact_key :: "flt \<times> bool \<Rightarrow> rat" where
  "exact_key p = fin_val (fst p)"

definition exact_pairs :: "exact_state \<Rightarrow> (flt \<times> bool) list" where
  "exact_pairs s = zip (exactDist s) (exactFraud s)"

text \<open>No slot ever exceeds the largest \<open>float32\<close>, so only smaller distances are near enough to enter.\<close>

definition slot_value :: "flt \<Rightarrow> bool" where
  "slot_value d \<longleftrightarrow> finite_value d \<and> fleq d maxFloat32"

definition is_near :: "flt \<times> bool \<Rightarrow> bool" where
  "is_near p \<longleftrightarrow> fless (fst p) maxFloat32"

definition exact_inv :: "exact_state \<Rightarrow> bool" where
  "exact_inv s \<longleftrightarrow> length (exactDist s) = 5 \<and> length (exactFraud s) = 5 \<and> (\<forall>d \<in> set (exactDist s). slot_value d) \<and>
     sorted (map exact_key (exact_pairs s))"

definition exact_offer :: "flt \<times> bool \<Rightarrow> exact_state \<Rightarrow> exact_state" where
  "exact_offer p s = (if fleq (exactDist s ! 4) (fst p) then s else exact_insert_from 0 (fst p) (snd p) s)"

lemma exact_step_offer:
  "exact_step query ref = exact_offer (squaredDistance query (Vector ref), Label ref = ''fraud'')"
  by (simp add: fun_eq_iff exact_step_def exact_offer_def Let_def)

lemma exact_insert_frame:
  "length (exactDist (exact_insert_from i d fraud s)) = length (exactDist s) \<and>
   length (exactFraud (exact_insert_from i d fraud s)) = length (exactFraud s)"
  by (induction i d fraud s rule: exact_insert_from.induct) (simp add: exact_insert_from.simps)

lemma exact_insert_pairs:
  assumes "length (exactDist s) = 5" "length (exactFraud s) = 5" "\<forall>d \<in> set (exactDist s). finite_value d"
  shows "i \<le> 5 \<Longrightarrow> exact_pairs (exact_insert_from i (Fin a) fraud s) =
    take i (exact_pairs s) @ take (5 - i) (ins_after exact_key (Fin a, fraud) (drop i (exact_pairs s)))"
proof (induction "5 - i" arbitrary: i)
  case 0
  then show ?case using assms by (simp add: exact_insert_from.simps exact_pairs_def)
next
  case (Suc n)
  then have i: "i < 5" by simp
  let ?e = "(Fin a, fraud)" and ?E = "exact_pairs s"
  have len: "length ?E = 5" using assms by (simp add: exact_pairs_def)
  have nth: "?E ! k = (exactDist s ! k, exactFraud s ! k)" if "k < 5" for k
    using that assms by (simp add: exact_pairs_def)
  have drop: "drop i ?E = ?E ! i # drop (Suc i) ?E" using i len by (simp add: Cons_nth_drop_Suc)
  have "finite_value (exactDist s ! i)" using assms i by simp
  then have less: "fless (Fin a) (exactDist s ! i) \<longleftrightarrow> exact_key ?e < exact_key (?E ! i)"
    using i by (auto simp: finite_value_iff exact_key_def nth)
  show ?case
  proof (cases "exact_key ?e < exact_key (?E ! i)")
    case True
    have "exact_pairs (exact_insert_from i (Fin a) fraud s) = take i ?E @ ?e # take (4 - i) (drop i ?E)"
    proof (rule nth_equalityI)
      show "length (exact_pairs (exact_insert_from i (Fin a) fraud s)) = length (take i ?E @ ?e # take (4 - i) (drop i ?E))"
        using i len assms exact_insert_frame [of i "Fin a" fraud s] by (simp add: exact_pairs_def)
    next
      fix k
      assume "k < length (exact_pairs (exact_insert_from i (Fin a) fraud s))"
      then have k: "k < 5" using assms exact_insert_frame [of i "Fin a" fraud s] by (simp add: exact_pairs_def)
      show "exact_pairs (exact_insert_from i (Fin a) fraud s) ! k = (take i ?E @ ?e # take (4 - i) (drop i ?E)) ! k"
        using i k assms True less len
        by (simp add: exact_insert_from.simps exact_pairs_def nth_shift_insert nth_append nth_Cons')
    qed
    with True i show ?thesis by (simp add: drop take_Cons')
  next
    case False
    then have "exact_pairs (exact_insert_from i (Fin a) fraud s) = exact_pairs (exact_insert_from (Suc i) (Fin a) fraud s)"
      using i less by (subst exact_insert_from.simps) auto
    also have "\<dots> = take (Suc i) ?E @ take (5 - Suc i) (ins_after exact_key ?e (drop (Suc i) ?E))"
      using Suc.hyps i by (intro Suc.hyps(1)) auto
    finally have *: "exact_pairs (exact_insert_from i (Fin a) fraud s) =
      take i ?E @ ?E ! i # take (4 - i) (ins_after exact_key ?e (drop (Suc i) ?E))"
      using i len by (simp add: take_Suc_conv_app_nth)
    have "ins_after exact_key ?e (drop i ?E) = ?E ! i # ins_after exact_key ?e (drop (Suc i) ?E)"
      using False by (simp add: drop)
    with * i show ?thesis by (simp add: take_Cons')
  qed
qed

lemma exact_insert_NaN: "exact_insert_from i NaN fraud s = s"
  by (induction i "NaN" fraud s rule: exact_insert_from.induct) (simp add: exact_insert_from.simps)

lemma set_keep_subset: "set (keep k key e xs) \<subseteq> insert e (set xs)"
  using set_take_subset [of k "ins_after key e xs"] by (simp add: keep_def)

lemma far_offer:
  assumes "exact_inv s" "\<not> is_near p" "nonneg_value (fst p)"
  shows "exact_offer p s = s"
proof -
  have "slot_value (exactDist s ! 4)" using assms(1) by (simp add: exact_inv_def)
  then obtain m where "exactDist s ! 4 = Fin m" "m \<le> max_finite binary32"
    by (auto simp: slot_value_def finite_value_iff maxFloat32_def)
  with assms(2,3) show ?thesis
    by (cases "fst p") (auto simp: exact_offer_def is_near_def maxFloat32_def exact_insert_NaN)
qed

lemma near_offer:
  assumes "exact_inv s" "is_near p" "nonneg_value (fst p)"
  shows "exact_pairs (exact_offer p s) = keep 5 exact_key p (exact_pairs s)" "exact_inv (exact_offer p s)"
proof -
  have s: "length (exactDist s) = 5" "length (exactFraud s) = 5" "\<forall>d \<in> set (exactDist s). slot_value d"
    "sorted (map exact_key (exact_pairs s))" using assms(1) by (simp_all add: exact_inv_def)
  then have fin: "\<forall>d \<in> set (exactDist s). finite_value d" by (simp add: slot_value_def)
  have len: "length (exact_pairs s) = 5" using s by (simp add: exact_pairs_def)
  obtain a f where p: "p = (Fin a, f)" "a < max_finite binary32"
    using assms(2,3) by (cases p; cases "fst p") (auto simp: is_near_def maxFloat32_def)
  have "finite_value (exactDist s ! 4)" using fin s(1) by simp
  then obtain m where m: "exactDist s ! 4 = Fin m" by (auto simp: finite_value_iff)
  have last: "last (exact_pairs s) = (Fin m, exactFraud s ! 4)"
    using s len m by (subst last_conv_nth) (auto simp: exact_pairs_def)
  show eq: "exact_pairs (exact_offer p s) = keep 5 exact_key p (exact_pairs s)"
  proof (cases "m \<le> a")
    case True
    then have "keep 5 exact_key p (exact_pairs s) = exact_pairs s"
      unfolding keep_def using len s(4) last by (intro ins_after_full) (auto simp: p exact_key_def)
    then show ?thesis using True m by (simp add: exact_offer_def p)
  next
    case False
    then show ?thesis
      using exact_insert_pairs [OF s(1,2) fin, of 0 a f] m by (simp add: exact_offer_def p keep_def)
  qed
  have l: "length (exactDist (exact_offer p s)) = 5" "length (exactFraud (exact_offer p s)) = 5"
    using s exact_insert_frame [of 0 "Fin a" f s] by (simp_all add: exact_offer_def p)
  then have "set (exactDist (exact_offer p s)) = fst ` set (exact_pairs (exact_offer p s))"
    by (metis exact_pairs_def list.set_map map_fst_zip)
  also have "\<dots> \<subseteq> insert (Fin a) (fst ` set (exact_pairs s))"
    using image_mono [OF set_keep_subset [of 5 exact_key p "exact_pairs s"], of fst] unfolding eq by (simp add: p)
  also have "fst ` set (exact_pairs s) = set (exactDist s)"
    using s by (metis exact_pairs_def list.set_map map_fst_zip)
  finally have "\<forall>d \<in> set (exactDist (exact_offer p s)). slot_value d"
    using s(3) p(2) by (auto simp: slot_value_def finite_value_def maxFloat32_def)
  then show "exact_inv (exact_offer p s)" using l s(4) by (simp add: exact_inv_def eq sorted_keep)
qed

interpretation exact5: bounded_best exact_offer exact_pairs exact_inv "\<lambda>p. is_near p \<and> nonneg_value (fst p)"
    exact_key 5
  using near_offer by unfold_locales auto

lemma fold_offer_near:
  "exact_inv s \<Longrightarrow> \<forall>p \<in> set ps. nonneg_value (fst p) \<Longrightarrow>
     fold exact_offer ps s = fold exact_offer (filter is_near ps) s"
proof (induction ps arbitrary: s)
  case (Cons p ps)
  then show ?case using far_offer [of s p] near_offer(2) [of s p] by (cases "is_near p") simp_all
qed simp

subsection \<open>The answer\<close>

definition distances :: "Reference list \<Rightarrow> flt list \<Rightarrow> (flt \<times> bool) list" where
  "distances references query =
     map (\<lambda>r. (squaredDistance query (Vector r), Label r = ''fraud'')) references"

definition exact_sentinel :: "flt \<times> bool" where
  "exact_sentinel = (maxFloat32, False)"

lemma exact_init_ok: "exact_inv exact_init" "exact_pairs exact_init = best 5 exact_key (replicate 5 exact_sentinel)"
proof -
  have p: "exact_pairs exact_init = replicate 5 exact_sentinel"
    by (simp add: exact_pairs_def exact_init_def exact_sentinel_def numeral_eq_Suc)
  have "sort_key exact_key (replicate 5 exact_sentinel) = replicate 5 exact_sentinel"
    by (rule sort_key_id_if_sorted) (simp add: numeral_eq_Suc)
  then show "exact_pairs exact_init = best 5 exact_key (replicate 5 exact_sentinel)" by (simp add: p best_def)
  have "sorted (map exact_key (exact_pairs exact_init))" by (simp add: p numeral_eq_Suc)
  then show "exact_inv exact_init"
    by (simp add: exact_inv_def exact_init_def slot_value_def maxFloat32_def finite_value_def)
qed

lemma count_taken:
  "n \<le> length b \<Longrightarrow> fold (\<lambda>i frauds. if b ! i then Suc frauds else frauds) [0..<n] 0 = length (filter id (take n b))"
  by (induction n) (simp_all add: take_Suc_conv_app_nth)

lemma ExactSearcher_nearest:
  "ExactSearcher_Search5 references query =
     length (filter snd (best 5 exact_key (filter is_near (distances references query))))"
proof -
  let ?n = "length references"
  define ps where "ps = filter is_near (distances references query)"
  define s where "s = fold (exact_step query) references exact_init"
  have nonneg: "\<forall>p \<in> set (distances references query). nonneg_value (fst p)"
    by (auto simp: distances_def squaredDistance_nonneg)
  have s_ps: "s = fold exact_offer ps exact_init"
    unfolding s_def ps_def fold_offer_near [OF exact_init_ok(1) nonneg, symmetric]
    by (simp add: distances_def fold_map comp_def exact_step_offer [symmetric])
  have near: "\<forall>p \<in> set ps. is_near p \<and> nonneg_value (fst p)" using nonneg by (auto simp: ps_def)
  note run = exact5.run_best [OF exact_init_ok near, folded s_ps]
  have "\<forall>p \<in> set ps. exact_key p < exact_key exact_sentinel"
  proof
    fix p
    assume "p \<in> set ps"
    with near show "exact_key p < exact_key exact_sentinel"
      by (cases "fst p") (auto simp: is_near_def exact_key_def exact_sentinel_def maxFloat32_def)
  qed
  then have pairs: "exact_pairs s = take 5 (sort_key exact_key ps @ replicate 5 exact_sentinel)"
    using run(2) by (simp add: best_pad)
  have len: "length (exactDist s) = 5" "length (exactFraud s) = 5" using run(1) by (simp_all add: exact_inv_def)
  have "exactFraud s = map snd (exact_pairs s)" using len by (simp add: exact_pairs_def)
  then have fraud: "filter id (take k (exactFraud s)) = map snd (filter snd (take k (exact_pairs s)))" for k
    by (simp add: filter_map comp_def take_map)
  have few: "length ps \<le> ?n" using length_filter_le [of is_near] by (simp add: ps_def distances_def)
  let ?limit = "if ?n < 5 then ?n else 5"
  have "ExactSearcher_Search5 references query = length (filter id (take ?limit (exactFraud s)))"
    using len by (simp add: ExactSearcher_Search5_def Let_def s_def [symmetric] count_taken)
  also have "\<dots> = length (filter snd (take ?limit (exact_pairs s)))" by (simp only: fraud length_map)
  also have "filter snd (take ?limit (exact_pairs s)) = filter snd (take ?limit (sort_key exact_key ps))"
    unfolding pairs by (simp add: take_take exact_sentinel_def)
  also have "take ?limit (sort_key exact_key ps) = best 5 exact_key ps" using few by (simp add: best_def)
  finally show ?thesis by (simp add: ps_def)
qed

end
