(* ===== verification/Vectorize_Json.thy ===== *)
theory Vectorize_Json
  imports Json_Scan
begin

text \<open>
  Feature vectors straight from a request body (\<open>VectorizeJSON\<close>, \<open>VectorizeJSONQuantized\<close> and the risk of a
  merchant category in \<open>vectorize_json.go\<close>). The two vectorizers read the same fields in the same order, so
  \<open>requestFields\<close> and \<open>lastTransactionJSON\<close> stand for those lines of both. \<open>None\<close> is a panic, \<open>Some None\<close>
  the return with \<open>ok = false\<close>, whose vector no caller reads.
\<close>

subsection \<open>Merchant category risk\<close>

definition pack4 :: "u8 \<Rightarrow> u8 \<Rightarrow> u8 \<Rightarrow> u8 \<Rightarrow> u32" where
  "pack4 a b c d = push_bit 24 (ucast a) OR push_bit 16 (ucast b) OR push_bit 8 (ucast c) OR ucast d"

definition mccRiskValueBytesKnown :: "u8 list \<Rightarrow> flt option" where
  "mccRiskValueBytesKnown mcc =
     (if length mcc \<noteq> 4 then None
      else
        let code = pack4 (mcc ! 0) (mcc ! 1) (mcc ! 2) (mcc ! 3) in
        if code = pack4 53 52 49 49 then Some (hundredths 15)
        else if code = pack4 53 56 49 50 then Some (hundredths 30)
        else if code = pack4 53 57 49 50 then Some (hundredths 20)
        else if code = pack4 53 57 52 52 then Some (hundredths 45)
        else if code = pack4 55 56 48 49 then Some (hundredths 80)
        else if code = pack4 55 56 48 50 then Some (hundredths 75)
        else if code = pack4 55 57 57 53 then Some (hundredths 85)
        else if code = pack4 52 53 49 49 then Some (hundredths 35)
        else if code = pack4 53 51 49 49 then Some (hundredths 25)
        else if code = pack4 53 57 57 57 then Some (hundredths 50)
        else None)"

text \<open>The risk map is not read.\<close>

definition mccRiskValueBytes :: "u8 list \<Rightarrow> (gostring \<rightharpoonup> flt) \<Rightarrow> flt" where
  "mccRiskValueBytes mcc risk = (case mccRiskValueBytesKnown mcc of Some v \<Rightarrow> v | None \<Rightarrow> Fin (1 / 2))"

definition mccRiskValueBytesFast :: "u8 list \<Rightarrow> flt" where
  "mccRiskValueBytesFast mcc = (case mccRiskValueBytesKnown mcc of Some v \<Rightarrow> v | None \<Rightarrow> Fin (1 / 2))"

subsection \<open>The fields of a body\<close>

record json_request =
  jsonAmount :: flt
  jsonInstallments :: flt
  jsonRequestedAt :: "u8 list"
  jsonCustomerPos :: nat
  jsonMerchantPos :: nat
  jsonCustomerAvg :: flt
  jsonTxCount :: flt
  jsonMerchantID :: "u8 list"
  jsonMCC :: "u8 list"
  jsonMerchantAvg :: flt
  jsonIsOnline :: bool
  jsonCardPresent :: bool
  jsonKmFromHome :: flt

definition requestFields :: "u8 list \<Rightarrow> json_request option option" where
  "requestFields data =
     ok_then (numberAfter data (quoted ''amount'') 0) (\<lambda>amount.
     ok_then (numberAfter data (quoted ''installments'') 0) (\<lambda>installments.
     ok_then (stringAfter data (quoted ''requested_at'') 0) (\<lambda>requestedAt.
     if length requestedAt < 20 then Some None else
     case (bytes_Index data (quoted ''customer''), bytes_Index data (quoted ''merchant''),
           bytes_Index data (quoted ''terminal'')) of
       (Some customerPos, Some merchantPos, Some terminalPos) \<Rightarrow>
         ok_then (numberAfter data (quoted ''avg_amount'') customerPos) (\<lambda>customerAvg.
         ok_then (numberAfter data (quoted ''tx_count_24h'') customerPos) (\<lambda>txCount.
         ok_then (stringAfter data (quoted ''id'') merchantPos) (\<lambda>merchantID.
         ok_then (stringAfter data (quoted ''mcc'') merchantPos) (\<lambda>mcc.
         ok_then (numberAfter data (quoted ''avg_amount'') merchantPos) (\<lambda>merchantAvg.
         ok_then (boolAfter data (quoted ''is_online'') terminalPos) (\<lambda>isOnline.
         ok_then (boolAfter data (quoted ''card_present'') terminalPos) (\<lambda>cardPresent.
         ok_then (numberAfter data (quoted ''km_from_home'') terminalPos) (\<lambda>kmFromHome.
         Some (Some \<lparr>jsonAmount = amount, jsonInstallments = installments, jsonRequestedAt = requestedAt,
           jsonCustomerPos = customerPos, jsonMerchantPos = merchantPos, jsonCustomerAvg = customerAvg,
           jsonTxCount = txCount, jsonMerchantID = merchantID, jsonMCC = mcc, jsonMerchantAvg = merchantAvg,
           jsonIsOnline = isOnline, jsonCardPresent = cardPresent, jsonKmFromHome = kmFromHome\<rparr>)))))))))
     | _ \<Rightarrow> Some None)))"

text \<open>The innermost \<open>None\<close> says that there is no last transaction.\<close>

definition lastTransactionJSON :: "u8 list \<Rightarrow> (u8 list \<times> flt) option option option" where
  "lastTransactionJSON data =
     (case bytes_Index data (quoted ''last_transaction'') of
        None \<Rightarrow> Some (Some None)
      | Some lastPos \<Rightarrow> do {
          tail \<leftarrow> slice data (lastPos + length (quoted ''last_transaction'')) (length data);
          if has_prefix (skipValuePrefix tail) (bytes_of ''null'') then Some (Some None)
          else
            ok_then (stringAfter data (quoted ''timestamp'') lastPos) (\<lambda>lastTimestamp.
            if length lastTimestamp < 20 then Some None else
            ok_then (numberAfter data (quoted ''km_from_current'') lastPos) (\<lambda>kmFromCurrent.
            Some (Some (Some (lastTimestamp, kmFromCurrent))))) })"

definition minutesBetween :: "u8 list \<Rightarrow> u8 list \<Rightarrow> flt" where
  "minutesBetween requestedAt lastTimestamp =
     ffrom_int binary64 (sub64 (epochMinutes requestedAt) (epochMinutes lastTimestamp))"

subsection \<open>The two vectorizers\<close>

definition VectorizeJSON ::
    "u8 list \<Rightarrow> Normalization \<Rightarrow> (gostring \<rightharpoonup> flt) \<Rightarrow> flt list option option" where
  "VectorizeJSON data params mccRisk =
     ok_then (requestFields data) (\<lambda>r. do {
       known \<leftarrow> knownMerchantJSON data (jsonMerchantID r) (int (jsonCustomerPos r)) (int (jsonMerchantPos r));
       ok_then (lastTransactionJSON data) (\<lambda>lastTx.
       let (vec5, vec6) =
         (case lastTx of
            None \<Rightarrow> (Fin (- 1), Fin (- 1))
          | Some (lastTimestamp, kmFromCurrent) \<Rightarrow>
              (f32 (clamp (div_or_one (minutesBetween (jsonRequestedAt r) lastTimestamp) (MaxMinutes params))),
               f32 (clamp (div_or_one kmFromCurrent (MaxKM params)))))
       in Some (Some
         [f32 (clamp (div_or_one (jsonAmount r) (MaxAmount params))),
          f32 (clamp (div_or_one (jsonInstallments r) (MaxInstallments params))),
          f32 (clamp (div_or_one (div_or_one (jsonAmount r) (jsonCustomerAvg r)) (AmountVsAvgRatio params))),
          f32 (fdiv binary64 (ffrom_int binary64 (parse2 (window (jsonRequestedAt r) 11 13))) (Fin 23)),
          f32 (fdiv binary64 (ffrom_int binary64 (weekdayMonday0 (jsonRequestedAt r))) (Fin 6)),
          vec5, vec6,
          f32 (clamp (div_or_one (jsonKmFromHome r) (MaxKM params))),
          f32 (clamp (div_or_one (jsonTxCount r) (MaxTxCount24h params))),
          boolFloat (jsonIsOnline r), boolFloat (jsonCardPresent r), boolFloat (\<not> known),
          f32 (mccRiskValueBytes (jsonMCC r) mccRisk),
          f32 (clamp (div_or_one (jsonMerchantAvg r) (MaxMerchantAvgAmount params)))])) })"

definition VectorizeJSONQuantized :: "u8 list \<Rightarrow> Normalization \<Rightarrow> i16 list option option" where
  "VectorizeJSONQuantized data params =
     ok_then (requestFields data) (\<lambda>r. do {
       known \<leftarrow> knownMerchantJSON data (jsonMerchantID r) (int (jsonCustomerPos r)) (int (jsonMerchantPos r));
       ok_then (lastTransactionJSON data) (\<lambda>lastTx.
       let (vec5, vec6) =
         (case lastTx of
            None \<Rightarrow> (- QuantScale, - QuantScale)
          | Some (lastTimestamp, kmFromCurrent) \<Rightarrow>
              (quantizeFloat64 (clamp (div_or_one (minutesBetween (jsonRequestedAt r) lastTimestamp) (MaxMinutes params))),
               quantizeFloat64 (clamp (div_or_one kmFromCurrent (MaxKM params)))))
       in Some (Some
         [quantizeFloat64 (clamp (div_or_one (jsonAmount r) (MaxAmount params))),
          quantizeFloat64 (clamp (div_or_one (jsonInstallments r) (MaxInstallments params))),
          quantizeFloat64 (clamp (div_or_one (div_or_one (jsonAmount r) (jsonCustomerAvg r)) (AmountVsAvgRatio params))),
          quantizeFloat64 (fdiv binary64 (ffrom_int binary64 (parse2 (window (jsonRequestedAt r) 11 13))) (Fin 23)),
          quantizeFloat64 (fdiv binary64 (ffrom_int binary64 (weekdayMonday0 (jsonRequestedAt r))) (Fin 6)),
          vec5, vec6,
          quantizeFloat64 (clamp (div_or_one (jsonKmFromHome r) (MaxKM params))),
          quantizeFloat64 (clamp (div_or_one (jsonTxCount r) (MaxTxCount24h params))),
          quantizeBool (jsonIsOnline r), quantizeBool (jsonCardPresent r), quantizeBool (\<not> known),
          quantizeFloat64 (mccRiskValueBytesFast (jsonMCC r)),
          quantizeFloat64 (clamp (div_or_one (jsonMerchantAvg r) (MaxMerchantAvgAmount params)))])) })"

subsection \<open>Both are the same coordinates\<close>

definition coordinates :: "json_request \<Rightarrow> bool \<Rightarrow> (u8 list \<times> flt) option \<Rightarrow> Normalization \<Rightarrow> flt list" where
  "coordinates r known lastTx params =
     [clamp (div_or_one (jsonAmount r) (MaxAmount params)),
      clamp (div_or_one (jsonInstallments r) (MaxInstallments params)),
      clamp (div_or_one (div_or_one (jsonAmount r) (jsonCustomerAvg r)) (AmountVsAvgRatio params)),
      fdiv binary64 (ffrom_int binary64 (parse2 (window (jsonRequestedAt r) 11 13))) (Fin 23),
      fdiv binary64 (ffrom_int binary64 (weekdayMonday0 (jsonRequestedAt r))) (Fin 6),
      (case lastTx of None \<Rightarrow> Fin (- 1)
       | Some (ts, km) \<Rightarrow> clamp (div_or_one (minutesBetween (jsonRequestedAt r) ts) (MaxMinutes params))),
      (case lastTx of None \<Rightarrow> Fin (- 1) | Some (ts, km) \<Rightarrow> clamp (div_or_one km (MaxKM params))),
      clamp (div_or_one (jsonKmFromHome r) (MaxKM params)),
      clamp (div_or_one (jsonTxCount r) (MaxTxCount24h params)),
      boolFloat (jsonIsOnline r), boolFloat (jsonCardPresent r), boolFloat (\<not> known),
      mccRiskValueBytesFast (jsonMCC r),
      clamp (div_or_one (jsonMerchantAvg r) (MaxMerchantAvgAmount params))]"

definition vectorize_with :: "(flt \<Rightarrow> 'a) \<Rightarrow> u8 list \<Rightarrow> Normalization \<Rightarrow> 'a list option option" where
  "vectorize_with f data params =
     ok_then (requestFields data) (\<lambda>r. do {
       known \<leftarrow> knownMerchantJSON data (jsonMerchantID r) (int (jsonCustomerPos r)) (int (jsonMerchantPos r));
       ok_then (lastTransactionJSON data) (\<lambda>lastTx. Some (Some (map f (coordinates r known lastTx params)))) })"

lemma f32_bounds: "f32 (Fin 1) = Fin 1" "f32 (Fin 0) = Fin 0" "f32 (Fin (- 1)) = Fin (- 1)"
proof -
  show "f32 (Fin 1) = Fin 1" using fine_rnd [OF fine_formats(1), of 1024 1 1024] by (auto simp: f32_def fconv_def)
  show "f32 (Fin 0) = Fin 0" by (simp add: f32_def fconv_def rnd_def)
  have "ulp_exp binary32 (- 1) \<le> 0" by (intro ulp_exp_le [of _ 1]) (auto simp: binary32_def pow2_def)
  moreover have "1 \<le> max_finite binary32" by (simp add: binary32_def)
  ultimately show "f32 (Fin (- 1)) = Fin (- 1)"
    using rnd_between [of "- 1" 0 "- 1" "- 1" binary32] by (auto simp: f32_def fconv_def pow2_def)
qed

lemma quantize_exact:
  assumes "fine fmt" "0 \<le> a" "a \<le> 1" "10000 * a = of_int n"
  shows "sint (quantize_value fmt (Fin a)) = n"
proof -
  define m where "m = sint (quantize_value fmt (Fin a))"
  have "\<bar>of_int m - of_int n :: rat\<bar> \<le> 1 / 2 + 1 / 1024"
    using quantize_value_nearest [OF assms(1-3)] assms(4) by (simp only: m_def)
  then have "(of_int m :: rat) < of_int (n + 1)" "of_int (n - 1) < (of_int m :: rat)"
    unfolding abs_le_iff by simp_all
  then show ?thesis unfolding of_int_less_iff m_def [symmetric] by linarith
qed

lemma quantize_bounds:
  assumes "fine fmt"
  shows "quantize_value fmt (Fin 1) = QuantScale" "quantize_value fmt (Fin 0) = 0"
    "quantize_value fmt (Fin (- 1)) = - QuantScale"
proof -
  have "sint (quantize_value fmt (Fin 1)) = sint QuantScale" "sint (quantize_value fmt (Fin 0)) = sint (0 :: i16)"
    using quantize_exact [OF assms, of 1 10000] quantize_exact [OF assms, of 0 0] by simp_all
  then show "quantize_value fmt (Fin 1) = QuantScale" "quantize_value fmt (Fin 0) = 0"
    by (simp_all only: signed_word_eqI)
  show "quantize_value fmt (Fin (- 1)) = - QuantScale" by (simp add: quantize_value_def)
qed

lemma Vectorize_Json_factor:
  "VectorizeJSON data params risk = vectorize_with f32 data params"
  "VectorizeJSONQuantized data params = vectorize_with quantizeFloat64 data params"
proof -
  have b: "boolFloat b = f32 (boolFloat b)" "quantizeBool b = quantizeFloat64 (boolFloat b)" for b
    using quantize_bounds [OF fine_formats(2)]
    by (auto simp: boolFloat_def f32_bounds quantizeBool_def quantizeFloat64_def)
  have m: "mccRiskValueBytes mcc risk = mccRiskValueBytesFast mcc" for mcc
    by (simp add: mccRiskValueBytes_def mccRiskValueBytesFast_def)
  show "VectorizeJSON data params risk = vectorize_with f32 data params"
    unfolding VectorizeJSON_def vectorize_with_def coordinates_def m
    by (intro arg_cong2 [where f = ok_then] arg_cong2 [where f = Option.bind] refl ext)
       (simp add: f32_bounds b(1) [symmetric] split: option.split)
  show "VectorizeJSONQuantized data params = vectorize_with quantizeFloat64 data params"
    unfolding VectorizeJSONQuantized_def vectorize_with_def coordinates_def
    using quantize_bounds(3) [OF fine_formats(2)]
    by (intro arg_cong2 [where f = ok_then] arg_cong2 [where f = Option.bind] refl ext)
       (simp add: quantizeFloat64_def [symmetric] b(2) [symmetric] split: option.split)
qed

subsection \<open>When they return\<close>

lemma ok_then_total: "\<exists>v. r = Some v \<Longrightarrow> (\<And>x. r = Some (Some x) \<Longrightarrow> \<exists>v. k x = Some v) \<Longrightarrow> \<exists>v. ok_then r k = Some v"
  by (auto simp: ok_then_def split: option.splits)

lemma found_in: "bytes_Index data key = Some p \<Longrightarrow> p + length key \<le> length data"
  using bytes_Index_Some by blast

lemma requestFields_total: "\<exists>r. requestFields data = Some r"
proof -
  have pos: "p \<le> length data" if "bytes_Index data key = Some p" for p key using found_in [OF that] by simp
  show ?thesis
    unfolding requestFields_def
    by (intro ok_then_total numberAfter_total stringAfter_total)
       (auto split: option.splits intro!: ok_then_total numberAfter_total stringAfter_total boolAfter_total pos)
qed

lemma lastTransactionJSON_total: "\<exists>r. lastTransactionJSON data = Some r"
proof (cases "bytes_Index data (quoted ''last_transaction'')")
  case None
  then show ?thesis by (simp add: lastTransactionJSON_def)
next
  case (Some p)
  note fits = found_in [OF Some]
  then show ?thesis
    by (simp add: lastTransactionJSON_def Some slice_tail)
       (intro impI ok_then_total stringAfter_total; auto intro!: ok_then_total numberAfter_total)
qed

text \<open>The bodies on which both vectorizers panic: the merchant has an empty id, and the section
  of the known merchants has no \<open>""\<close> in it.\<close>

definition panics :: "u8 list \<Rightarrow> bool" where
  "panics data \<longleftrightarrow> (\<exists>r part. requestFields data = Some (Some r) \<and> jsonMerchantID r = [] \<and>
     merchant_section data (int (jsonCustomerPos r)) (int (jsonMerchantPos r)) = Some part \<and> \<not> quoted_in part [])"

lemma vectorize_with_panics: "vectorize_with f data params = None \<longleftrightarrow> panics data"
proof -
  obtain r where r: "requestFields data = Some r" using requestFields_total by blast
  obtain l where l: "lastTransactionJSON data = Some l" using lastTransactionJSON_total by blast
  have "ok_then (Some l) (\<lambda>lastTx. Some (Some (g lastTx))) \<noteq> None" for g :: "_ \<Rightarrow> 'a list"
    by (simp add: ok_then_def split: option.split)
  then show ?thesis
    unfolding vectorize_with_def panics_def r l knownMerchantJSON_spec
    by (cases r) (auto simp: ok_then_def split: option.splits if_splits)
qed

lemma vectorize_with_fails:
  "vectorize_with f data params = Some None \<longleftrightarrow>
     (requestFields data = Some None \<or> (lastTransactionJSON data = Some None \<and> \<not> panics data))"
proof -
  obtain r where r: "requestFields data = Some r" using requestFields_total by blast
  obtain l where l: "lastTransactionJSON data = Some l" using lastTransactionJSON_total by blast
  show ?thesis
    unfolding vectorize_with_def panics_def r l knownMerchantJSON_spec
    by (cases r; cases l) (auto simp: ok_then_def split: option.splits if_splits)
qed

lemma vectorize_with_Some:
  assumes "vectorize_with f data params = Some (Some v)"
  obtains r known lastTx where "requestFields data = Some (Some r)" "v = map f (coordinates r known lastTx params)"
    "\<And>g. vectorize_with g data params = Some (Some (map g (coordinates r known lastTx params)))"
proof -
  from assms obtain r where r: "requestFields data = Some (Some r)"
    by (auto simp: vectorize_with_def ok_then_def split: option.splits)
  with assms obtain known where
    known: "knownMerchantJSON data (jsonMerchantID r) (int (jsonCustomerPos r)) (int (jsonMerchantPos r)) = Some known"
    by (auto simp: vectorize_with_def ok_then_def bind_eq_Some_conv)
  with assms r obtain lastTx where lastTx: "lastTransactionJSON data = Some (Some lastTx)"
    by (auto simp: vectorize_with_def ok_then_def split: option.splits)
  have "vectorize_with g data params = Some (Some (map g (coordinates r known lastTx params)))" for g :: "flt \<Rightarrow> 'b"
    using r known lastTx by (simp add: vectorize_with_def ok_then_def)
  moreover have "v = map f (coordinates r known lastTx params)"
    using assms r known lastTx by (simp add: vectorize_with_def ok_then_def)
  ultimately show thesis using that r by blast
qed

lemma panics_shape:
  assumes "requestFields data = Some (Some r)" "jsonMerchantID r \<noteq> []"
  shows "\<not> panics data"
  using assms by (auto simp: panics_def)

subsection \<open>The result\<close>

lemma length_coordinates [simp]: "length (coordinates r known lastTx params) = 14"
  by (simp add: coordinates_def)

lemma VectorizeJSONQuantized_query:
  assumes "VectorizeJSONQuantized data params = Some (Some v)"
  shows "quantized_query v"
proof -
  from assms obtain r known lastTx where "v = map quantizeFloat64 (coordinates r known lastTx params)"
    unfolding Vectorize_Json_factor by (rule vectorize_with_Some)
  then show ?thesis
    using quantize_value_range [OF fine_formats(2)]
    by (auto simp: quantized_query_def quantizeFloat64_def Dimensions_def)
qed

text \<open>The two quantizations of one value: exactly in \<open>float64\<close>, or through \<open>float32\<close>.\<close>

definition close_values :: "flt \<Rightarrow> bool" where
  "close_values v \<longleftrightarrow> \<bar>sint (quantize_value binary32 (f32 v)) - sint (quantizeFloat64 v)\<bar> \<le> 1"

lemma close_same: "quantize_value binary32 (f32 v) = quantizeFloat64 v \<Longrightarrow> close_values v"
  by (simp add: close_values_def)

lemma close_unit:
  assumes "unit_value v"
  shows "close_values v"
proof -
  from assms obtain a where v: "v = Fin a" "0 \<le> a" "a \<le> 1" by (auto simp: unit_value_iff)
  then obtain b where b: "f32 v = Fin b" "0 \<le> b" "b \<le> 1" "\<bar>b - a\<bar> \<le> 1 / 16777216"
    using rnd32_unit [of a] by (auto simp: f32_def fconv_def)
  define m n where "m = sint (quantize_value binary32 (Fin b))" and "n = sint (quantize_value binary64 (Fin a))"
  have "\<bar>of_int m - 10000 * b\<bar> \<le> 1 / 2 + 1 / 1024" "\<bar>of_int n - 10000 * a\<bar> \<le> 1 / 2 + 1 / 1024"
    unfolding m_def n_def using quantize_value_nearest fine_formats b(2,3) v(2,3) by blast+
  then have "(of_int m :: rat) - of_int n < 2" "(of_int n :: rat) - of_int m < 2"
    using b(4) unfolding abs_le_iff by linarith+
  then have "(of_int (m - n) :: rat) < of_int 2" "(of_int (n - m) :: rat) < of_int 2" by simp_all
  then have "\<bar>m - n\<bar> \<le> 1" unfolding of_int_less_iff by linarith
  then show ?thesis using v(1) b(1) by (simp add: close_values_def quantizeFloat64_def m_def n_def)
qed

lemma close_NaN: "close_values NaN"
  by (simp add: close_same f32_def fconv_def quantizeFloat64_def quantize_value_def)

lemma close_clamp: "close_values (clamp v)"
proof (cases "v = NaN")
  case True
  then show ?thesis using close_NaN by (simp add: clamp_def)
qed (simp add: clamp_unit close_unit)

lemma close_minus_one: "close_values (Fin (- 1))"
  by (rule close_same) (simp add: f32_bounds quantizeFloat64_def quantize_bounds fine_formats)

text \<open>Values above one are clamped to it, and what is left of the negative values becomes zero.\<close>

lemma close_large:
  assumes "1 \<le> a" "a \<le> 10000"
  shows "close_values (Fin a)"
proof -
  have "of_int 1024 / 1024 \<le> a" "a \<le> of_int 10240000 / 1024" using assms by simp_all
  then obtain b where b: "f32 (Fin a) = Fin b" "1 \<le> b"
    using fine_rnd [OF fine_formats(1), of 1024 a 10240000] by (auto simp: f32_def fconv_def)
  have "quantize_value fmt (Fin c) = quantize_value fmt (Fin 1)" if "1 \<le> c" for fmt c
    using that by (simp add: quantize_value_def Let_def)
  from this [OF assms(1)] this [OF b(2)] b(1) show ?thesis
    by (intro close_same) (simp add: quantizeFloat64_def quantize_bounds fine_formats)
qed

lemma rnd_small_negative:
  assumes "fine fmt" "- 900 / 1024 \<le> x" "x \<le> 0"
  shows "\<exists>y. rnd fmt x = Fin y \<and> - 900 / 1024 \<le> y \<and> y \<le> 0"
proof (cases "x = 0")
  case False
  have p: "pow2 (- 10) = 1 / 1024" by (simp add: pow2_def)
  have "ulp_exp fmt x \<le> - 10" using fine_ulp [OF assms(1)] False assms(2,3) by simp
  moreover have "20000 \<le> max_finite fmt" using assms(1) by (simp add: fine_def)
  ultimately show ?thesis using rnd_between [of "- 900" "- 10" x 0 fmt] assms(2,3) by (auto simp: p)
qed (simp add: rnd_def)

lemma close_small_negative:
  assumes "- 900 / 1024 \<le> a" "a \<le> 0"
  shows "close_values (Fin a)"
proof -
  obtain b where b: "f32 (Fin a) = Fin b" "- 900 / 1024 \<le> b" "b \<le> 0"
    using rnd_small_negative [OF fine_formats(1) assms] by (auto simp: f32_def fconv_def)
  have "quantize_value fmt (Fin c) = quantize_value fmt (Fin 0)" if "- 900 / 1024 \<le> c" "c \<le> 0" for fmt c
    using that by (simp add: quantize_value_def Let_def)
  from this [OF assms] this [OF b(2,3)] b(1) show ?thesis
    by (intro close_same) (simp add: quantizeFloat64_def quantize_bounds fine_formats)
qed

lemma rnd64_hour:
  assumes "0 \<le> n" "n \<le> 10000"
  shows "ffrom_int binary64 n = Fin (of_int n)"
  using fine_rnd [of binary64 "1024 * n" "of_int n" "1024 * n"] fine_formats(2) assms by (auto simp: ffrom_int_def)

lemma close_hour: "close_values (fdiv binary64 (ffrom_int binary64 (parse2 bs)) (Fin 23))"
proof -
  define n where "n = parse2 bs"
  have n: "0 \<le> n" "n \<le> 2805" using parse2_range [of bs] by (simp_all add: n_def)
  have b: "0 \<le> of_int n / (23 :: rat)" "of_int n / (23 :: rat) \<le> 10000" using n by auto
  with fine_rnd [OF fine_formats(2), of 0 "of_int n / 23" 10240000]
  obtain a where a: "rnd binary64 (of_int n / 23) = Fin a" "0 \<le> a" "a \<le> 10000" by auto
  have "fdiv binary64 (ffrom_int binary64 n) (Fin 23) = Fin a" using rnd64_hour n a(1) by simp
  moreover have "close_values (Fin a)"
    using a close_large [of a] close_unit [of "Fin a"] by (cases "1 \<le> a") (auto simp: unit_value_def)
  ultimately show ?thesis by (simp add: n_def)
qed

lemma ffrom_small_neg: "n \<in> {1, 2, 3, 4, 5, 6} \<Longrightarrow> ffrom_int binary64 (- n) = Fin (- of_int n)"
proof -
  assume n: "n \<in> {1, 2, 3, 4, 5, 6}"
  then have "ulp_exp binary64 (- of_int n) \<le> 0" by (intro ulp_exp_le [of _ 3]) (auto simp: binary64_def pow2_def)
  moreover have "8 \<le> max_finite binary64" by (simp add: binary64_def)
  ultimately show ?thesis
    using rnd_between [of "- n" 0 "- of_int n" "- n" binary64] n by (auto simp: ffrom_int_def pow2_def)
qed

lemma close_weekday: "close_values (fdiv binary64 (ffrom_int binary64 (weekdayMonday0 ts)) (Fin 6))"
proof -
  define n where "n = weekdayMonday0 ts"
  have n: "- 6 \<le> n" "n \<le> 6" using weekday_bytes [of ts] by (simp_all add: n_def)
  show ?thesis
  proof (cases "0 \<le> n")
    case True
    then show ?thesis using small_quotient_unit [of n 6] n close_unit by (simp add: n_def)
  next
    case False
    then have m: "- n \<in> {1, 2, 3, 4, 5, 6}" using n by auto
    then have q: "fdiv binary64 (ffrom_int binary64 n) (Fin 6) = rnd binary64 (of_int n / 6)"
      using ffrom_small_neg [OF m] by simp
    show ?thesis
    proof (cases "n = - 6")
      case True
      then show ?thesis
        using q ffrom_small_neg [of 1] close_minus_one by (simp add: n_def ffrom_int_def)
    next
      case big: False
      then have "- 900 / 1024 \<le> of_int n / (6 :: rat)" "of_int n / 6 \<le> (0 :: rat)" using m by auto
      then obtain a where "rnd binary64 (of_int n / 6) = Fin a" "- 900 / 1024 \<le> a" "a \<le> 0"
        using rnd_small_negative [OF fine_formats(2)] by blast
      then show ?thesis using q close_small_negative by (simp add: n_def)
    qed
  qed
qed

lemma mcc_unit: "unit_value (mccRiskValueBytesFast mcc)"
proof -
  have "unit_value v" if "mccRiskValueBytesKnown mcc = Some v" for v
    using that hundredths_unit by (auto simp: mccRiskValueBytesKnown_def Let_def split: if_splits)
  then show ?thesis by (auto simp: mccRiskValueBytesFast_def unit_value_def split: option.split)
qed

lemma close_coordinates: "\<forall>v \<in> set (coordinates r known lastTx params). close_values v"
  using close_unit [OF boolFloat_unit] close_unit [OF mcc_unit]
  by (simp add: coordinates_def close_clamp close_hour close_weekday close_minus_one split: option.split)

text \<open>The risk of a category is the one of the default table.\<close>

lemma unpack4:
  "ucast (pack4 a b c d) = d" "ucast (drop_bit 8 (pack4 a b c d)) = c"
  "ucast (drop_bit 16 (pack4 a b c d)) = b" "ucast (drop_bit 24 (pack4 a b c d)) = a"
  unfolding pack4_def by (rule bit_word_eqI; auto simp: bit_simps dest: bit_imp_le_length)+

lemma pack4_inj: "pack4 a b c d = pack4 a' b' c' d' \<longleftrightarrow> a = a' \<and> b = b' \<and> c = c' \<and> d = d'"
  by (metis unpack4)

lemma pack4_code:
  assumes "length mcc = 4"
  shows "pack4 (mcc ! 0) (mcc ! 1) (mcc ! 2) (mcc ! 3) = pack4 a b c d \<longleftrightarrow> mcc = [a, b, c, d]"
proof -
  from assms obtain w x y z where "mcc = [w, x, y, z]" by (auto simp: length_Suc_conv numeral_eq_Suc)
  then show ?thesis by (simp add: pack4_inj)
qed

lemma mcc_codes:
  "bytes_of ''5411'' = [53, 52, 49, 49]" "bytes_of ''5812'' = [53, 56, 49, 50]" "bytes_of ''5912'' = [53, 57, 49, 50]"
  "bytes_of ''5944'' = [53, 57, 52, 52]" "bytes_of ''7801'' = [55, 56, 48, 49]" "bytes_of ''7802'' = [55, 56, 48, 50]"
  "bytes_of ''7995'' = [55, 57, 57, 53]" "bytes_of ''4511'' = [52, 53, 49, 49]" "bytes_of ''5311'' = [53, 51, 49, 49]"
  "bytes_of ''5999'' = [53, 57, 57, 57]"
  by (simp_all add: bytes_of_def)

lemma mccRiskValueBytesKnown_default: "mccRiskValueBytesKnown mcc = DefaultMCCRisk mcc"
proof (cases "length mcc = 4")
  case True
  then show ?thesis
    by (simp only: mccRiskValueBytesKnown_def DefaultMCCRisk_def Let_def mcc_codes pack4_code map_of.simps
        fst_conv snd_conv fun_upd_apply if_False if_True simp_thms)
next
  case False
  then have "mcc \<noteq> [a, b, c, d]" for a b c d by auto
  with False show ?thesis
    by (simp only: mccRiskValueBytesKnown_def DefaultMCCRisk_def mcc_codes map_of.simps fst_conv snd_conv fun_upd_apply
        if_False if_True simp_thms)
qed

lemma mccRisk_default:
  "mccRiskValueBytesFast mcc = mccRiskValue mcc DefaultMCCRisk"
  "mccRiskValueBytes mcc risk = mccRiskValue mcc DefaultMCCRisk"
  by (simp_all add: mccRiskValueBytes_def mccRiskValueBytesFast_def mccRiskValue_def mccRiskValueBytesKnown_default)

end
