(* ===== verification/Service.thy ===== *)
theory Service
  imports Exact_Search Vectorize_Json
begin

text \<open>
  The scoring service (\<open>service.go\<close>, \<open>ScoreResponse\<close> of \<open>model.go\<close>). The \<open>Searcher\<close> interface has two
  implementations, so it is a datatype. A quantized index is searched with the JSON bytes quantized
  directly. \<open>None\<close> is a panic, \<open>Some None\<close> the return with \<open>ok = false\<close>.
\<close>

datatype Searcher = QuantizedSearcher QuantizedIndex | ExactSearcher "Reference list"

record Service =
  svcNorm :: Normalization
  svcRisk :: "gostring \<rightharpoonup> flt"
  svcSearch :: Searcher
  svcQuantized :: "QuantizedIndex option"

record ScoreResponse =
  Approved :: bool
  FraudScore :: flt

definition NewService :: "Normalization \<Rightarrow> (gostring \<rightharpoonup> flt) \<Rightarrow> Searcher \<Rightarrow> Service" where
  "NewService params mccRisk search =
     \<lparr>svcNorm = params, svcRisk = mccRisk, svcSearch = search,
      svcQuantized = (case search of QuantizedSearcher idx \<Rightarrow> Some idx | ExactSearcher _ \<Rightarrow> None)\<rparr>"

text \<open>The method call of the interface.\<close>

definition searcher_Search5 :: "bool \<Rightarrow> Searcher \<Rightarrow> flt list \<Rightarrow> nat option" where
  "searcher_Search5 useAVX2 search query =
     (case search of
        QuantizedSearcher idx \<Rightarrow> Search5 useAVX2 idx query
      | ExactSearcher refs \<Rightarrow> Some (ExactSearcher_Search5 refs query))"

definition FraudCount :: "bool \<Rightarrow> Service \<Rightarrow> TransactionRequest \<Rightarrow> nat option" where
  "FraudCount useAVX2 s req = searcher_Search5 useAVX2 (svcSearch s) (Vectorize req (svcNorm s) (svcRisk s))"

definition FraudCountJSON :: "bool \<Rightarrow> Service \<Rightarrow> u8 list \<Rightarrow> nat option option" where
  "FraudCountJSON useAVX2 s data =
     (case svcQuantized s of
        Some idx \<Rightarrow>
          ok_then (VectorizeJSONQuantized data (svcNorm s)) (\<lambda>query.
          do { frauds \<leftarrow> Search5Quantized useAVX2 idx query; Some (Some frauds) })
      | None \<Rightarrow>
          ok_then (VectorizeJSON data (svcNorm s) (svcRisk s)) (\<lambda>query.
          do { frauds \<leftarrow> searcher_Search5 useAVX2 (svcSearch s) query; Some (Some frauds) }))"

definition Score :: "bool \<Rightarrow> Service \<Rightarrow> TransactionRequest \<Rightarrow> ScoreResponse option" where
  "Score useAVX2 s req = do {
     frauds \<leftarrow> FraudCount useAVX2 s req;
     let score = fdiv binary64 (ffrom_int binary64 (int frauds)) (Fin 5);
     Some \<lparr>Approved = fless score (rnd binary64 (3 / 5)), FraudScore = score\<rparr> }"

subsection \<open>Approval\<close>

lemma fifth_order:
  assumes "j \<le> 5"
  shows "fless (fdiv binary64 (ffrom_int binary64 (int j)) (Fin 5)) (rnd binary64 (3 / 5)) \<longleftrightarrow> j < 3"
proof -
  have div: "fdiv binary64 (ffrom_int binary64 (int j)) (Fin 5) = rnd binary64 (of_nat j / 5)"
    using rnd64_hour [of "int j"] assms by simp
  have near: "\<exists>y. rnd binary64 (of_nat k / 5) = Fin y \<and> \<bar>y - of_nat k / 5\<bar> \<le> 1 / 2048" if "k \<le> 5" for k
  proof -
    have "(of_nat k :: rat) \<le> of_nat 5" using that by (simp only: of_nat_le_iff)
    then show ?thesis using fine_rnd [OF fine_formats(2), of 0 "of_nat k / 5" 1024] by auto
  qed
  obtain x y where x: "rnd binary64 (of_nat j / 5) = Fin x" "\<bar>x - of_nat j / 5\<bar> \<le> 1 / 2048"
    and y: "rnd binary64 (3 / 5) = Fin y" "\<bar>y - 3 / 5\<bar> \<le> 1 / 2048"
    using near [OF assms] near [of 3] by auto
  consider "j \<le> 2" | "j = 3" | "4 \<le> j" by linarith
  then show ?thesis
  proof cases
    case 1
    then have "(of_nat j :: rat) \<le> of_nat 2" by (simp only: of_nat_le_iff)
    then have "x < y" using x(2) y(2) unfolding abs_le_iff by simp
    with 1 show ?thesis by (simp add: div x y)
  next
    case 2
    with x y show ?thesis unfolding div by simp
  next
    case 3
    then have "(of_nat 4 :: rat) \<le> of_nat j" by (simp only: of_nat_le_iff)
    then have "y < x" using x(2) y(2) unfolding abs_le_iff by simp
    with 3 show ?thesis by (simp add: div x y)
  qed
qed

lemma ExactSearcher_le: "ExactSearcher_Search5 refs q \<le> 5"
  unfolding ExactSearcher_nearest by (rule order_trans [OF length_filter_le]) simp

subsection \<open>Scoring a body\<close>

text \<open>A searcher that answers every query: any exact one, or a well-formed index.\<close>

definition searcher_ok :: "Searcher \<Rightarrow> bool" where
  "searcher_ok search \<longleftrightarrow>
     (case search of
        QuantizedSearcher idx \<Rightarrow> wf_index idx \<and> centroid_blocks_ok idx \<and> params_ok idx
      | ExactSearcher _ \<Rightarrow> True)"

definition body_fails :: "u8 list \<Rightarrow> bool" where
  "body_fails data \<longleftrightarrow> requestFields data = Some None \<or> lastTransactionJSON data = Some None"

lemma Search5Quantized_total:
  assumes "wf_index idx" "centroid_blocks_ok idx" "params_ok idx" "quantized_query q"
  shows "\<exists>k \<le> 5. Search5Quantized useAVX2 idx q = Some k"
proof -
  have "search_ok useAVX2 idx q" "0 < NProbe (IVF idx)" using assms by (simp_all add: search_ok_def params_ok_def)
  from searchIVF_total [OF this] assms(1) show ?thesis by (simp add: Search5Quantized_def wf_index_def)
qed

lemma FraudCount_total:
  assumes "searcher_ok search"
  shows "\<exists>k \<le> 5. FraudCount useAVX2 (NewService params risk search) req = Some k"
proof -
  have "quantized_query (QuantizeVector (Vectorize req params risk))"
    by (intro QuantizeVector_query) (simp add: length_Vectorize Dimensions_def)
  then show ?thesis
    using Search5Quantized_total assms ExactSearcher_le
    by (auto simp: FraudCount_def NewService_def searcher_Search5_def searcher_ok_def Search5_def split: Searcher.splits)
qed

text \<open>What \<open>vectorize_with\<close> returns, in one case distinction.\<close>

lemma vectorize_with_cases:
  assumes "\<not> panics data"
  shows "(body_fails data \<and> vectorize_with f data params = Some None) \<or>
    (\<not> body_fails data \<and> (\<exists>v. vectorize_with f data params = Some (Some v)))"
  using vectorize_with_panics [of f data params] vectorize_with_fails [of f data params] assms
  by (cases "vectorize_with f data params") (auto simp: body_fails_def)

lemma FraudCountJSON_quantized:
  assumes "VectorizeJSONQuantized data params = Some (Some q)" "Search5Quantized useAVX2 idx q = Some k"
  shows "FraudCountJSON useAVX2 (NewService params risk (QuantizedSearcher idx)) data = Some (Some k)"
  using assms by (simp add: FraudCountJSON_def NewService_def ok_then_def)

lemma FraudCountJSON_exact:
  assumes "VectorizeJSON data params risk = Some (Some q)"
  shows "FraudCountJSON useAVX2 (NewService params risk (ExactSearcher refs)) data =
    Some (Some (ExactSearcher_Search5 refs q))"
  using assms by (simp add: FraudCountJSON_def NewService_def ok_then_def searcher_Search5_def)

lemma FraudCountJSON_total:
  assumes "searcher_ok search" "\<not> panics data"
  shows "(body_fails data \<and> FraudCountJSON useAVX2 (NewService params risk search) data = Some None) \<or>
    (\<not> body_fails data \<and> (\<exists>k \<le> 5. FraudCountJSON useAVX2 (NewService params risk search) data = Some (Some k)))"
proof (cases search)
  case (QuantizedSearcher idx)
  show ?thesis
  proof (cases "body_fails data")
    case True
    then have "VectorizeJSONQuantized data params = Some None"
      using vectorize_with_cases [OF assms(2)] by (auto simp: Vectorize_Json_factor)
    with True show ?thesis by (simp add: QuantizedSearcher FraudCountJSON_def NewService_def ok_then_def)
  next
    case False
    then obtain q where q: "VectorizeJSONQuantized data params = Some (Some q)"
      using vectorize_with_cases [OF assms(2)] by (auto simp: Vectorize_Json_factor)
    then have "\<exists>k \<le> 5. Search5Quantized useAVX2 idx q = Some k"
      using Search5Quantized_total VectorizeJSONQuantized_query assms(1)
      by (simp add: searcher_ok_def QuantizedSearcher)
    then show ?thesis using False q FraudCountJSON_quantized by (auto simp: QuantizedSearcher)
  qed
next
  case (ExactSearcher refs)
  show ?thesis
  proof (cases "body_fails data")
    case True
    then have "VectorizeJSON data params risk = Some None"
      using vectorize_with_cases [OF assms(2)] by (auto simp: Vectorize_Json_factor)
    with True show ?thesis by (simp add: ExactSearcher FraudCountJSON_def NewService_def ok_then_def)
  next
    case False
    then obtain q where "VectorizeJSON data params risk = Some (Some q)"
      using vectorize_with_cases [OF assms(2)] by (auto simp: Vectorize_Json_factor)
    then show ?thesis using False FraudCountJSON_exact ExactSearcher_le by (auto simp: ExactSearcher)
  qed
qed

lemma FraudCountJSON_panics:
  assumes "searcher_ok search"
  shows "FraudCountJSON useAVX2 (NewService params risk search) data = None \<longleftrightarrow> panics data"
proof
  show "FraudCountJSON useAVX2 (NewService params risk search) data = None \<Longrightarrow> panics data"
    using FraudCountJSON_total [OF assms, of data useAVX2 params risk] by auto
  assume "panics data"
  then have "VectorizeJSON data params risk = None" "VectorizeJSONQuantized data params = None"
    by (simp_all add: Vectorize_Json_factor vectorize_with_panics)
  then show "FraudCountJSON useAVX2 (NewService params risk search) data = None"
    by (cases search) (simp_all add: FraudCountJSON_def NewService_def ok_then_def)
qed

end
