(* ===== verification/Http_Handlers.thy ===== *)
theory Http_Handlers
  imports Service
begin

text \<open>
  The HTTP handlers (\<open>router/handlers.go\<close>). A handler writes to a \<open>ResponseWriter\<close>, so its effect is
  the list of calls it makes on it. A request body is the bytes it delivers and whether it ends
  in an error; \<open>io.ReadFull\<close>, \<open>io.ReadAll\<close> and \<open>io.LimitReader\<close> are modelled on it. \<open>sync.Pool\<close> may
  return any buffer that was put or made, or none, so what \<open>Get\<close> returns is an argument (no
  buffer is the empty one), and what is put back is a result. Sockets, timeouts and routing are the
  library's. \<open>None\<close> is a panic.
\<close>

subsection \<open>Responses\<close>

datatype http_event =
  SetHeader gostring gostring | WriteHeader int | Write "u8 list"

definition scoreResponses :: "u8 list list" where
  "scoreResponses = map bytes_of
     [''{\"approved\":true,\"fraud_score\":0}'', ''{\"approved\":true,\"fraud_score\":0.2}'',
      ''{\"approved\":true,\"fraud_score\":0.4}'', ''{\"approved\":false,\"fraud_score\":0.6}'',
      ''{\"approved\":false,\"fraud_score\":0.8}'', ''{\"approved\":false,\"fraud_score\":1}'']"

definition scoreContentLengths :: "gostring list" where
  "scoreContentLengths = map bytes_of [''33'', ''35'', ''35'', ''36'', ''36'', ''34'']"

definition okContentType :: gostring where "okContentType = bytes_of ''text/plain; charset=utf-8''"
definition okContentLength :: gostring where "okContentLength = bytes_of ''2''"
definition scoreContentType :: gostring where "scoreContentType = bytes_of ''application/json''"

definition contentType :: gostring where "contentType = bytes_of ''Content-Type''"
definition contentLength :: gostring where "contentLength = bytes_of ''Content-Length''"

definition writeScoreRaw :: "int \<Rightarrow> int \<Rightarrow> http_event list option" where
  "writeScoreRaw status frauds = do {
     let frauds = (if frauds < 0 then 0 else if frauds > 5 then 5 else frauds);
     len \<leftarrow> get scoreContentLengths (nat frauds);
     body \<leftarrow> get scoreResponses (nat frauds);
     Some [SetHeader contentType scoreContentType, SetHeader contentLength len, WriteHeader status, Write body] }"

definition ReadyRaw :: "http_event list" where
  "ReadyRaw = [SetHeader contentType okContentType, SetHeader contentLength okContentLength, WriteHeader 200,
     Write (bytes_of ''ok'')]"

subsection \<open>Reading a body\<close>

record body =
  bodyBytes :: "u8 list"
  bodyFails :: bool

record request =
  ContentLength :: int
  Body :: "body option"

text \<open>\<open>io.ReadFull\<close> fills the buffer or fails; a failed read has filled a prefix.\<close>

definition ReadFull :: "body \<Rightarrow> u8 list \<Rightarrow> u8 list \<times> bool" where
  "ReadFull b buf =
     (take (length buf) (bodyBytes b) @ drop (length (bodyBytes b)) buf, length buf \<le> length (bodyBytes b))"

definition ReadAll :: "body \<Rightarrow> u8 list option" where
  "ReadAll b = (if bodyFails b then None else Some (bodyBytes b))"

text \<open>A \<open>LimitReader\<close> reports the end of its input once the limit is used up, so an error after it is
  not seen (an error comes in a read of its own).\<close>

definition LimitReader :: "body \<Rightarrow> int \<Rightarrow> body" where
  "LimitReader b n =
     (if n \<le> int (length (bodyBytes b)) then \<lparr>bodyBytes = take (nat n) (bodyBytes b), bodyFails = False\<rparr> else b)"

datatype pool = NoPool | PoolGet "u8 list"

text \<open>The buffer to read into, and the pooled buffer it is the front of.\<close>

definition acquireBodyBuffer :: "pool \<Rightarrow> int \<Rightarrow> u8 list \<times> u8 list option" where
  "acquireBodyBuffer pool needed =
     (if needed \<le> 0 then ([], None)
      else case pool of
        NoPool \<Rightarrow> (replicate (nat needed) 0, None)
      | PoolGet pooled \<Rightarrow>
          if int (length pooled) < needed then (replicate (nat needed) 0, None)
          else (take (nat needed) pooled, Some pooled))"

text \<open>Writing into the front of a pooled buffer writes into the buffer.\<close>

definition overwrite :: "u8 list \<Rightarrow> u8 list option \<Rightarrow> u8 list option" where
  "overwrite buf pooled = map_option (\<lambda>p. buf @ drop (length buf) p) pooled"

definition releaseBodyBuffer :: "pool \<Rightarrow> u8 list option \<Rightarrow> u8 list list" where
  "releaseBodyBuffer pool pooled =
     (case pool of NoPool \<Rightarrow> [] | PoolGet _ \<Rightarrow> (case pooled of None \<Rightarrow> [] | Some p \<Rightarrow> [p]))"

text \<open>A body and the pooled buffer behind it, or a response and the buffers put back.\<close>

datatype read_result =
  GotBody "u8 list" "u8 list option"
| Replied "http_event list" "u8 list list"

definition reply :: "int \<Rightarrow> u8 list list \<Rightarrow> read_result option" where
  "reply status released = map_option (\<lambda>es. Replied es released) (writeScoreRaw status 0)"

definition readRequestBodyWithPool :: "request \<Rightarrow> int \<Rightarrow> pool \<Rightarrow> read_result option" where
  "readRequestBodyWithPool req maxBytes pool =
     (let cl = ContentLength req in
      if maxBytes \<ge> 0 \<and> cl > maxBytes then reply 413 []
      else case Body req of
        None \<Rightarrow> Some (GotBody [] None)
      | Some b \<Rightarrow>
          if cl \<ge> 0 then
            (if cl = 0 then Some (GotBody [] None)
             else
               let (buf, pooled) = acquireBodyBuffer pool cl;
                   (buf, full) = ReadFull b buf;
                   pooled = overwrite buf pooled
               in if \<not> full then reply 400 (releaseBodyBuffer pool pooled)
                  else Some (GotBody buf pooled))
          else if maxBytes < 0 then
            (case ReadAll b of None \<Rightarrow> reply 500 [] | Some data \<Rightarrow> Some (GotBody data None))
          else
            let limit = add64 maxBytes 1 in
            case ReadAll (LimitReader b limit) of
              None \<Rightarrow> reply 500 []
            | Some data \<Rightarrow>
                if int (length data) > maxBytes then reply 413 [] else Some (GotBody data None))"

subsection \<open>The handlers\<close>

text \<open>\<open>bodyPoolNew\<close> is the buffer that the pool's \<open>New\<close> makes, if it has one.\<close>

record Handlers =
  scoreService :: Service
  bodyLimit :: int
  bodyPoolNew :: "u8 list option"

definition NewHandlers :: "Service \<Rightarrow> int \<Rightarrow> Handlers" where
  "NewHandlers service limit =
     \<lparr>scoreService = service, bodyLimit = limit,
      bodyPoolNew = (if limit > 0 \<and> limit \<le> 1048576 then Some (replicate (nat limit) 0) else None)\<rparr>"

text \<open>\<open>FraudScoreRaw\<close> with the calls it makes and the buffers it puts back; the deferred release
  runs on a panic as well, and the panic then ends the request.\<close>

definition FraudScoreRaw :: "bool \<Rightarrow> Handlers \<Rightarrow> request \<Rightarrow> pool \<Rightarrow> (http_event list option \<times> u8 list list) option" where
  "FraudScoreRaw useAVX2 h req pool = do {
     r \<leftarrow> readRequestBodyWithPool req (bodyLimit h) pool;
     case r of
       Replied es released \<Rightarrow> Some (Some es, released)
     | GotBody data pooled \<Rightarrow>
         let released = releaseBodyBuffer pool pooled in
         (case FraudCountJSON useAVX2 (scoreService h) data of
            None \<Rightarrow> Some (None, released)
          | Some None \<Rightarrow> Some (writeScoreRaw 400 0, released)
          | Some (Some frauds) \<Rightarrow> Some (writeScoreRaw 200 (int frauds), released)) }"


subsection \<open>One response\<close>

text \<open>The calls of one complete response: both headers, the status, and a body whose length is the
  announced one.\<close>

definition response_calls :: "gostring \<Rightarrow> int \<Rightarrow> u8 list \<Rightarrow> http_event list" where
  "response_calls kind status content =
     [SetHeader contentType kind, SetHeader contentLength (decimal (length content)), WriteHeader status, Write content]"

lemma decimal_lengths:
  "decimal 2 = bytes_of ''2''" "decimal 33 = bytes_of ''33''" "decimal 34 = bytes_of ''34''" "decimal 35 = bytes_of ''35''"
  "decimal 36 = bytes_of ''36''"
  by (simp_all add: decimal.simps bytes_of_def)

lemma length_scoreResponses: "map length scoreResponses = [33, 35, 35, 36, 36, 34]"
  by (simp add: scoreResponses_def bytes_of_def)

lemma length_scoreResponses' [simp]: "length scoreResponses = 6"
  by (simp add: scoreResponses_def)

lemma score_count: "k \<le> 5 \<Longrightarrow> k = 0 \<or> k = 1 \<or> k = 2 \<or> k = 3 \<or> k = 4 \<or> k = (5 :: nat)"
  by linarith

lemma content_lengths:
  assumes "k \<le> 5"
  shows "scoreContentLengths ! k = decimal (length (scoreResponses ! k))"
proof -
  have "length (scoreResponses ! k) = [33, 35, 35, 36, 36, 34] ! k"
    using assms length_scoreResponses nth_map [of k scoreResponses length] by simp
  then show ?thesis
    using score_count [OF assms] by (auto simp: scoreContentLengths_def decimal_lengths)
qed

definition clamp_count :: "int \<Rightarrow> nat" where
  "clamp_count frauds = nat (max 0 (min 5 frauds))"

lemma writeScoreRaw_calls:
  "writeScoreRaw status frauds =
     Some (response_calls scoreContentType status (scoreResponses ! clamp_count frauds))"
proof -
  define k where "k = clamp_count frauds"
  have k: "k \<le> 5" by (simp add: k_def clamp_count_def)
  have "nat (if frauds < 0 then 0 else if frauds > 5 then 5 else frauds) = k"
    by (simp add: k_def clamp_count_def)
  moreover have "get scoreContentLengths k = Some (decimal (length (scoreResponses ! k)))"
    using k content_lengths by (simp add: get_def) (simp add: scoreContentLengths_def)
  moreover have "get scoreResponses k = Some (scoreResponses ! k)"
    using k by (simp add: get_def)
  ultimately show ?thesis by (simp add: writeScoreRaw_def response_calls_def k_def Let_def)
qed

lemma ReadyRaw_calls: "ReadyRaw = response_calls okContentType 200 (bytes_of ''ok'')"
proof -
  have "length (bytes_of ''ok'') = 2" by (simp add: bytes_of_def)
  then show ?thesis by (simp only: ReadyRaw_def response_calls_def okContentLength_def decimal_lengths)
qed

lemma response_verdict:
  assumes "k \<le> 5"
  shows "has_prefix (scoreResponses ! k) (bytes_of (''{\"approved\":'' @ (if k < 3 then ''true'' else ''false'') @ '',''))"
  using score_count [OF assms] by (auto simp: scoreResponses_def bytes_of_def has_prefix_def)

subsection \<open>The body that is read\<close>

text \<open>What a request delivers under a limit: a status to reply with, or the bytes to score.\<close>

definition delivered :: "request \<Rightarrow> int \<Rightarrow> int + u8 list" where
  "delivered req limit =
     (if limit \<ge> 0 \<and> ContentLength req > limit then Inl 413
      else case Body req of
        None \<Rightarrow> Inr []
      | Some b \<Rightarrow>
          if ContentLength req \<ge> 0 then
            (if int (length (bodyBytes b)) < ContentLength req then Inl 400
             else Inr (take (nat (ContentLength req)) (bodyBytes b)))
          else if limit \<ge> 0 \<and> int (length (bodyBytes b)) > limit then Inl 413
          else if bodyFails b then Inl 500
          else Inr (bodyBytes b))"

lemma acquire_ok:
  "acquireBodyBuffer pool cl = (buf, pooled) \<Longrightarrow> 0 < cl \<Longrightarrow>
     length buf = nat cl \<and> (\<forall>p. pooled = Some p \<longrightarrow> pool = PoolGet p \<and> nat cl \<le> length p)"
  by (auto simp: acquireBodyBuffer_def split: pool.splits if_splits)

lemma limited_read:
  assumes "0 \<le> limit" "limit < 9223372036854775807"
  shows "(case ReadAll (LimitReader b (add64 limit 1)) of
      None \<Rightarrow> bodyFails b \<and> int (length (bodyBytes b)) \<le> limit
    | Some data \<Rightarrow> (if int (length data) > limit then int (length (bodyBytes b)) > limit
                    else data = bodyBytes b \<and> \<not> bodyFails b \<and> int (length (bodyBytes b)) \<le> limit))"
proof -
  have "add64 limit 1 = limit + 1" using assms by simp
  then show ?thesis using assms(1) by (auto simp: ReadAll_def LimitReader_def min_def nat_less_iff)
qed

lemma readRequestBodyWithPool_delivered:
  assumes "limit < 9223372036854775807"
  shows "case delivered req limit of
      Inl status \<Rightarrow> \<exists>released. readRequestBodyWithPool req limit pool =
        Some (Replied (response_calls scoreContentType status (scoreResponses ! 0)) released)
    | Inr data \<Rightarrow> \<exists>pooled. readRequestBodyWithPool req limit pool = Some (GotBody data pooled)"
proof -
  have reply: "reply status released = Some (Replied (response_calls scoreContentType status (scoreResponses ! 0)) released)" for status released
    by (simp add: reply_def writeScoreRaw_calls clamp_count_def)
  show ?thesis
  proof (cases "(limit \<ge> 0 \<and> ContentLength req > limit) \<or> Body req = None")
    case True
    then show ?thesis by (auto simp: delivered_def readRequestBodyWithPool_def reply Let_def)
  next
    case False
    then obtain b where b: "Body req = Some b" and fits: "\<not> (limit \<ge> 0 \<and> ContentLength req > limit)" by auto
    consider "ContentLength req = 0" | "0 < ContentLength req" | "ContentLength req < 0" by linarith
    then show ?thesis
    proof cases
      case 1
      then show ?thesis using b fits by (auto simp: delivered_def readRequestBodyWithPool_def)
    next
      case 2
      obtain buf pooled where a: "acquireBodyBuffer pool (ContentLength req) = (buf, pooled)" by fastforce
      have len: "length buf = nat (ContentLength req)" using acquire_ok [OF a 2] by simp
      show ?thesis
        using 2 b fits len
        by (auto simp: delivered_def readRequestBodyWithPool_def reply a ReadFull_def Let_def)
    next
      case 3
      show ?thesis
      proof (cases "0 \<le> limit")
        case True
        show ?thesis
          using limited_read [OF True assms, of b] 3 b fits True
          by (auto simp: delivered_def readRequestBodyWithPool_def reply Let_def split: option.splits if_splits)
      next
        case False
        then show ?thesis
          using 3 b by (auto simp: delivered_def readRequestBodyWithPool_def reply ReadAll_def Let_def)
      qed
    qed
  qed
qed

lemma delivered_bound:
  assumes "delivered req limit = Inr data" "0 \<le> limit"
  shows "int (length data) \<le> limit"
  using assms by (auto simp: delivered_def split: if_splits option.splits)

subsection \<open>Requests\<close>

text \<open>The status and the count that a request is answered with.\<close>

definition answer :: "bool \<Rightarrow> Handlers \<Rightarrow> request \<Rightarrow> (int \<times> nat) option" where
  "answer useAVX2 h req =
     (case delivered req (bodyLimit h) of
        Inl status \<Rightarrow> Some (status, 0)
      | Inr data \<Rightarrow>
          (case FraudCountJSON useAVX2 (scoreService h) data of
             None \<Rightarrow> None
           | Some None \<Rightarrow> Some (400, 0)
           | Some (Some k) \<Rightarrow> Some (200, min 5 k)))"

lemma FraudScoreRaw_answer:
  assumes "bodyLimit h < 9223372036854775807"
  shows "\<exists>released. FraudScoreRaw useAVX2 h req pool = Some
    (map_option (\<lambda>(status, k). response_calls scoreContentType status (scoreResponses ! k)) (answer useAVX2 h req), released)"
proof -
  have c: "clamp_count 0 = 0" "clamp_count (int k) = min 5 k" for k by (auto simp: clamp_count_def min_def)
  show ?thesis
    using readRequestBodyWithPool_delivered [OF assms, of req pool]
    by (auto simp: FraudScoreRaw_def answer_def writeScoreRaw_calls c Let_def split: sum.splits option.splits)
qed

text \<open>Every request whose bytes do not make the vectorizer panic gets one response.\<close>

lemma FraudScoreRaw_total:
  fixes search params risk limit
  defines "service \<equiv> NewService params risk search"
  assumes "searcher_ok search" "limit < 9223372036854775807" "\<And>data. delivered req limit = Inr data \<Longrightarrow> \<not> panics data"
  shows "\<exists>status k released. FraudScoreRaw useAVX2 (NewHandlers service limit) req pool =
      Some (Some (response_calls scoreContentType status (scoreResponses ! k)), released) \<and>
    (case delivered req limit of
       Inl reason \<Rightarrow> status = reason \<and> k = 0
     | Inr data \<Rightarrow> if body_fails data then status = 400 \<and> k = 0
                   else status = 200 \<and> k \<le> 5 \<and> FraudCountJSON useAVX2 service data = Some (Some k))"
proof -
  let ?h = "NewHandlers service limit"
  have h: "bodyLimit ?h = limit" "scoreService ?h = service" by (simp_all add: NewHandlers_def)
  obtain released where r: "FraudScoreRaw useAVX2 ?h req pool = Some (map_option
      (\<lambda>(status, k). response_calls scoreContentType status (scoreResponses ! k)) (answer useAVX2 ?h req), released)"
    using FraudScoreRaw_answer [of ?h useAVX2 req pool] assms(3) h by auto
  show ?thesis
  proof (cases "delivered req limit")
    case (Inl reason)
    then show ?thesis using r by (simp add: answer_def h)
  next
    case (Inr data)
    from FraudCountJSON_total [OF assms(2) assms(4) [OF Inr], of useAVX2 params risk, folded service_def]
    show ?thesis using r Inr by (auto simp: answer_def h min_absorb2)
  qed
qed

text \<open>And on the other bytes the handler panics before it has written anything.\<close>

lemma FraudScoreRaw_panics:
  assumes "searcher_ok search" "limit < 9223372036854775807" "delivered req limit = Inr data"
  shows "(\<exists>released. FraudScoreRaw useAVX2 (NewHandlers (NewService params risk search) limit) req pool =
    Some (None, released)) \<longleftrightarrow> panics data"
proof -
  let ?h = "NewHandlers (NewService params risk search) limit"
  have h: "bodyLimit ?h = limit" "scoreService ?h = NewService params risk search" by (simp_all add: NewHandlers_def)
  obtain released where r: "FraudScoreRaw useAVX2 ?h req pool = Some (map_option
      (\<lambda>(status, k). response_calls scoreContentType status (scoreResponses ! k)) (answer useAVX2 ?h req), released)"
    using FraudScoreRaw_answer [of ?h useAVX2 req pool] assms(2) h by auto
  have "answer useAVX2 ?h req = None \<longleftrightarrow> panics data"
    using FraudCountJSON_panics [OF assms(1), of useAVX2 params risk data] assms(3)
    by (auto simp: answer_def h split: option.split)
  then show ?thesis using r by auto
qed

text \<open>The largest limit overflows: a body of unknown length is then read as empty.\<close>

lemma largest_limit_reads_nothing:
  assumes "ContentLength req < 0" "Body req = Some b"
  shows "readRequestBodyWithPool req 9223372036854775807 pool = Some (GotBody [] None)"
proof -
  have "add64 9223372036854775807 1 = - 9223372036854775808" by code_simp
  then show ?thesis using assms by (simp add: readRequestBodyWithPool_def LimitReader_def ReadAll_def Let_def)
qed

text \<open>A pooled buffer is put back exactly when one was taken, and at its full length.\<close>

definition takes_buffer :: "request \<Rightarrow> int \<Rightarrow> u8 list \<Rightarrow> bool" where
  "takes_buffer req limit pooled \<longleftrightarrow> \<not> (limit \<ge> 0 \<and> ContentLength req > limit) \<and> Body req \<noteq> None \<and>
     0 < ContentLength req \<and> ContentLength req \<le> int (length pooled)"

definition put_back :: "pool \<Rightarrow> read_result \<Rightarrow> u8 list list" where
  "put_back pool r = (case r of GotBody data pooled \<Rightarrow> releaseBodyBuffer pool pooled | Replied es released \<Rightarrow> released)"

lemma length_overwrite:
  "length (fst (ReadFull b (take n p)) @ drop (length (fst (ReadFull b (take n p)))) p) = length p"
  by (simp add: ReadFull_def)

lemma readRequestBodyWithPool_pool:
  assumes "readRequestBodyWithPool req limit (PoolGet p) = Some r"
  shows "if takes_buffer req limit p then \<exists>q. put_back (PoolGet p) r = [q] \<and> length q = length p
    else put_back (PoolGet p) r = []"
  using assms length_overwrite
  by (auto simp: readRequestBodyWithPool_def reply_def writeScoreRaw_calls takes_buffer_def put_back_def acquireBodyBuffer_def
      overwrite_def releaseBodyBuffer_def ReadFull_def Let_def split: option.splits if_splits)

lemma FraudScoreRaw_pool:
  assumes "FraudScoreRaw useAVX2 h req (PoolGet p) = Some (es, released)"
  shows "if takes_buffer req (bodyLimit h) p then \<exists>q. released = [q] \<and> length q = length p else released = []"
proof -
  obtain r where r: "readRequestBodyWithPool req (bodyLimit h) (PoolGet p) = Some r"
    using assms by (auto simp: FraudScoreRaw_def bind_eq_Some_conv)
  with assms have "released = put_back (PoolGet p) r"
    by (auto simp: FraudScoreRaw_def put_back_def Let_def split: read_result.splits option.splits)
  with readRequestBodyWithPool_pool [OF r] show ?thesis by simp
qed

lemma new_buffer_fits:
  assumes "0 < limit" "limit \<le> 1048576" "0 < ContentLength req" "ContentLength req \<le> limit" "Body req \<noteq> None"
  shows "\<exists>p. bodyPoolNew (NewHandlers service limit) = Some p \<and> takes_buffer req limit p"
  using assms by (simp add: NewHandlers_def takes_buffer_def)

end
