(* ===== verification/Server.thy ===== *)
theory Server
  imports Http_Handlers Index_Roundtrip
begin

text \<open>
  Configuration and start-up (\<open>config.go\<close>, \<open>NewServer\<close> and \<open>loadSearcher\<close> in \<open>server.go\<close>,
  \<open>LoadReferences\<close> in \<open>load.go\<close>). The environment is a function that is empty where a variable is not
  set, the file system one that is \<open>None\<close> where a file does not open. Decompression and
  JSON decoding are arguments. The theorems follow an index from the preprocessor's file to a configured
  server.
\<close>

subsection \<open>The environment\<close>

type_synonym environment = "string \<Rightarrow> string"
type_synonym files = "string \<Rightarrow> u8 list option"

definition embeddedIndexPath :: string where
  "embeddedIndexPath = ''/data/index.heindall.ivf8192.bin''"

record Config =
  Port :: int
  ReadHeaderTimeout :: int
  ReadTimeout :: int
  WriteTimeout :: int
  IdleTimeout :: int
  BodyLimitBytes :: int
  SocketPath :: string
  IndexPath :: string
  ReferencesPath :: string
  ANNNProbe :: int
  ANNAmbiguousProbe :: int
  ANNRepair :: bool
  PprofEnabled :: bool

definition getenv :: "environment \<Rightarrow> string \<Rightarrow> string \<Rightarrow> string" where
  "getenv env key fallback = (if env key \<noteq> '''' then env key else fallback)"

text \<open>\<open>strconv.Atoi\<close>: an optional sign, decimal digits, and the range of \<open>int\<close>.\<close>

definition digit_char :: "char \<Rightarrow> bool" where
  "digit_char c \<longleftrightarrow> 48 \<le> (of_char c :: nat) \<and> (of_char c :: nat) \<le> 57"

definition Atoi :: "string \<Rightarrow> int option" where
  "Atoi s =
     (let neg = (s \<noteq> '''' \<and> hd s = CHR ''-'');
          digits = (if s \<noteq> '''' \<and> (hd s = CHR ''-'' \<or> hd s = CHR ''+'') then tl s else s);
          magnitude = foldl (\<lambda>n c. n * 10 + (of_char c - 48)) 0 digits;
          value = (if neg then - magnitude else magnitude)
      in if digits = '''' \<or> \<not> list_all digit_char digits \<or> value < - 9223372036854775808 \<or> value > 9223372036854775807
         then None else Some value)"

definition getenvInt :: "environment \<Rightarrow> string \<Rightarrow> int \<Rightarrow> int" where
  "getenvInt env key fallback =
     (if env key = '''' then fallback
      else case Atoi (env key) of None \<Rightarrow> fallback | Some parsed \<Rightarrow> parsed)"

text \<open>\<open>strings.ToLower\<close> on the letters of ASCII; no other letter has a lower case in the words below.\<close>

definition to_lower :: "char \<Rightarrow> char" where
  "to_lower c = (if 65 \<le> (of_char c :: nat) \<and> (of_char c :: nat) \<le> 90 then char_of (of_char c + 32 :: nat) else c)"

definition getenvBool :: "environment \<Rightarrow> string \<Rightarrow> bool \<Rightarrow> bool" where
  "getenvBool env key fallback =
     (if env key = '''' then fallback
      else
        let value = map to_lower (env key) in
        if value \<in> set [''1'', ''true'', ''yes'', ''y'', ''on''] then True
        else if value \<in> set [''0'', ''false'', ''no'', ''n'', ''off''] then False
        else fallback)"

text \<open>Durations in nanoseconds.\<close>

definition LoadConfig :: "environment \<Rightarrow> Config" where
  "LoadConfig env =
     \<lparr>Port = getenvInt env ''PORT'' 8080,
      ReadHeaderTimeout = 2000000000, ReadTimeout = 2000000000, WriteTimeout = 2000000000, IdleTimeout = 30000000000,
      BodyLimitBytes = getenvInt env ''BODY_LIMIT_BYTES'' 16384,
      SocketPath = getenv env ''SOCKET_PATH'' '''',
      IndexPath = getenv env ''INDEX_PATH'' embeddedIndexPath,
      ReferencesPath = getenv env ''REFERENCES_PATH'' ''resources/references.json.gz'',
      ANNNProbe = getenvInt env ''ANN_NPROBE'' 8,
      ANNAmbiguousProbe = getenvInt env ''ANN_AMBIGUOUS_NPROBE'' 24,
      ANNRepair = getenvBool env ''ANN_REPAIR'' True,
      PprofEnabled = getenvBool env ''PPROF_ENABLED'' False\<rparr>"

subsection \<open>Start-up\<close>

datatype server_error = OpenFailed | IndexFailed load_error | GzipFailed | DecodeFailed | EmptyReferences

definition LoadBinaryIndex :: "files \<Rightarrow> string \<Rightarrow> (server_error + QuantizedIndex) option" where
  "LoadBinaryIndex files path =
     (case files path of
        None \<Rightarrow> Some (Inl OpenFailed)
      | Some f \<Rightarrow> map_option (map_sum IndexFailed (\<lambda>idx. idx)) (loadBinaryIndex f))"

definition LoadReferences ::
    "(u8 list \<Rightarrow> u8 list option) \<Rightarrow> (u8 list \<Rightarrow> Reference list option) \<Rightarrow> files \<Rightarrow> string \<Rightarrow>
     server_error + Reference list" where
  "LoadReferences gunzip decode files path =
     (case files path of
        None \<Rightarrow> Inl OpenFailed
      | Some f \<Rightarrow>
          (case (if length path \<ge> 3 \<and> drop (length path - 3) path = ''.gz'' then gunzip f else Some f) of
             None \<Rightarrow> Inl GzipFailed
           | Some r \<Rightarrow>
               (case decode r of
                  None \<Rightarrow> Inl DecodeFailed
                | Some refs \<Rightarrow> if refs = [] then Inl EmptyReferences else Inr refs)))"

definition loadSearcher ::
    "(u8 list \<Rightarrow> u8 list option) \<Rightarrow> (u8 list \<Rightarrow> Reference list option) \<Rightarrow> files \<Rightarrow> Config \<Rightarrow>
     (server_error + Searcher) option" where
  "loadSearcher gunzip decode files cfg =
     (if IndexPath cfg \<noteq> '''' then do {
        r \<leftarrow> LoadBinaryIndex files (IndexPath cfg);
        Some (map_sum (\<lambda>e. e) (\<lambda>idx. QuantizedSearcher
          (SetIVFSearch (ANNNProbe cfg) (ANNAmbiguousProbe cfg) (ANNRepair cfg) idx)) r) }
      else Some (map_sum (\<lambda>e. e) ExactSearcher (LoadReferences gunzip decode files (ReferencesPath cfg))))"

text \<open>The handlers that \<open>NewServer\<close> registers; the HTTP library around them is left out.\<close>

definition NewServer ::
    "(u8 list \<Rightarrow> u8 list option) \<Rightarrow> (u8 list \<Rightarrow> Reference list option) \<Rightarrow> files \<Rightarrow> Config \<Rightarrow>
     (server_error + Handlers) option" where
  "NewServer gunzip decode files cfg = do {
     r \<leftarrow> loadSearcher gunzip decode files cfg;
     Some (map_sum (\<lambda>e. e) (\<lambda>searcher.
       NewHandlers (NewService DefaultNormalization DefaultMCCRisk searcher) (BodyLimitBytes cfg)) r) }"

subsection \<open>The search parameters leave an index searchable\<close>

definition set_params :: "QuantizedIndex \<Rightarrow> int \<Rightarrow> int \<Rightarrow> bool \<Rightarrow> QuantizedIndex" where
  "set_params idx a b r = idx\<lparr>IVF := (IVF idx)\<lparr>NProbe := a, AmbiguousNProbe := b, Repair := r\<rparr>\<rparr>"

lemma set_params_simps [simp]:
  "Clusters (IVF (set_params idx a b r)) = Clusters (IVF idx)" "Repair (IVF (set_params idx a b r)) = r"
  "NProbe (IVF (set_params idx a b r)) = a" "AmbiguousNProbe (IVF (set_params idx a b r)) = b"
  "hasIVF (set_params idx a b r) = hasIVF idx" "hasIVFBlocks (set_params idx a b r) = hasIVFBlocks idx"
  by (simp_all add: set_params_def hasIVF_def hasIVFBlocks_def)

lemma set_params_twice [simp]: "set_params (set_params idx a b r) a' b' r' = set_params idx a' b' r'"
  by (simp add: set_params_def)

lemma normalize_set_params:
  "normalizeIVFDefaults idx = set_params idx (NProbe (IVF (normalizeIVFDefaults idx)))
     (AmbiguousNProbe (IVF (normalizeIVFDefaults idx))) (Repair (IVF idx))"
  by (auto simp: normalizeIVFDefaults_def set_params_def Let_def intro!: QuantizedIndex.equality IVFMetadata.equality)

lemma SetIVFSearch_params:
  assumes "hasIVF idx"
  obtains a b where "SetIVFSearch n m repair idx = set_params idx a b repair" "params_ok (set_params idx a b repair)"
    "0 < n \<longrightarrow> a = min n (Clusters (IVF idx))"
proof -
  define a0 where "a0 = (if n > 0 then n else NProbe (IVF idx))"
  define b0 where "b0 = (if m > 0 then m else AmbiguousNProbe (IVF idx))"
  let ?i = "set_params idx a0 b0 repair"
  have s: "SetIVFSearch n m repair idx = normalizeIVFDefaults ?i"
    using assms by (simp add: SetIVFSearch_def Let_def a0_def b0_def set_params_def)
  obtain a b where n: "normalizeIVFDefaults ?i = set_params idx a b repair"
    "a = NProbe (IVF (normalizeIVFDefaults ?i))"
    using normalize_set_params [of ?i] by auto
  have "params_ok (normalizeIVFDefaults ?i)" using assms by (intro normalize_params_ok) simp
  moreover have "a = min n (Clusters (IVF idx))" if "0 < n"
    using normalize_NProbe [of ?i] assms that n(2) by (simp add: a0_def)
  ultimately show thesis using that s n(1) by simp
qed

lemma set_params_cands:
  assumes "hasIVFBlocks idx"
  shows "all_cands (set_params idx a b r) q = all_cands idx q" "rowvec (set_params idx a b r) c row = rowvec idx c row"
proof -
  show w: "rowvec (set_params idx a b r) c row = rowvec idx c row" for c row
    using assms by (simp add: rowvec_def block_vec_def) (simp add: set_params_def)
  have f: "ListOffsets (IVF (set_params idx a b r)) = ListOffsets (IVF idx)" "OrigIDs (IVF (set_params idx a b r)) = OrigIDs (IVF idx)"
    "Labels (set_params idx a b r) = Labels idx" by (simp_all add: set_params_def)
  have "cluster_cands (set_params idx a b r) q = cluster_cands idx q"
    by (rule ext) (simp add: cluster_cands_def cand_at_def row_cand_def w f)
  then show "all_cands (set_params idx a b r) q = all_cands idx q"
    by (simp add: all_cands_def scan_cands_def)
qed

lemma searchable_set_params:
  assumes "searchable refs idx" "params_ok (set_params idx a b r)"
  shows "searchable refs (set_params idx a b r)"
proof -
  have blocks: "hasIVFBlocks idx" using assms(1) by (simp add: searchable_def)
  note cands = set_params_cands [OF blocks]
  have f: "IVF (set_params idx a b r) = (IVF idx)\<lparr>NProbe := a, AmbiguousNProbe := b, Repair := r\<rparr>"
    "Labels (set_params idx a b r) = Labels idx" "Vectors (set_params idx a b r) = Vectors idx"
    "Blocks (set_params idx a b r) = Blocks idx" by (simp_all add: set_params_def)
  show ?thesis
    using assms blocks
    by (simp add: searchable_def wf_index_def centroid_blocks_ok_def boxes_ok_def has_boxes_def distinct_ids_def cands)
       (simp add: f)
qed

subsection \<open>From the preprocessor's file to a response\<close>

text \<open>An empty \<open>INDEX_PATH\<close> means the embedded index, so a configured server never loads references.\<close>

lemma IndexPath_not_empty: "IndexPath (LoadConfig env) \<noteq> ''''"
  by (simp add: LoadConfig_def getenv_def embeddedIndexPath_def)

text \<open>What a server maps for a built index: the rows are in the blocks only, and the parameters are the
  configuration's.\<close>

definition configured_index :: "Config \<Rightarrow> u8 list \<Rightarrow> QuantizedIndex \<Rightarrow> QuantizedIndex" where
  "configured_index cfg bytes built =
     SetIVFSearch (ANNNProbe cfg) (ANNAmbiguousProbe cfg) (ANNRepair cfg) (built\<lparr>Vectors := [], mmap := bytes\<rparr>)"

lemma written_built:
  assumes "refs_ok refs" "accepts refs opts" "build_clusters (length refs) (optClusters opts) \<le> 8192"
    and "WriteIVFBinaryIndex refs opts = Some (Inr bytes)"
  obtains built where "BuildIVFIndex refs opts = Some (Inr built)"
    "loadBinaryIndex bytes = Some (Inr (built\<lparr>Vectors := [], mmap := bytes\<rparr>))"
    "searchable refs (built\<lparr>Vectors := [], mmap := bytes\<rparr>)"
    "Clusters (IVF built) = build_clusters (length refs) (optClusters opts)"
proof -
  obtain built where b: "BuildIVFIndex refs opts = Some (Inr built)" "searchable refs built"
    "Clusters (IVF built) = build_clusters (length refs) (optClusters opts)"
    using build_searchable [OF assms(1-3)] by blast
  note sz = build_sizes [OF assms(1,2) b(1)]
  have f: "file_ok built" "Labels built \<noteq> []" using b(2) sz assms(2) by (auto simp: searchable_def file_ok_def accepts_def)
  have "bytes = index_bytes built" using assms(4) by (simp add: WriteIVFBinaryIndex_def b(1) write_ok [OF f(1)])
  then have "loadBinaryIndex bytes = Some (Inr (built\<lparr>Vectors := [], mmap := bytes\<rparr>))"
    using write_load [OF f] by simp
  with b show thesis using searchable_frame [OF b(2)] by (intro that)
qed

lemma configured_server_index:
  assumes "refs_ok refs" "accepts refs opts" "build_clusters (length refs) (optClusters opts) \<le> 8192"
    and "WriteIVFBinaryIndex refs opts = Some (Inr bytes)" "files (IndexPath cfg) = Some bytes" "IndexPath cfg \<noteq> ''''"
  obtains built where "BuildIVFIndex refs opts = Some (Inr built)"
    "loadSearcher gunzip decode files cfg = Some (Inr (QuantizedSearcher (configured_index cfg bytes built)))"
    "searchable refs (configured_index cfg bytes built)" "Repair (IVF (configured_index cfg bytes built)) = ANNRepair cfg"
    "build_clusters (length refs) (optClusters opts) \<le> min 128 (ANNNProbe cfg) \<Longrightarrow> probes_all (configured_index cfg bytes built)"
proof -
  obtain built where b: "BuildIVFIndex refs opts = Some (Inr built)"
    "loadBinaryIndex bytes = Some (Inr (built\<lparr>Vectors := [], mmap := bytes\<rparr>))"
    "searchable refs (built\<lparr>Vectors := [], mmap := bytes\<rparr>)"
    "Clusters (IVF built) = build_clusters (length refs) (optClusters opts)"
    by (rule written_built [OF assms(1-4)]) (rule that)
  let ?idx = "built\<lparr>Vectors := [], mmap := bytes\<rparr>"
  have "hasIVF ?idx" using b(3) by (simp add: searchable_def wf_index_def)
  then obtain x y where p: "configured_index cfg bytes built = set_params ?idx x y (ANNRepair cfg)"
    "params_ok (set_params ?idx x y (ANNRepair cfg))" "0 < ANNNProbe cfg \<longrightarrow> x = min (ANNNProbe cfg) (Clusters (IVF ?idx))"
    unfolding configured_index_def
    by (rule SetIVFSearch_params [where n = "ANNNProbe cfg" and m = "ANNAmbiguousProbe cfg" and repair = "ANNRepair cfg"])
  have pos: "0 < build_clusters (length refs) (optClusters opts)" using assms(2) by (simp add: accepts_def isPowerOfTwo_def)
  show thesis
  proof (rule that [OF b(1)])
    show "loadSearcher gunzip decode files cfg = Some (Inr (QuantizedSearcher (configured_index cfg bytes built)))"
      using assms(5,6) b(2) by (simp add: loadSearcher_def LoadBinaryIndex_def configured_index_def)
    show "searchable refs (configured_index cfg bytes built)" unfolding p(1) by (rule searchable_set_params [OF b(3) p(2)])
    show "Repair (IVF (configured_index cfg bytes built)) = ANNRepair cfg" by (simp add: p(1))
    show "probes_all (configured_index cfg bytes built)"
      if "build_clusters (length refs) (optClusters opts) \<le> min 128 (ANNNProbe cfg)"
      using that p(3) pos b(4) by (simp add: p(1) probes_all_def maxIVFProbe_def)
  qed
qed

lemma searchable_searcher: "searchable refs idx \<Longrightarrow> searcher_ok (QuantizedSearcher idx)"
  by (simp add: searcher_ok_def searchable_def)

lemma served_answer:
  assumes "searchable refs idx" "limit < 9223372036854775807"
    and "delivered req limit = Inr data" "\<not> panics data" "\<not> body_fails data"
  shows "\<exists>q released. VectorizeJSONQuantized data params = Some (Some q) \<and> quantized_query q \<and>
    FraudScoreRaw True (NewHandlers (NewService params risk (QuantizedSearcher idx)) limit) req pool =
      Some (Some (response_calls scoreContentType 200 (scoreResponses ! search_answer idx q)), released)"
proof -
  obtain q where q: "VectorizeJSONQuantized data params = Some (Some q)"
    using vectorize_with_cases [OF assms(4), of quantizeFloat64 params] assms(5) by (auto simp: Vectorize_Json_factor)
  note query = VectorizeJSONQuantized_query [OF q]
  note count = FraudCountJSON_quantized [OF q searchable_answer [OF assms(1) query], of risk]
  from FraudScoreRaw_total [OF searchable_searcher [OF assms(1)] assms(2), of req True params risk pool]
  show ?thesis using q query count assms(3-5) by auto
qed

end
