(* ===== verification/Json_Samples.thy ===== *)
theory Json_Samples
  imports Server
begin

text \<open>A request body, and one that makes the vectorizers panic: its merchant has an empty id.\<close>

definition sample_body :: "string \<Rightarrow> u8 list" where
  "sample_body name = bytes_of
     (''{\"amount\":1,\"installments\":1,\"requested_at\":\"2026-03-27T09:08:20Z\",'' @
      ''\"customer\":{\"avg_amount\":1,\"tx_count_24h\":1,\"known_merchants\":[\"M\"]},'' @
      ''\"merchant\":{\"id\":\"'' @ name @ ''\",\"mcc\":\"5411\",\"avg_amount\":1},'' @
      ''\"terminal\":{\"is_online\":true,\"card_present\":true,\"km_from_home\":1}}'')"

lemma parse_one: "parseFloatBytes [49] = Some (Fin 1)"
  using parse_decimal(1) [of 1] by (simp add: decimal.simps)

text \<open>Evaluation of the scanner on a concrete body, without the float arithmetic.\<close>

lemmas scan_eval = sample_body_def quoted_def bytes_of_def slice_def scan_takeWhile has_prefix_def is_digit_def
  skippable_def Let_def parse_one

lemma sample_numbers:
  assumes "name = ''M'' \<or> name = ''''"
  shows "numberAfter (sample_body name) (quoted ''amount'') 0 = Some (Some (Fin 1))"
    "numberAfter (sample_body name) (quoted ''installments'') 0 = Some (Some (Fin 1))"
    "numberAfter (sample_body name) (quoted ''avg_amount'') 67 = Some (Some (Fin 1))"
    "numberAfter (sample_body name) (quoted ''tx_count_24h'') 67 = Some (Some (Fin 1))"
    "numberAfter (sample_body name) (quoted ''avg_amount'') 136 = Some (Some (Fin 1))"
  using assms by (auto simp: numberAfter_def scan_eval)

lemma sample_positions:
  assumes "name = ''M'' \<or> name = ''''"
  shows "bytes_Index (sample_body name) (quoted ''customer'') = Some 67"
    "bytes_Index (sample_body name) (quoted ''merchant'') = Some 136"
    "bytes_Index (sample_body name) (quoted ''terminal'') = Some (185 + length name)"
    "numberAfter (sample_body name) (quoted ''km_from_home'') (185 + length name) = Some (Some (Fin 1))"
    "boolAfter (sample_body name) (quoted ''is_online'') (185 + length name) = Some (Some True)"
    "boolAfter (sample_body name) (quoted ''card_present'') (185 + length name) = Some (Some True)"
  using assms by (auto simp: numberAfter_def boolAfter_def scan_eval)

lemma sample_strings:
  assumes "name = ''M'' \<or> name = ''''"
  shows "stringAfter (sample_body name) (quoted ''requested_at'') 0 = Some (Some (bytes_of ''2026-03-27T09:08:20Z''))"
    "stringAfter (sample_body name) (quoted ''id'') 136 = Some (Some (bytes_of name))"
    "stringAfter (sample_body name) (quoted ''mcc'') 136 = Some (Some (bytes_of ''5411''))"
    "bytes_Index (sample_body name) (quoted ''last_transaction'') = None"
  using assms by (auto simp: stringAfter_def scan_eval)

lemma sample_section:
  assumes "name = ''M'' \<or> name = ''''"
  shows "merchant_section (sample_body name) 67 136 = Some (quoted ''known_merchants'' @ bytes_of '':['' @ quoted ''M'')"
  using assms by (auto simp: merchant_section_def scan_eval)

lemma sample_fields:
  assumes "name = ''M'' \<or> name = ''''"
  shows "\<exists>r. requestFields (sample_body name) = Some (Some r) \<and> jsonMerchantID r = bytes_of name \<and>
    jsonCustomerPos r = 67 \<and> jsonMerchantPos r = 136"
proof -
  have "\<not> length (bytes_of ''2026-03-27T09:08:20Z'') < 20" by (simp add: bytes_of_def)
  then show ?thesis
    by (simp add: requestFields_def ok_then_def sample_numbers [OF assms] sample_positions [OF assms]
        sample_strings [OF assms])
qed

lemma sample_not_panics: "\<not> panics (sample_body ''M'')"
  using sample_fields [of "''M''"] panics_shape by (force simp: bytes_of_def)

lemma sample_panics: "panics (sample_body '''')"
proof -
  let ?part = "quoted ''known_merchants'' @ bytes_of '':['' @ quoted ''M''"
  have "bytes_Index ?part [34, 34] = None" by (simp add: quoted_def bytes_of_def has_prefix_def)
  then have "\<not> quoted_in ?part []" by (simp add: quoted_in_Index)
  then show ?thesis
    using sample_fields [of "''''"] sample_section [of "''''"] unfolding panics_def by (force simp: bytes_of_def)
qed

lemma sample_accepted: "\<not> body_fails (sample_body ''M'')"
  using sample_fields [of "''M''"] by (auto simp: body_fails_def lastTransactionJSON_def sample_strings)

subsection \<open>A request that carries it\<close>

definition sample_request :: "string \<Rightarrow> request" where
  "sample_request name = \<lparr>ContentLength = int (length (sample_body name)),
     Body = Some \<lparr>bodyBytes = sample_body name, bodyFails = False\<rparr>\<rparr>"

lemma sample_delivered:
  assumes "name = ''M'' \<or> name = ''''" "4096 \<le> limit"
  shows "delivered (sample_request name) limit = Inr (sample_body name)"
proof -
  have "length (sample_body name) \<le> 4096" using assms(1) by (auto simp: sample_body_def bytes_of_def)
  then show ?thesis using assms(2) by (simp add: delivered_def sample_request_def)
qed

lemma sample_quantized: "\<exists>q. VectorizeJSONQuantized (sample_body ''M'') params = Some (Some q)"
  using vectorize_with_cases [OF sample_not_panics, of quantizeFloat64 params] sample_accepted
  by (simp add: Vectorize_Json_factor)

lemma sample_searcher: "searcher_ok (ExactSearcher refs)"
  by (simp add: searcher_ok_def)

definition sample_transaction :: TransactionRequest where
  "sample_transaction = \<lparr>RequestID = bytes_of ''tx'',
     RequestTransaction = \<lparr>Amount = Fin 120, Installments = 3, RequestedAt = 0\<rparr>,
     RequestCustomer = \<lparr>CustomerAvgAmount = Fin 100, TxCount24h = 2, KnownMerchants = [bytes_of ''M'']\<rparr>,
     RequestMerchant = \<lparr>MerchantID = bytes_of ''M'', MCC = bytes_of ''5411'', MerchantAvgAmount = Fin 60\<rparr>,
     RequestTerminal = \<lparr>IsOnline = True, CardPresent = False, KmFromHome = Fin 5\<rparr>, RequestLast = None\<rparr>"

lemma sample_transaction_ok: "request_ok sample_transaction"
  by (simp add: request_ok_def sample_transaction_def finite_value_def)

end
