(* ===== verification/Pool_Protocol.thy ===== *)
theory Pool_Protocol
  imports Http_Handlers
begin

text \<open>
  Concurrent requests (\<open>router/handlers.go\<close>). The HTTP library runs \<open>FraudScoreRaw\<close> for many requests at
  once, and all of them share the \<open>sync.Pool\<close> of body buffers. Here the handler is cut into the steps
  between which other requests run, buffers have an identity, and the pool is a bag of them:
  \<open>Get\<close> takes any of them or calls \<open>New\<close>, and the collector may take one at any time. The
  theorems say that the requests do not disturb each other: a buffer belongs to one request or to the
  pool, and every request ends with the answer it gets alone.
\<close>

subsection \<open>States\<close>

text \<open>What a handler ends with: the calls it made on the response writer, or a panic.\<close>

type_synonym outcome = "http_event list option"

text \<open>A request reads into a buffer (the flag says that it is to be put back) and has read some bytes;
  scores the front of the buffer; has its outcome and the deferred release ahead; is finished.\<close>

datatype phase =
  Arrived
| Reading nat bool nat
| Scoring nat bool nat
| Answered nat bool outcome
| Finished outcome

record pool_state =
  arrays :: "nat \<Rightarrow> u8 list"
  next_array :: nat
  idle :: "nat list"
  phases :: "nat \<Rightarrow> phase"

definition initial_pool :: pool_state where
  "initial_pool = \<lparr>arrays = (\<lambda>_. []), next_array = 0, idle = [], phases = (\<lambda>_. Arrived)\<rparr>"

definition enter :: "nat \<Rightarrow> phase \<Rightarrow> pool_state \<Rightarrow> pool_state" where
  "enter i p s = s\<lparr>phases := (phases s)(i := p)\<rparr>"

definition allocate :: "u8 list \<Rightarrow> pool_state \<Rightarrow> nat \<times> pool_state" where
  "allocate xs s =
     (next_array s, s\<lparr>arrays := (arrays s)(next_array s := xs), next_array := next_array s + 1\<rparr>)"

definition write_at :: "nat \<Rightarrow> nat \<Rightarrow> u8 list \<Rightarrow> pool_state \<Rightarrow> pool_state" where
  "write_at b k xs s =
     s\<lparr>arrays := (arrays s)(b := take k (arrays s b) @ xs @ drop (k + length xs) (arrays s b))\<rparr>"

definition put_idle :: "bool \<Rightarrow> nat \<Rightarrow> pool_state \<Rightarrow> pool_state" where
  "put_idle pooled b s = (if pooled then s\<lparr>idle := b # idle s\<rparr> else s)"

subsection \<open>Steps\<close>

text \<open>The requests that read a known number of bytes.\<close>

definition wants_buffer :: "request \<Rightarrow> int \<Rightarrow> bool" where
  "wants_buffer req limit \<longleftrightarrow>
     \<not> (limit \<ge> 0 \<and> ContentLength req > limit) \<and> Body req \<noteq> None \<and> 0 < ContentLength req"

text \<open>\<open>acquireBodyBuffer\<close> once \<open>Get\<close> has returned an array.\<close>

definition start_reading :: "request \<Rightarrow> nat \<Rightarrow> nat \<Rightarrow> pool_state \<Rightarrow> pool_state" where
  "start_reading req i b s =
     (case acquireBodyBuffer (PoolGet (arrays s b)) (ContentLength req) of
        (buf, Some pooled) \<Rightarrow> enter i (Reading b True 0) s
      | (buf, None) \<Rightarrow> (case allocate buf s of (n, s) \<Rightarrow> enter i (Reading n False 0) s))"

definition count_outcome :: "bool \<Rightarrow> Handlers \<Rightarrow> u8 list \<Rightarrow> outcome" where
  "count_outcome useAVX2 h data =
     (case FraudCountJSON useAVX2 (scoreService h) data of
        None \<Rightarrow> None
      | Some None \<Rightarrow> writeScoreRaw 400 0
      | Some (Some frauds) \<Rightarrow> writeScoreRaw 200 (int frauds))"

text \<open>The steps, by the request that makes them: \<open>Begin\<close> handles the requests that take no
  buffer, \<open>Read\<close> is one read of \<open>io.ReadFull\<close>, \<open>Release\<close> the deferred call.\<close>

datatype pool_event =
  Collect nat
| Begin nat
| GetIdle nat nat
| GetNew nat
| Read nat nat
| ReadDone nat
| ReadFailed nat
| Count nat
| Release nat

fun handler_event ::
    "bool \<Rightarrow> Handlers \<Rightarrow> (nat \<Rightarrow> request) \<Rightarrow> pool_event \<Rightarrow> pool_state \<Rightarrow> pool_state option" where
  "handler_event useAVX2 h req (Collect b) s =
     (if b \<in> set (idle s) then Some (s\<lparr>idle := remove1 b (idle s)\<rparr>) else None)"
| "handler_event useAVX2 h req (Begin i) s =
     (if phases s i = Arrived \<and> \<not> wants_buffer (req i) (bodyLimit h) then
        case readRequestBodyWithPool (req i) (bodyLimit h) NoPool of
          None \<Rightarrow> None
        | Some (Replied es released) \<Rightarrow> Some (enter i (Finished (Some es)) s)
        | Some (GotBody data pooled) \<Rightarrow>
            (case allocate data s of (n, s) \<Rightarrow> Some (enter i (Scoring n False (length data)) s))
      else None)"
| "handler_event useAVX2 h req (GetIdle i b) s =
     (if phases s i = Arrived \<and> wants_buffer (req i) (bodyLimit h) \<and> b \<in> set (idle s)
      then Some (start_reading (req i) i b (s\<lparr>idle := remove1 b (idle s)\<rparr>)) else None)"
| "handler_event useAVX2 h req (GetNew i) s =
     (if phases s i = Arrived \<and> wants_buffer (req i) (bodyLimit h)
      then case allocate (case bodyPoolNew h of None \<Rightarrow> [] | Some p \<Rightarrow> p) s of
        (b, s) \<Rightarrow> Some (start_reading (req i) i b s) else None)"
| "handler_event useAVX2 h req (Read i n) s =
     (case (phases s i, Body (req i)) of
        (Reading b pooled k, Some body) \<Rightarrow>
          if 0 < n \<and> k + n \<le> nat (ContentLength (req i)) \<and> k + n \<le> length (bodyBytes body)
          then Some (enter i (Reading b pooled (k + n)) (write_at b k (take n (drop k (bodyBytes body))) s))
          else None
      | _ \<Rightarrow> None)"
| "handler_event useAVX2 h req (ReadDone i) s =
     (case phases s i of
        Reading b pooled k \<Rightarrow>
          if k = nat (ContentLength (req i)) then Some (enter i (Scoring b pooled k) s) else None
      | _ \<Rightarrow> None)"
| "handler_event useAVX2 h req (ReadFailed i) s =
     (case (phases s i, Body (req i)) of
        (Reading b pooled k, Some body) \<Rightarrow>
          if k < nat (ContentLength (req i)) \<and> k = length (bodyBytes body)
          then Some (enter i (Finished (writeScoreRaw 400 0)) (put_idle pooled b s)) else None
      | _ \<Rightarrow> None)"
| "handler_event useAVX2 h req (Count i) s =
     (case phases s i of
        Scoring b pooled k \<Rightarrow> Some (enter i (Answered b pooled (count_outcome useAVX2 h (take k (arrays s b)))) s)
      | _ \<Rightarrow> None)"
| "handler_event useAVX2 h req (Release i) s =
     (case phases s i of
        Answered b pooled r \<Rightarrow> Some (enter i (Finished r) (put_idle pooled b s))
      | _ \<Rightarrow> None)"

inductive handler_step ::
    "bool \<Rightarrow> Handlers \<Rightarrow> (nat \<Rightarrow> request) \<Rightarrow> pool_state \<Rightarrow> pool_state \<Rightarrow> bool"
  for useAVX2 h req where
  step: "handler_event useAVX2 h req e s = Some t \<Longrightarrow> handler_step useAVX2 h req s t"

inductive pool_reachable :: "bool \<Rightarrow> Handlers \<Rightarrow> (nat \<Rightarrow> request) \<Rightarrow> pool_state \<Rightarrow> bool"
  for useAVX2 h req where
  start: "pool_reachable useAVX2 h req initial_pool"
| next_step: "pool_reachable useAVX2 h req s \<Longrightarrow> handler_step useAVX2 h req s t \<Longrightarrow> pool_reachable useAVX2 h req t"

inductive_cases handler_stepE: "handler_step useAVX2 h req s t"

subsection \<open>A buffer has one owner\<close>

definition held :: "pool_state \<Rightarrow> nat \<Rightarrow> nat option" where
  "held s i =
     (case phases s i of
        Reading b pooled k \<Rightarrow> Some b | Scoring b pooled k \<Rightarrow> Some b | Answered b pooled r \<Rightarrow> Some b
      | _ \<Rightarrow> None)"

definition one_owner :: "pool_state \<Rightarrow> bool" where
  "one_owner s \<longleftrightarrow>
     distinct (idle s) \<and> (\<forall>b \<in> set (idle s). b < next_array s) \<and>
     (\<forall>i b. held s i = Some b \<longrightarrow> b < next_array s \<and> b \<notin> set (idle s)) \<and>
     (\<forall>i j b. held s i = Some b \<and> held s j = Some b \<longrightarrow> i = j)"

named_theorems pool_simps \<open>the parts of a state after the elementary operations\<close>

lemma enter_simps [pool_simps]:
  "arrays (enter i p s) = arrays s" "next_array (enter i p s) = next_array s" "idle (enter i p s) = idle s"
  "phases (enter i p s) = (phases s)(i := p)"
  by (simp_all add: enter_def)

lemma write_at_simps [pool_simps]:
  "next_array (write_at b k xs s) = next_array s" "idle (write_at b k xs s) = idle s" "phases (write_at b k xs s) = phases s"
  by (simp_all add: write_at_def)

lemma put_idle_simps [pool_simps]:
  "next_array (put_idle p b s) = next_array s" "arrays (put_idle p b s) = arrays s" "phases (put_idle p b s) = phases s"
  "idle (put_idle p b s) = (if p then [b] else []) @ idle s"
  by (simp_all add: put_idle_def)

lemma held_cong: "phases s = phases t \<Longrightarrow> held s = held t"
  by (rule ext) (simp add: held_def)

lemma held_enter: "held (enter i p s) = (held s)(i := held (enter i p s) i)"
  by (rule ext) (simp add: held_def enter_simps)

text \<open>The moves of a buffer: made for a request, taken from the pool, kept, given back or forgotten.\<close>

lemma one_owner_move:
  assumes "one_owner s" "held t = (held s)(i := h)" "idle t = xs" "next_array t = n"
    and "distinct xs" "\<And>b. b \<in> set xs \<Longrightarrow> b \<in> set (idle s) \<or> held s i = Some b" "next_array s \<le> n"
    and "\<And>b. h = Some b \<Longrightarrow> b < n \<and> b \<notin> set xs \<and> (\<forall>j. j \<noteq> i \<longrightarrow> held s j \<noteq> Some b)"
    and "\<And>j b. j \<noteq> i \<Longrightarrow> held s j = Some b \<Longrightarrow> b \<notin> set xs"
  shows "one_owner t"
proof -
  note o = assms(1) [unfolded one_owner_def]
  have old: "b < next_array s" if "held s j = Some b" for j b using o that by blast
  have idle: "b < n" if "b \<in> set xs" for b using o assms(6) [OF that] old assms(7) by (auto dest: order.strict_trans2)
  have other: "held s j \<noteq> Some b" if "h = Some b" "j \<noteq> i" for j b
    using assms(8) [OF that(1)] that(2) by blast
  have "i = j" if "held t k = Some b" "held t j = Some b" "k = i" for j k b
    using that other assms(2) by (auto split: if_splits)
  moreover have "k = j" if "held t k = Some b" "held t j = Some b" "k \<noteq> i" "j \<noteq> i" for j k b
    using that o assms(2) by (metis fun_upd_other)
  ultimately have inj: "k = j" if "held t k = Some b" "held t j = Some b" for j k b using that by metis
  have "b < n \<and> b \<notin> set xs" if "held t j = Some b" for j b
  proof (cases "j = i")
    case True
    with that assms(2,8) show ?thesis by simp
  next
    case False
    then have "held s j = Some b" using that assms(2) by simp
    with old [OF this] assms(7) assms(9) [OF False this] show ?thesis by simp
  qed
  then show ?thesis using inj idle assms(3-5) unfolding one_owner_def by auto
qed

lemma one_owner_initial: "one_owner initial_pool"
  by (simp add: one_owner_def initial_pool_def held_def)

lemma held_phases: "phases s i = p \<Longrightarrow> held s i = (case p of Reading b q k \<Rightarrow> Some b | Scoring b q k \<Rightarrow> Some b
    | Answered b q r \<Rightarrow> Some b | _ \<Rightarrow> None)"
  by (simp add: held_def)

lemma one_owner_start:
  assumes "one_owner s" "held s i = None" "b < next_array s" "b \<notin> set (idle s)" "\<And>j. held s j \<noteq> Some b"
  shows "one_owner (start_reading r i b s)"
proof -
  obtain buf pooled where a: "acquireBodyBuffer (PoolGet (arrays s b)) (ContentLength r) = (buf, pooled)" by fastforce
  have u: "b < next_array s" if "b \<in> set (idle s)" for b using assms(1) that by (simp add: one_owner_def)
  let ?t = "start_reading r i b s"
  have frame: "held ?t j = held s j" if "j \<noteq> i" for j
    using that by (auto simp: start_reading_def a held_def enter_simps allocate_def split: option.split)
  note o = assms(1) [unfolded one_owner_def]
  have hi: "\<exists>c. held ?t i = Some c \<and> (c = b \<or> c = next_array s \<and> next_array ?t = Suc c)"
    "idle ?t = idle s" "next_array s \<le> next_array ?t"
    by (auto simp: start_reading_def a held_def enter_simps allocate_def split: option.split)
  show ?thesis
  proof (rule one_owner_move [OF assms(1), of _ i "held ?t i", OF _ hi(2) refl])
    show "held ?t = (held s)(i := held ?t i)" using frame by (auto simp: fun_eq_iff)
  next
    fix c assume "held ?t i = Some c"
    with hi have c: "c = b \<or> c = next_array s \<and> next_array ?t = Suc c" by simp
    then have "c < next_array ?t" using assms(3) hi(3) by auto
    moreover have "c \<notin> set (idle s)" using c assms(4) u by blast
    moreover have "held s j \<noteq> Some c" for j using c assms(5) o by blast
    ultimately show "c < next_array ?t \<and> c \<notin> set (idle s) \<and> (\<forall>j. j \<noteq> i \<longrightarrow> held s j \<noteq> Some c)" by simp
  qed (use hi(3) o in auto)
qed

lemma one_owner_keep:
  assumes "one_owner s" "held t = held s" "idle t = idle s" "next_array t = next_array s"
  shows "one_owner t"
  using assms by (simp add: one_owner_def)

lemma one_owner_give_back:
  assumes "one_owner s" "held s i = Some b"
  shows "one_owner (enter i (Finished r) (put_idle p b s))"
proof (rule one_owner_move [OF assms(1), of _ i None, OF _ refl refl])
  show "held (enter i (Finished r) (put_idle p b s)) = (held s)(i := None)"
    by (auto simp: held_def pool_simps fun_eq_iff)
qed (use assms in \<open>auto simp: one_owner_def pool_simps split: if_splits\<close>)

lemma one_owner_allocate:
  assumes "one_owner s" "held s i = None" "allocate xs s = (n, t)"
  shows "n < next_array t" "n \<notin> set (idle t)" "\<And>j. held t j \<noteq> Some n" "one_owner t" "held t = held s"
proof -
  have t: "n = next_array s" "next_array t = Suc n" "idle t = idle s" "phases t = phases s" using assms(3) by (auto simp: allocate_def)
  note o = assms(1) [unfolded one_owner_def]
  show h: "held t = held s" using t(4) by (rule held_cong)
  show "n < next_array t" "n \<notin> set (idle t)" using t o by auto
  show "held t j \<noteq> Some n" for j using o t(1) h by auto
  show "one_owner t" using o t h unfolding one_owner_def by (auto dest: order.strict_trans)
qed

lemma one_owner_forget:
  assumes "one_owner s" "b \<in> set (idle s)"
  shows "one_owner (s\<lparr>idle := remove1 b (idle s)\<rparr>)" "b \<notin> set (remove1 b (idle s))" "b < next_array s" "held s j \<noteq> Some b"
    "held (s\<lparr>idle := remove1 b (idle s)\<rparr>) = held s"
proof -
  show h: "held (s\<lparr>idle := remove1 b (idle s)\<rparr>) = held s" by (rule held_cong) simp
  show "one_owner (s\<lparr>idle := remove1 b (idle s)\<rparr>)" using assms(1) unfolding one_owner_def h by auto
  show "b \<notin> set (remove1 b (idle s))" "b < next_array s" "held s j \<noteq> Some b" using assms by (auto simp: one_owner_def)
qed

lemma one_owner_event:
  assumes "one_owner s" "handler_event useAVX2 h req e s = Some t"
  shows "one_owner t"
proof (cases e)
  case (Collect b)
  then show ?thesis using assms one_owner_forget(1) by (auto split: if_splits)
next
  case (Begin i)
  then have a: "phases s i = Arrived" using assms(2) by (auto split: if_splits)
  then have n: "held s i = None" by (simp add: held_def)
  show ?thesis
  proof (cases "readRequestBodyWithPool (req i) (bodyLimit h) NoPool")
    case None
    with assms(2) Begin show ?thesis by (simp split: if_splits)
  next
    case (Some r)
    show ?thesis
    proof (cases r)
      case (GotBody data pooled)
      obtain m u where m: "allocate data s = (m, u)" by fastforce
      with assms(2) Begin Some GotBody have t: "t = enter i (Scoring m False (length data)) u" by (simp split: if_splits)
      note al = one_owner_allocate [OF assms(1) n m]
      have "held t = (held u)(i := Some m)" using t by (auto simp: held_def pool_simps fun_eq_iff)
      with al t show ?thesis
        by (intro one_owner_move [OF al(4), of t i "Some m", OF _ refl refl]) (auto simp: pool_simps one_owner_def)
    next
      case (Replied es released)
      with assms(2) Begin Some have t: "t = enter i (Finished (Some es)) s" by (simp split: if_splits)
      have "held t = held s" using n t by (auto simp: held_def pool_simps fun_eq_iff)
      with one_owner_keep [OF assms(1)] t show ?thesis by (simp add: pool_simps)
    qed
  qed
next
  case (GetIdle i b)
  then have a: "held s i = None" and b: "b \<in> set (idle s)"
    and t: "t = start_reading (req i) i b (s\<lparr>idle := remove1 b (idle s)\<rparr>)" using assms(2) by (auto simp: held_def split: if_splits)
  note f = one_owner_forget [OF assms(1) b]
  show ?thesis unfolding t using f a by (intro one_owner_start) simp_all
next
  case (GetNew i)
  then have a: "held s i = None" using assms(2) by (auto simp: held_def split: if_splits)
  obtain n u where n: "allocate (case bodyPoolNew h of None \<Rightarrow> [] | Some p \<Rightarrow> p) s = (n, u)" by fastforce
  then have t: "t = start_reading (req i) i n u" using assms(2) GetNew by (auto split: if_splits)
  note al = one_owner_allocate [OF assms(1) a n]
  show ?thesis unfolding t using al a by (intro one_owner_start) simp_all
next
  case (Read i n)
  then obtain b p k xs where r: "phases s i = Reading b p k" and t: "t = enter i (Reading b p (k + n)) (write_at b k xs s)"
    using assms(2) by (auto split: phase.splits option.splits if_splits)
  have "held t = held s" using r by (auto simp: t held_def pool_simps fun_eq_iff)
  with one_owner_keep [OF assms(1)] t show ?thesis by (simp add: pool_simps)
next
  case (ReadDone i)
  then obtain b p k where r: "phases s i = Reading b p k" and t: "t = enter i (Scoring b p k) s"
    using assms(2) by (auto split: phase.splits if_splits)
  have "held t = held s" using r by (auto simp: t held_def pool_simps fun_eq_iff)
  with one_owner_keep [OF assms(1)] t show ?thesis by (simp add: pool_simps)
next
  case (ReadFailed i)
  then obtain b p k r where "phases s i = Reading b p k" and t: "t = enter i (Finished r) (put_idle p b s)"
    using assms(2) by (auto split: phase.splits option.splits if_splits)
  then show ?thesis using one_owner_give_back [OF assms(1)] by (simp add: held_def)
next
  case (Count i)
  then obtain b p k r where r: "phases s i = Scoring b p k" and t: "t = enter i (Answered b p r) s"
    using assms(2) by (auto split: phase.splits)
  have "held t = held s" using r by (auto simp: t held_def pool_simps fun_eq_iff)
  with one_owner_keep [OF assms(1)] t show ?thesis by (simp add: pool_simps)
next
  case (Release i)
  then obtain b p r where "phases s i = Answered b p r" and t: "t = enter i (Finished r) (put_idle p b s)"
    using assms(2) by (auto split: phase.splits)
  then show ?thesis using one_owner_give_back [OF assms(1)] by (simp add: held_def)
qed

lemma one_owner_reachable: "pool_reachable useAVX2 h req s \<Longrightarrow> one_owner s"
  by (induction rule: pool_reachable.induct) (auto elim!: handler_stepE simp: one_owner_initial intro: one_owner_event)

subsection \<open>A request sees its own bytes and gets its own answer\<close>

text \<open>The outcome of a request that runs alone.\<close>

definition alone :: "bool \<Rightarrow> Handlers \<Rightarrow> request \<Rightarrow> outcome" where
  "alone useAVX2 h r =
     map_option (\<lambda>(status, k). response_calls scoreContentType status (scoreResponses ! k)) (answer useAVX2 h r)"

fun sound_phase :: "bool \<Rightarrow> Handlers \<Rightarrow> request \<Rightarrow> (nat \<Rightarrow> u8 list) \<Rightarrow> phase \<Rightarrow> bool" where
  "sound_phase useAVX2 h r mem Arrived \<longleftrightarrow> True"
| "sound_phase useAVX2 h r mem (Reading b pooled k) \<longleftrightarrow>
     wants_buffer r (bodyLimit h) \<and> k \<le> nat (ContentLength r) \<and> nat (ContentLength r) \<le> length (mem b) \<and>
     k \<le> length (bodyBytes (the (Body r))) \<and> take k (mem b) = take k (bodyBytes (the (Body r)))"
| "sound_phase useAVX2 h r mem (Scoring b pooled k) \<longleftrightarrow>
     delivered r (bodyLimit h) = Inr (take k (mem b))"
| "sound_phase useAVX2 h r mem (Answered b pooled outcome) \<longleftrightarrow> outcome = alone useAVX2 h r"
| "sound_phase useAVX2 h r mem (Finished outcome) \<longleftrightarrow> outcome = alone useAVX2 h r"

definition sound :: "bool \<Rightarrow> Handlers \<Rightarrow> (nat \<Rightarrow> request) \<Rightarrow> pool_state \<Rightarrow> bool" where
  "sound useAVX2 h req s \<longleftrightarrow> (\<forall>i. sound_phase useAVX2 h (req i) (arrays s) (phases s i))"

text \<open>The other requests are not affected by a step that leaves their buffers alone.\<close>

lemma sound_phase_frame:
  "(case p of Reading b q k \<Rightarrow> mem' b = mem b | Scoring b q k \<Rightarrow> mem' b = mem b | _ \<Rightarrow> True) \<Longrightarrow>
     sound_phase useAVX2 h r mem' p \<longleftrightarrow> sound_phase useAVX2 h r mem p"
  by (cases p) auto

lemma sound_enter:
  assumes "sound useAVX2 h req s" "sound_phase useAVX2 h (req i) (arrays t) (phases t i)"
    and "\<And>j. j \<noteq> i \<Longrightarrow> phases t j = phases s j" "\<And>j b. j \<noteq> i \<Longrightarrow> held s j = Some b \<Longrightarrow> arrays t b = arrays s b"
  shows "sound useAVX2 h req t"
proof -
  have "sound_phase useAVX2 h (req j) (arrays t) (phases t j)" if "j \<noteq> i" for j
  proof -
    have "sound_phase useAVX2 h (req j) (arrays t) (phases s j) \<longleftrightarrow> sound_phase useAVX2 h (req j) (arrays s) (phases s j)"
      using assms(4) [OF that] by (intro sound_phase_frame) (simp add: held_def split: phase.split)
    with assms(1) assms(3) [OF that] show ?thesis by (simp add: sound_def)
  qed
  with assms(2) show ?thesis unfolding sound_def by metis
qed

lemma count_outcome_alone:
  "delivered r (bodyLimit h) = Inr data \<Longrightarrow> count_outcome useAVX2 h data = alone useAVX2 h r"
  by (auto simp: count_outcome_def alone_def answer_def writeScoreRaw_calls clamp_count_def min_def split: option.splits)

lemma failed_read_alone:
  assumes "wants_buffer r (bodyLimit h)" "length (bodyBytes (the (Body r))) < nat (ContentLength r)"
  shows "writeScoreRaw 400 0 = alone useAVX2 h r"
proof -
  have "delivered r (bodyLimit h) = Inl 400"
    using assms by (auto simp: wants_buffer_def delivered_def)
  then show ?thesis by (simp add: alone_def answer_def writeScoreRaw_calls clamp_count_def)
qed

lemma full_read_delivered:
  assumes "sound_phase useAVX2 h r mem (Reading b p (nat (ContentLength r)))"
  shows "delivered r (bodyLimit h) = Inr (take (nat (ContentLength r)) (mem b))"
  using assms by (auto simp: wants_buffer_def delivered_def)

lemma sound_start:
  assumes "sound useAVX2 h req s" "wants_buffer (req i) (bodyLimit h)" "one_owner s"
  shows "sound useAVX2 h req (start_reading (req i) i b s)"
proof -
  have cl: "0 < ContentLength (req i)" using assms(2) by (simp add: wants_buffer_def)
  have old: "c < next_array s" if "held s j = Some c" for j c using assms(3) that by (auto simp: one_owner_def)
  obtain buf pooled where a: "acquireBodyBuffer (PoolGet (arrays s b)) (ContentLength (req i)) = (buf, pooled)" by fastforce
  note ok = acquire_ok [OF a cl]
  show ?thesis
  proof (cases pooled)
    case None
    then have t: "start_reading (req i) i b s = enter i (Reading (next_array s) False 0) (snd (allocate buf s))"
      by (simp add: start_reading_def a allocate_def)
    show ?thesis unfolding t
      by (rule sound_enter [OF assms(1)]) (use assms(2) ok old in \<open>auto simp: pool_simps allocate_def\<close>)
  next
    case (Some p)
    then have t: "start_reading (req i) i b s = enter i (Reading b True 0) s" by (simp add: start_reading_def a)
    show ?thesis unfolding t
      by (rule sound_enter [OF assms(1)]) (use assms(2) ok Some in \<open>auto simp: pool_simps\<close>)
  qed
qed

lemma sound_allocate:
  assumes "sound useAVX2 h req s" "one_owner s" "allocate xs s = (n, t)"
  shows "sound useAVX2 h req t" "arrays t n = xs"
proof -
  have same: "arrays t b = arrays s b" if "held s i = Some b" for i b
  proof -
    have "b < next_array s" using assms(2) that by (simp add: one_owner_def)
    then show ?thesis using assms(3) by (auto simp: allocate_def)
  qed
  have "sound_phase useAVX2 h (req i) (arrays t) (phases s i) \<longleftrightarrow> sound_phase useAVX2 h (req i) (arrays s) (phases s i)" for i
    using same [of i] by (intro sound_phase_frame) (simp add: held_def split: phase.split)
  then show "sound useAVX2 h req t" "arrays t n = xs" using assms(1,3) by (auto simp: sound_def allocate_def)
qed

lemma read_more:
  assumes "take k a = take k bytes" "k + n \<le> length bytes" "k + n \<le> length a"
  shows "take (k + n) (take k a @ take n (drop k bytes) @ drop (k + n) a) = take (k + n) bytes"
    "length (take k a @ take n (drop k bytes) @ drop (k + n) a) = length a"
  using assms by (simp_all add: take_add min_absorb1 min_absorb2)

lemma sound_event:
  assumes "sound useAVX2 h req s" "one_owner s" "bodyLimit h < 9223372036854775807"
    and "handler_event useAVX2 h req e s = Some t"
  shows "sound useAVX2 h req t"
proof (cases e)
  case (Collect b)
  with assms show ?thesis by (auto simp: sound_def split: if_splits)
next
  case (Begin i)
  note ph = assms(1) [unfolded sound_def, rule_format, of i]
  show ?thesis
  proof (cases "readRequestBodyWithPool (req i) (bodyLimit h) NoPool")
    case None
    with assms(4) Begin show ?thesis by (simp split: if_splits)
  next
    case (Some r)
    note d = readRequestBodyWithPool_delivered [OF assms(3), of "req i" NoPool]
    show ?thesis
    proof (cases r)
      case (GotBody data pooled)
      obtain m u where m: "allocate data s = (m, u)" by fastforce
      with assms(4) Begin Some GotBody have a: "phases s i = Arrived" "t = enter i (Scoring m False (length data)) u"
        by (simp_all split: if_splits)
      have "delivered (req i) (bodyLimit h) = Inr data" using d Some GotBody by (auto split: sum.splits)
      with sound_allocate [OF assms(1,2) m] a show ?thesis
        by (intro sound_enter [of useAVX2 h req u i t]) (simp_all add: pool_simps)
    next
      case (Replied es released)
      with assms(4) Begin Some have a: "t = enter i (Finished (Some es)) s" by (simp split: if_splits)
      have "Some es = alone useAVX2 h (req i)"
        using d Some Replied by (auto simp: alone_def answer_def split: sum.splits)
      with a show ?thesis by (intro sound_enter [OF assms(1), of i]) (simp_all add: pool_simps)
    qed
  qed
next
  case (GetIdle i b)
  then have w: "wants_buffer (req i) (bodyLimit h)" and b: "b \<in> set (idle s)"
    and t: "t = start_reading (req i) i b (s\<lparr>idle := remove1 b (idle s)\<rparr>)" using assms(4) by (auto split: if_splits)
  have "sound useAVX2 h req (s\<lparr>idle := remove1 b (idle s)\<rparr>)" using assms(1) by (simp add: sound_def)
  with w one_owner_forget(1) [OF assms(2) b] show ?thesis unfolding t by (intro sound_start)
next
  case (GetNew i)
  obtain n u where n: "allocate (case bodyPoolNew h of None \<Rightarrow> [] | Some p \<Rightarrow> p) s = (n, u)" by fastforce
  then have t: "t = start_reading (req i) i n u" and w: "wants_buffer (req i) (bodyLimit h)" and a: "held s i = None"
    using assms(4) GetNew by (auto simp: held_def split: if_splits)
  show ?thesis unfolding t using sound_allocate(1) [OF assms(1,2) n] one_owner_allocate(4) [OF assms(2) a n] w
    by (intro sound_start)
next
  case (Read i n)
  then obtain b p k body where r: "phases s i = Reading b p k" "Body (req i) = Some body" "k + n \<le> nat (ContentLength (req i))"
      "k + n \<le> length (bodyBytes body)"
    and t: "t = enter i (Reading b p (k + n)) (write_at b k (take n (drop k (bodyBytes body))) s)"
    using assms(4) by (auto split: phase.splits option.splits if_splits)
  have ph: "sound_phase useAVX2 h (req i) (arrays s) (Reading b p k)" using assms(1) r(1) unfolding sound_def by metis
  have len: "length (take n (drop k (bodyBytes body))) = n" using r(4) by simp
  have "k + n \<le> length (arrays s b)" using ph r(3) by simp
  note more = read_more [OF _ r(4) this]
  have "held s i = Some b" using r(1) by (simp add: held_def)
  then have own: "held s j \<noteq> Some b" if "j \<noteq> i" for j
    using assms(2) that unfolding one_owner_def by blast
  let ?new = "take k (arrays s b) @ take n (drop k (bodyBytes body)) @ drop (k + n) (arrays s b)"
  have t_parts: "arrays t = (arrays s)(b := ?new)" "phases t = (phases s)(i := Reading b p (k + n))"
    unfolding t by (simp_all only: pool_simps write_at_def len) simp_all
  have prefix: "take k (arrays s b) = take k (bodyBytes body)" using ph r(2) by simp
  have i: "sound_phase useAVX2 h (req i) (arrays t) (phases t i)"
    unfolding t_parts using ph r(2-4) more(2) [OF prefix] by (simp add: more(1) [OF prefix] take_add)
  show ?thesis
  proof (rule sound_enter [OF assms(1) i])
    fix j c assume "j \<noteq> i" "held s j = Some c"
    with own [of j] have "c \<noteq> b" by blast
    then show "arrays t c = arrays s c" by (simp add: t_parts)
  qed (simp add: t_parts)
next
  case (ReadDone i)
  then obtain b p k where r: "phases s i = Reading b p k" "k = nat (ContentLength (req i))" and t: "t = enter i (Scoring b p k) s"
    using assms(4) by (auto split: phase.splits if_splits)
  have "sound_phase useAVX2 h (req i) (arrays s) (Reading b p k)" using assms(1) r(1) unfolding sound_def by metis
  then show ?thesis unfolding t
    by (intro sound_enter [OF assms(1), of i]) (use full_read_delivered r(2) in \<open>simp_all add: pool_simps\<close>)
next
  case (ReadFailed i)
  then obtain b p k body where r: "phases s i = Reading b p k" "Body (req i) = Some body" "k < nat (ContentLength (req i))"
      "k = length (bodyBytes body)"
    and t: "t = enter i (Finished (writeScoreRaw 400 0)) (put_idle p b s)"
    using assms(4) by (auto split: phase.splits option.splits if_splits)
  have "sound_phase useAVX2 h (req i) (arrays s) (Reading b p k)" using assms(1) r(1) unfolding sound_def by metis
  then have "writeScoreRaw 400 0 = alone useAVX2 h (req i)" using r(2-4) by (intro failed_read_alone) auto
  then show ?thesis unfolding t by (intro sound_enter [OF assms(1), of i]) (simp_all add: pool_simps)
next
  case (Count i)
  then obtain b p k where r: "phases s i = Scoring b p k"
    and t: "t = enter i (Answered b p (count_outcome useAVX2 h (take k (arrays s b)))) s"
    using assms(4) by (auto split: phase.splits)
  have "sound_phase useAVX2 h (req i) (arrays s) (Scoring b p k)" using assms(1) r unfolding sound_def by metis
  then show ?thesis unfolding t
    by (intro sound_enter [OF assms(1), of i]) (use count_outcome_alone in \<open>simp_all add: pool_simps\<close>)
next
  case (Release i)
  then obtain b p r where r: "phases s i = Answered b p r" and t: "t = enter i (Finished r) (put_idle p b s)"
    using assms(4) by (auto split: phase.splits)
  have "sound_phase useAVX2 h (req i) (arrays s) (Answered b p r)" using assms(1) r unfolding sound_def by metis
  then show ?thesis unfolding t by (intro sound_enter [OF assms(1), of i]) (simp_all add: pool_simps)
qed

lemma sound_reachable:
  assumes "pool_reachable useAVX2 h req s" "bodyLimit h < 9223372036854775807"
  shows "sound useAVX2 h req s"
  using assms(1)
proof (induction rule: pool_reachable.induct)
  case start
  then show ?case by (simp add: sound_def initial_pool_def)
next
  case (next_step s t)
  from next_step.hyps(2) obtain e where "handler_event useAVX2 h req e s = Some t" by (rule handler_stepE)
  with sound_event [OF next_step.IH one_owner_reachable [OF next_step.hyps(1)] assms(2)] show ?case .
qed

subsection \<open>No request waits for another\<close>

text \<open>The steps a request has left at most; a read of at least one byte is a step.\<close>

definition steps_left :: "request \<Rightarrow> phase \<Rightarrow> nat" where
  "steps_left r p =
     (case p of
        Arrived \<Rightarrow> nat (ContentLength r) + 4 | Reading b pooled k \<Rightarrow> nat (ContentLength r) - k + 3
      | Scoring b pooled k \<Rightarrow> 2 | Answered b pooled outcome \<Rightarrow> 1 | Finished outcome \<Rightarrow> 0)"

fun event_of :: "pool_event \<Rightarrow> nat option" where
  "event_of (Collect b) = None"
| "event_of (Begin i) = Some i"
| "event_of (GetIdle i b) = Some i"
| "event_of (GetNew i) = Some i"
| "event_of (Read i n) = Some i"
| "event_of (ReadDone i) = Some i"
| "event_of (ReadFailed i) = Some i"
| "event_of (Count i) = Some i"
| "event_of (Release i) = Some i"

lemma start_reading_phase: "\<exists>n p. phases (start_reading r i b s) = (phases s)(i := Reading n p 0)"
  by (auto simp: start_reading_def pool_simps allocate_def split: prod.split option.split)

text \<open>A step of a request uses one up, and leaves the others where they were.\<close>

lemma event_measure:
  assumes "handler_event useAVX2 h req e s = Some t"
  shows "case event_of e of
      None \<Rightarrow> phases t = phases s
    | Some i \<Rightarrow> steps_left (req i) (phases t i) < steps_left (req i) (phases s i) \<and> (\<forall>j. j \<noteq> i \<longrightarrow> phases t j = phases s j)"
proof (cases e)
  case (GetIdle i b)
  then have "phases s i = Arrived" "t = start_reading (req i) i b (s\<lparr>idle := remove1 b (idle s)\<rparr>)"
    using assms by (auto split: if_splits)
  with start_reading_phase [of "req i" i b "s\<lparr>idle := remove1 b (idle s)\<rparr>"] show ?thesis
    using GetIdle by (auto simp: steps_left_def)
next
  case (GetNew i)
  obtain n u where n: "allocate (case bodyPoolNew h of None \<Rightarrow> [] | Some p \<Rightarrow> p) s = (n, u)" by fastforce
  then have "phases s i = Arrived" "t = start_reading (req i) i n u" "phases u = phases s"
    using assms GetNew by (auto simp: allocate_def split: if_splits)
  with start_reading_phase [of "req i" i n u] show ?thesis using GetNew by (auto simp: steps_left_def)
qed (use assms in \<open>auto simp: pool_simps steps_left_def allocate_def split: if_splits option.splits read_result.splits phase.splits prod.splits\<close>)

text \<open>While it is not finished, a request has a step to make, whatever the others do.\<close>

lemma request_can_step:
  assumes "sound useAVX2 h req s" "bodyLimit h < 9223372036854775807" "\<And>r. phases s i \<noteq> Finished r"
  shows "\<exists>e t. event_of e = Some i \<and> handler_event useAVX2 h req e s = Some t"
proof (cases "phases s i")
  case Arrived
  show ?thesis
  proof (cases "wants_buffer (req i) (bodyLimit h)")
    case True
    with Arrived have "handler_event useAVX2 h req (GetNew i) s \<noteq> None" by (simp split: prod.split)
    then show ?thesis by (intro exI [of _ "GetNew i"]) auto
  next
    case False
    have "readRequestBodyWithPool (req i) (bodyLimit h) NoPool \<noteq> None"
      using readRequestBodyWithPool_delivered [OF assms(2), of "req i" NoPool] by (auto split: sum.splits)
    with Arrived False have "handler_event useAVX2 h req (Begin i) s \<noteq> None"
      by (auto split: prod.split option.split read_result.split)
    then show ?thesis by (intro exI [of _ "Begin i"]) auto
  qed
next
  case (Reading b p k)
  then have ph: "sound_phase useAVX2 h (req i) (arrays s) (Reading b p k)" using assms(1) unfolding sound_def by metis
  then obtain body where body: "Body (req i) = Some body" by (auto simp: wants_buffer_def)
  let ?cl = "nat (ContentLength (req i))"
  consider "k = ?cl" | "k < ?cl" "k = length (bodyBytes body)" | "k < ?cl" "k < length (bodyBytes body)"
    using ph body by fastforce
  then show ?thesis
  proof cases
    case 1
    then show ?thesis using Reading by (intro exI [of _ "ReadDone i"]) simp
  next
    case 2
    then show ?thesis using Reading body by (intro exI [of _ "ReadFailed i"]) simp
  next
    case 3
    then show ?thesis using Reading body by (intro exI [of _ "Read i 1"]) simp
  qed
next
  case (Scoring b p k)
  then show ?thesis by (intro exI [of _ "Count i"]) simp
next
  case (Answered b p r)
  then show ?thesis by (intro exI [of _ "Release i"]) simp
qed (use assms(3) in blast)

lemma sound_owner_step:
  assumes "sound useAVX2 h req s" "one_owner s" "bodyLimit h < 9223372036854775807" "handler_event useAVX2 h req e s = Some t"
  shows "sound useAVX2 h req t \<and> one_owner t"
  using sound_event [OF assms] one_owner_event [OF assms(2,4)] by simp

lemma request_finishes:
  assumes "sound useAVX2 h req s" "one_owner s" "bodyLimit h < 9223372036854775807"
  shows "\<exists>es t r. list_all (\<lambda>e. event_of e = Some i) es \<and> length es \<le> steps_left (req i) (phases s i) \<and>
    foldM (handler_event useAVX2 h req) es s = Some t \<and> phases t i = Finished r"
  using assms(1,2)
proof (induction "steps_left (req i) (phases s i)" arbitrary: s rule: less_induct)
  case less
  show ?case
  proof (cases "\<exists>r. phases s i = Finished r")
    case True
    then show ?thesis by (intro exI [of _ "[]"]) auto
  next
    case False
    with request_can_step [OF less.prems(1) assms(3)] obtain e t where
      e: "event_of e = Some i" "handler_event useAVX2 h req e s = Some t" by blast
    have d: "steps_left (req i) (phases t i) < steps_left (req i) (phases s i)" using event_measure [OF e(2)] e(1) by simp
    from less.hyps [OF d] sound_owner_step [OF less.prems assms(3) e(2)] obtain es u r where
      "list_all (\<lambda>e. event_of e = Some i) es" "length es \<le> steps_left (req i) (phases t i)"
      "foldM (handler_event useAVX2 h req) es t = Some u" "phases u i = Finished r" by blast
    with e d show ?thesis by (intro exI [of _ "e # es"]) auto
  qed
qed

text \<open>Runs of events are reachable.\<close>

lemma events_reachable:
  assumes "foldM (handler_event useAVX2 h req) es s = Some t" "pool_reachable useAVX2 h req s"
  shows "pool_reachable useAVX2 h req t"
  using assms
proof (induction es arbitrary: s)
  case (Cons e es)
  then obtain u where u: "handler_event useAVX2 h req e s = Some u" "foldM (handler_event useAVX2 h req) es u = Some t"
    by (auto simp: bind_eq_Some_conv)
  from u(1) have "handler_step useAVX2 h req s u" by (rule handler_step.step)
  with Cons.prems(2) have "pool_reachable useAVX2 h req u" by (rule pool_reachable.next_step)
  with u(2) show ?case by (rule Cons.IH)
qed simp

text \<open>A finished request has the outcome of the handler that runs alone, with any answer of the pool.\<close>

lemma finished_alone:
  assumes "pool_reachable useAVX2 h req s" "bodyLimit h < 9223372036854775807" "phases s i = Finished r"
  shows "\<exists>released. FraudScoreRaw useAVX2 h (req i) pool = Some (r, released)"
proof -
  have "sound_phase useAVX2 h (req i) (arrays s) (Finished r)"
    using sound_reachable [OF assms(1,2)] assms(3) unfolding sound_def by metis
  then show ?thesis using FraudScoreRaw_answer [OF assms(2), of useAVX2 "req i" pool] by (simp add: alone_def)
qed

text \<open>And what a request scores is what it was sent, at every moment until it has its answer.\<close>

lemma scored_bytes:
  assumes "pool_reachable useAVX2 h req s" "bodyLimit h < 9223372036854775807" "phases s i = Scoring b pooled k"
  shows "delivered (req i) (bodyLimit h) = Inr (take k (arrays s b))"
proof -
  have "sound_phase useAVX2 h (req i) (arrays s) (Scoring b pooled k)"
    using sound_reachable [OF assms(1,2)] assms(3) unfolding sound_def by metis
  then show ?thesis by simp
qed

end
