(* ===== verification/Evaluate.thy ===== *)
theory Evaluate
  imports Server Go_Strings
begin

text \<open>
  The evaluation command (\<open>cmd/evaluate/main.go\<close>): it runs the search of the server over labelled
  test entries and reports the confusion counts, the weighted errors and the latency percentiles. The
  clock, the JSON library and the file system are arguments: the time an entry takes, the decoding of the
  test data and of a misclassified request, the files that open and those that can be written. What is
  printed is the report. \<open>None\<close> is a panic, \<open>Inl\<close> the fatal errors.
\<close>

subsection \<open>The command line\<close>

record evaluate_flags =
  flagIndex :: string
  flagTestData :: string
  flagNProbe :: int
  flagAmbiguousNProbe :: int
  flagRepair :: bool
  flagLimit :: int
  flagErrorsOut :: string
  flagOnly :: string

definition default_flags :: evaluate_flags where
  "default_flags =
     \<lparr>flagIndex = ''resources/index.heindall.ivf8192.bin'', flagTestData = ''../../specs/test/test-data.json'',
      flagNProbe = 8, flagAmbiguousNProbe = 32, flagRepair = True, flagLimit = 0, flagErrorsOut = '''', flagOnly = ''''\<rparr>"

text \<open>The keys of the map, or \<open>None\<close> for the nil map; an entry that is no number is left out.\<close>

definition parseOnlySet :: "string \<Rightarrow> int set option" where
  "parseOnlySet value =
     (if TrimSpace value = '''' then None
      else Some (fold (\<lambda>part out. case Atoi (TrimSpace part) of None \<Rightarrow> out | Some idx \<Rightarrow> insert idx out)
        (Split value (CHR '','')) {}))"

lemma parseOnlySet_members:
  "parseOnlySet value = Some only \<Longrightarrow>
     only = {idx. \<exists>part \<in> set (Split value (CHR '','')). Atoi (TrimSpace part) = Some idx}"
proof -
  have "fold (\<lambda>part out. case Atoi (TrimSpace part) of None \<Rightarrow> out | Some idx \<Rightarrow> insert idx out) parts out =
      out \<union> {idx. \<exists>part \<in> set parts. Atoi (TrimSpace part) = Some idx}" for parts out
    by (induction parts arbitrary: out) (auto split: option.split)
  then show "parseOnlySet value = Some only \<Longrightarrow> ?thesis" by (auto simp: parseOnlySet_def split: if_splits)
qed

subsection \<open>The test data\<close>

record testEntry =
  Request :: "u8 list"
  ExpectedApproved :: bool

datatype fatal = LoadIndex server_error | LoadTestData server_error | WriteErrors

definition loadTestData :: "(u8 list \<Rightarrow> testEntry list option) \<Rightarrow> files \<Rightarrow> string \<Rightarrow> server_error + testEntry list" where
  "loadTestData decode files path =
     (case files path of
        None \<Rightarrow> Inl OpenFailed
      | Some f \<Rightarrow> (case decode f of None \<Rightarrow> Inl DecodeFailed | Some tests \<Rightarrow> Inr tests))"

subsection \<open>The loop\<close>

record 'req error_entry =
  errIndex :: nat
  errFrauds :: nat
  errApproved :: bool
  errExpected :: bool
  errRequest :: 'req

record 'req tally =
  tp :: nat
  tn :: nat
  fp :: nat
  fn :: nat
  invalid :: nat
  durations :: "int list"
  errors :: "'req error_entry list"

definition no_tally :: "'req tally" where
  "no_tally = \<lparr>tp = 0, tn = 0, fp = 0, fn = 0, invalid = 0, durations = [], errors = []\<rparr>"

definition errorEntry :: "(u8 list \<Rightarrow> 'req) \<Rightarrow> nat \<Rightarrow> testEntry \<Rightarrow> nat \<Rightarrow> bool \<Rightarrow> 'req error_entry" where
  "errorEntry unmarshal index entry frauds approved =
     \<lparr>errIndex = index, errFrauds = frauds, errApproved = approved, errExpected = ExpectedApproved entry,
      errRequest = unmarshal (Request entry)\<rparr>"

definition evaluate_entry ::
    "bool \<Rightarrow> QuantizedIndex \<Rightarrow> Normalization \<Rightarrow> (u8 list \<Rightarrow> 'req) \<Rightarrow> (nat \<Rightarrow> int) \<Rightarrow> int set option \<Rightarrow>
     nat \<times> testEntry \<Rightarrow> 'req tally \<Rightarrow> 'req tally option" where
  "evaluate_entry useAVX2 idx params unmarshal elapsed onlySet i_entry st =
     (case i_entry of (i, entry) \<Rightarrow>
      if (case onlySet of None \<Rightarrow> False | Some only \<Rightarrow> int i \<notin> only) then Some st
      else do {
        query \<leftarrow> VectorizeJSONQuantized (Request entry) params;
        case query of
          None \<Rightarrow> Some (st\<lparr>invalid := invalid st + 1\<rparr>)
        | Some query \<Rightarrow> do {
            frauds \<leftarrow> Search5Quantized useAVX2 idx query;
            let st = st\<lparr>durations := durations st @ [elapsed i]\<rparr>;
            let approved = frauds < 3;
            let wrong = errorEntry unmarshal i entry frauds approved;
            let st = (if approved = ExpectedApproved entry then
                        (if approved then st\<lparr>tn := tn st + 1\<rparr> else st\<lparr>tp := tp st + 1\<rparr>)
                      else if approved then st\<lparr>fn := fn st + 1, errors := errors st @ [wrong]\<rparr>
                      else st\<lparr>fp := fp st + 1, errors := errors st @ [wrong]\<rparr>);
            Some st } })"

definition evaluate_entries ::
    "bool \<Rightarrow> QuantizedIndex \<Rightarrow> Normalization \<Rightarrow> (u8 list \<Rightarrow> 'req) \<Rightarrow> (nat \<Rightarrow> int) \<Rightarrow> int set option \<Rightarrow>
     testEntry list \<Rightarrow> 'req tally option" where
  "evaluate_entries useAVX2 idx params unmarshal elapsed onlySet tests =
     foldM (evaluate_entry useAVX2 idx params unmarshal elapsed onlySet) (enumerate 0 tests) no_tally"

subsection \<open>The report\<close>

text \<open>The conversion of a float to \<open>int\<close> on amd64: toward zero, out of range the least value.\<close>

fun ftoi64 :: "flt \<Rightarrow> int" where
  "ftoi64 (Fin x) =
     (if - 9223372036854775808 \<le> trunc x \<and> trunc x \<le> 9223372036854775807 then trunc x else - 9223372036854775808)"
| "ftoi64 _ = - 9223372036854775808"

definition percentile :: "int list \<Rightarrow> flt \<Rightarrow> int option" where
  "percentile ds p =
     (if ds = [] then Some 0
      else
        let idx = ftoi64 (fmul binary64 (ffrom_int binary64 (int (length ds) - 1)) p) in
        if idx < 0 then None else get ds (nat idx))"

definition millis :: "int \<Rightarrow> flt" where
  "millis duration = fdiv binary64 (ffrom_int binary64 duration) (Fin 1000000)"

record report =
  total :: nat
  true_positive :: nat
  true_negative :: nat
  false_positive :: nat
  false_negative :: nat
  invalid_entries :: nat
  weighted_errors_E :: nat
  failure_rate :: flt
  p50_ms :: flt
  p95_ms :: flt
  p99_ms :: flt
  report_nprobe :: int
  report_ambiguous_nprobe :: int
  report_repair :: bool

definition summary :: "evaluate_flags \<Rightarrow> 'req tally \<Rightarrow> report option" where
  "summary flags st = do {
     let durations = sort (durations st);
     let total = tp st + tn st + fp st + fn st + invalid st;
     let weightedErrors = fp st + fn st * 3 + invalid st * 5;
     let failureRate =
       (if total > 0 then fdiv binary64 (ffrom_int binary64 (int (fp st + fn st + invalid st))) (ffrom_int binary64 (int total))
        else Fin 0);
     p50 \<leftarrow> percentile durations (rnd binary64 (50 / 100));
     p95 \<leftarrow> percentile durations (rnd binary64 (95 / 100));
     p99 \<leftarrow> percentile durations (rnd binary64 (99 / 100));
     Some \<lparr>total = total, true_positive = tp st, true_negative = tn st, false_positive = fp st, false_negative = fn st,
       invalid_entries = invalid st, weighted_errors_E = weightedErrors, failure_rate = failureRate,
       p50_ms = millis p50, p95_ms = millis p95, p99_ms = millis p99,
       report_nprobe = flagNProbe flags, report_ambiguous_nprobe = flagAmbiguousNProbe flags, report_repair = flagRepair flags\<rparr> }"

definition limit_entries :: "evaluate_flags \<Rightarrow> testEntry list \<Rightarrow> testEntry list" where
  "limit_entries flags tests =
     (if flagLimit flags > 0 \<and> flagLimit flags < int (length tests) then take (nat (flagLimit flags)) tests else tests)"

text \<open>The run: the report, with the misclassified entries that were written if a path was given.\<close>

definition evaluate_main ::
    "bool \<Rightarrow> (u8 list \<Rightarrow> testEntry list option) \<Rightarrow> (u8 list \<Rightarrow> 'req) \<Rightarrow> (nat \<Rightarrow> int) \<Rightarrow> files \<Rightarrow> (string \<Rightarrow> bool) \<Rightarrow>
     evaluate_flags \<Rightarrow> (fatal + report \<times> 'req error_entry list option) option" where
  "evaluate_main useAVX2 decode unmarshal elapsed files writable flags = do {
     r \<leftarrow> LoadBinaryIndex files (flagIndex flags);
     case r of
       Inl e \<Rightarrow> Some (Inl (LoadIndex e))
     | Inr idx \<Rightarrow>
         let idx = SetIVFSearch (flagNProbe flags) (flagAmbiguousNProbe flags) (flagRepair flags) idx in
         (case loadTestData decode files (flagTestData flags) of
            Inl e \<Rightarrow> Some (Inl (LoadTestData e))
          | Inr tests \<Rightarrow> do {
              let tests = limit_entries flags tests;
              let onlySet = parseOnlySet (flagOnly flags);
              st \<leftarrow> evaluate_entries useAVX2 idx DefaultNormalization unmarshal elapsed onlySet tests;
              if flagErrorsOut flags \<noteq> '''' \<and> \<not> writable (flagErrorsOut flags) then Some (Inl WriteErrors)
              else do {
                report \<leftarrow> summary flags st;
                Some (Inr (report, if flagErrorsOut flags \<noteq> '''' then Some (errors st) else None)) } }) }"

subsection \<open>The counts\<close>

text \<open>A test entry posted to the server, and what the response says of it: invalid, or approved or not.\<close>

definition posted :: "testEntry \<Rightarrow> request" where
  "posted entry = \<lparr>ContentLength = int (length (Request entry)),
     Body = Some \<lparr>bodyBytes = Request entry, bodyFails = False\<rparr>\<rparr>"

definition decision :: "bool \<Rightarrow> Handlers \<Rightarrow> testEntry \<Rightarrow> bool option" where
  "decision useAVX2 h entry =
     (case answer useAVX2 h (posted entry) of
        None \<Rightarrow> None
      | Some (status, k) \<Rightarrow> if status = 200 then Some (k < 3) else None)"

definition chosen :: "int set option \<Rightarrow> (nat \<times> testEntry) list \<Rightarrow> (nat \<times> testEntry) list" where
  "chosen onlySet = filter (\<lambda>(i, entry). onlySet = None \<or> int i \<in> the onlySet)"

definition tallied :: "bool \<Rightarrow> Handlers \<Rightarrow> (nat \<times> testEntry) list \<Rightarrow> 'req tally \<Rightarrow> bool" where
  "tallied useAVX2 h xs st \<longleftrightarrow>
     tp st = length (filter (\<lambda>(i, e). decision useAVX2 h e = Some False \<and> \<not> ExpectedApproved e) xs) \<and>
     tn st = length (filter (\<lambda>(i, e). decision useAVX2 h e = Some True \<and> ExpectedApproved e) xs) \<and>
     fp st = length (filter (\<lambda>(i, e). decision useAVX2 h e = Some False \<and> ExpectedApproved e) xs) \<and>
     fn st = length (filter (\<lambda>(i, e). decision useAVX2 h e = Some True \<and> \<not> ExpectedApproved e) xs) \<and>
     invalid st = length (filter (\<lambda>(i, e). decision useAVX2 h e = None) xs) \<and>
     length (durations st) = length (filter (\<lambda>(i, e). decision useAVX2 h e \<noteq> None) xs) \<and>
     map (\<lambda>w. (errIndex w, errApproved w)) (errors st) =
       map (\<lambda>(i, e). (i, \<not> ExpectedApproved e))
         (filter (\<lambda>(i, e). decision useAVX2 h e = Some (\<not> ExpectedApproved e)) xs)"

lemma posted_delivered:
  "limit < 0 \<or> int (length (Request entry)) \<le> limit \<Longrightarrow> delivered (posted entry) limit = Inr (Request entry)"
  by (auto simp: delivered_def posted_def)

text \<open>The command decides on an entry as the server does.\<close>

lemma entry_decision:
  fixes idx risk limit params
  defines "h \<equiv> NewHandlers (NewService params risk (QuantizedSearcher idx)) limit"
  assumes "searcher_ok (QuantizedSearcher idx)" "\<not> panics (Request entry)" "limit < 0 \<or> int (length (Request entry)) \<le> limit"
  shows "(VectorizeJSONQuantized (Request entry) params = Some None \<and> decision useAVX2 h entry = None) \<or>
    (\<exists>q k. VectorizeJSONQuantized (Request entry) params = Some (Some q) \<and> Search5Quantized useAVX2 idx q = Some k \<and>
       decision useAVX2 h entry = Some (k < 3))"
proof -
  have h: "bodyLimit h = limit" "scoreService h = NewService params risk (QuantizedSearcher idx)"
    by (simp_all add: h_def NewHandlers_def)
  note d = posted_delivered [OF assms(4)]
  show ?thesis
  proof (cases "body_fails (Request entry)")
    case True
    then have v: "VectorizeJSONQuantized (Request entry) params = Some None"
      using vectorize_with_cases [OF assms(3)] by (auto simp: Vectorize_Json_factor)
    then have "FraudCountJSON useAVX2 (scoreService h) (Request entry) = Some None"
      by (simp add: h FraudCountJSON_def NewService_def ok_then_def)
    with v show ?thesis by (simp add: decision_def answer_def h d)
  next
    case False
    then obtain q where q: "VectorizeJSONQuantized (Request entry) params = Some (Some q)"
      using vectorize_with_cases [OF assms(3)] by (auto simp: Vectorize_Json_factor)
    have "wf_index idx" "centroid_blocks_ok idx" "params_ok idx" using assms(2) by (simp_all add: searcher_ok_def)
    from Search5Quantized_total [OF this VectorizeJSONQuantized_query [OF q], of useAVX2]
    obtain k where k: "k \<le> 5" "Search5Quantized useAVX2 idx q = Some k" by blast
    have "FraudCountJSON useAVX2 (scoreService h) (Request entry) = Some (Some k)"
      using FraudCountJSON_quantized [OF q k(2)] by (simp add: h)
    with q k show ?thesis by (auto simp: decision_def answer_def h d min_absorb2)
  qed
qed

lemma evaluate_entry_tallied:
  fixes idx risk limit params
  defines "h \<equiv> NewHandlers (NewService params risk (QuantizedSearcher idx)) limit"
  assumes "searcher_ok (QuantizedSearcher idx)" "tallied useAVX2 h (chosen onlySet ys) st"
    and "(i, e) \<in> set (chosen onlySet [(i, e)]) \<Longrightarrow>
      \<not> panics (Request e) \<and> (limit < 0 \<or> int (length (Request e)) \<le> limit)"
  shows "\<exists>st'. evaluate_entry useAVX2 idx params unmarshal elapsed onlySet (i, e) st = Some st' \<and>
    tallied useAVX2 h (chosen onlySet (ys @ [(i, e)])) st'"
proof (cases "onlySet = None \<or> int i \<in> the onlySet")
  case False
  then obtain only where only: "onlySet = Some only" "int i \<notin> only" by (cases onlySet) simp_all
  then have c: "chosen onlySet (ys @ [(i, e)]) = chosen onlySet ys" by (simp add: chosen_def)
  show ?thesis unfolding c using only assms(3) by (simp add: evaluate_entry_def)
next
  case True
  then have c: "chosen onlySet (ys @ [(i, e)]) = chosen onlySet ys @ [(i, e)]" by (simp add: chosen_def)
  have skip: "\<not> (case onlySet of None \<Rightarrow> False | Some only \<Rightarrow> int i \<notin> only)" using True by (auto split: option.split)
  from True assms(4) have "\<not> panics (Request e)" "limit < 0 \<or> int (length (Request e)) \<le> limit" by (simp_all add: chosen_def)
  from entry_decision [OF assms(2) this, of params useAVX2 risk, folded h_def] show ?thesis
  proof (elim disjE exE conjE)
    assume "VectorizeJSONQuantized (Request e) params = Some None" "decision useAVX2 h e = None"
    with assms(3) skip show ?thesis unfolding c by (simp add: evaluate_entry_def tallied_def)
  next
    fix q k assume "VectorizeJSONQuantized (Request e) params = Some (Some q)" "Search5Quantized useAVX2 idx q = Some k"
      "decision useAVX2 h e = Some (k < 3)"
    with assms(3) skip show ?thesis unfolding c
      by (cases "k < 3"; cases "ExpectedApproved e") (simp_all add: evaluate_entry_def tallied_def errorEntry_def Let_def ex_bool_eq)
  qed
qed

lemma evaluate_entries_tallied:
  fixes idx risk limit params
  defines "h \<equiv> NewHandlers (NewService params risk (QuantizedSearcher idx)) limit"
  assumes "searcher_ok (QuantizedSearcher idx)"
    and "\<And>i e. (i, e) \<in> set (chosen onlySet (enumerate 0 tests)) \<Longrightarrow>
      \<not> panics (Request e) \<and> (limit < 0 \<or> int (length (Request e)) \<le> limit)"
  shows "\<exists>st. evaluate_entries useAVX2 idx params unmarshal elapsed onlySet tests = Some st \<and>
    tallied useAVX2 h (chosen onlySet (enumerate 0 tests)) st"
  unfolding evaluate_entries_def
proof (rule foldM_invariant [where P = "\<lambda>ys st. tallied useAVX2 h (chosen onlySet ys) st"])
  show "tallied useAVX2 h (chosen onlySet []) no_tally" by (simp add: tallied_def no_tally_def chosen_def)
next
  fix ys x zs and st :: "'a tally"
  assume xs: "enumerate 0 tests = ys @ x # zs" and t: "tallied useAVX2 h (chosen onlySet ys) st"
  obtain i e where x: "x = (i, e)" by (cases x)
  have "(i, e) \<in> set (chosen onlySet (enumerate 0 tests))" if "(i, e) \<in> set (chosen onlySet [(i, e)])"
    using that xs x by (auto simp: chosen_def split: if_splits)
  with assms(3) show "\<exists>s'. evaluate_entry useAVX2 idx params unmarshal elapsed onlySet x st = Some s' \<and>
      tallied useAVX2 h (chosen onlySet (ys @ [x])) s'"
    unfolding x h_def by (intro evaluate_entry_tallied [OF assms(2) t [unfolded h_def]]) auto
qed

lemma tallied_total:
  assumes "tallied useAVX2 h xs st"
  shows "tp st + tn st + fp st + fn st + invalid st = length xs" "length (durations st) + invalid st = length xs"
    "length (errors st) = fp st + fn st"
proof -
  have "length (filter (\<lambda>(i, e). decision useAVX2 h e = Some False \<and> \<not> ExpectedApproved e) xs) +
      length (filter (\<lambda>(i, e). decision useAVX2 h e = Some True \<and> ExpectedApproved e) xs) +
      length (filter (\<lambda>(i, e). decision useAVX2 h e = Some False \<and> ExpectedApproved e) xs) +
      length (filter (\<lambda>(i, e). decision useAVX2 h e = Some True \<and> \<not> ExpectedApproved e) xs) +
      length (filter (\<lambda>(i, e). decision useAVX2 h e = None) xs) = length xs"
    by (induction xs) auto
  then show "tp st + tn st + fp st + fn st + invalid st = length xs" using assms by (simp add: tallied_def)
  have "length (filter (\<lambda>(i, e). decision useAVX2 h e \<noteq> None) xs) +
      length (filter (\<lambda>(i, e). decision useAVX2 h e = None) xs) = length xs"
    by (induction xs) auto
  then show "length (durations st) + invalid st = length xs" using assms by (simp add: tallied_def)
  have "length (filter (\<lambda>(i, e). decision useAVX2 h e = Some (\<not> ExpectedApproved e)) xs) =
      length (filter (\<lambda>(i, e). decision useAVX2 h e = Some False \<and> ExpectedApproved e) xs) +
      length (filter (\<lambda>(i, e). decision useAVX2 h e = Some True \<and> \<not> ExpectedApproved e) xs)"
    by (induction xs) auto
  moreover have "length (map (\<lambda>w. (errIndex w, errApproved w)) (errors st)) =
      length (filter (\<lambda>(i, e). decision useAVX2 h e = Some (\<not> ExpectedApproved e)) xs)"
    using assms unfolding tallied_def by (metis (no_types, lifting) length_map)
  ultimately show "length (errors st) = fp st + fn st" using assms by (simp add: tallied_def)
qed

subsection \<open>The percentiles\<close>

lemma rnd64_half:
  assumes "n < 9007199254740992"
  shows "rnd binary64 (of_nat n / 2) = Fin (of_nat n / 2)"
proof (cases "n = 0")
  case False
  have "(of_nat n :: rat) < 9007199254740992" using assms by (metis of_nat_less_iff of_nat_numeral)
  then have "\<bar>of_nat n / 2 :: rat\<bar> < pow2 52" by (simp add: pow2_def)
  then have "ulp_exp binary64 (of_nat n / 2) \<le> - 1"
    using False by (intro ulp_exp_le [of _ 52]) (auto simp: binary64_def)
  moreover have p: "pow2 (- 1) = 1 / 2" by (simp add: pow2_def)
  moreover have "\<bar>of_nat n / 2 :: rat\<bar> \<le> max_finite binary64"
    using \<open>(of_nat n :: rat) < 9007199254740992\<close> by (simp add: binary64_def)
  ultimately have "\<exists>y. rnd binary64 (of_nat n / 2) = Fin y \<and> of_nat n / 2 \<le> y \<and> y \<le> of_nat n / 2"
    using rnd_between [of "int n" "- 1" "of_nat n / 2" "int n" binary64] by (simp add: p)
  then show ?thesis by auto
qed (simp add: rnd_def)

text \<open>The index of a fraction is inside the list, and grows with the fraction.\<close>

lemma rnd64_scaled:
  assumes "n < 9007199254740992" "0 \<le> r" "r \<le> 1"
  shows "\<exists>y. rnd binary64 (of_nat n * r) = Fin y \<and> 0 \<le> y \<and> y \<le> of_nat n"
proof (cases "of_nat n * r = 0")
  case False
  have n: "(of_nat n :: rat) < 9007199254740992" using assms(1) by (metis of_nat_less_iff of_nat_numeral)
  have x: "0 \<le> of_nat n * r" "of_nat n * r \<le> of_nat n" using assms(2,3) by (simp_all add: mult_left_le)
  have "of_nat n * r < 9007199254740992" using x(2) n by linarith
  then have "ulp_exp binary64 (of_nat n * r) \<le> 0"
    using False x(1) by (intro ulp_exp_le [of _ 53]) (auto simp: binary64_def pow2_def)
  moreover have "\<bar>of_nat n :: rat\<bar> \<le> max_finite binary64" using n by (simp add: binary64_def)
  ultimately show ?thesis
    using rnd_between [of 0 0 "of_nat n * r" "int n" binary64] x by (simp add: pow2_def)
qed (simp add: rnd_def)

lemma percentile_nth:
  assumes "length ds = Suc n" "n < 9007199254740992" "0 \<le> r" "r \<le> 1" "rnd binary64 (of_nat n * r) = Fin y"
  shows "percentile ds (Fin r) = Some (ds ! nat \<lfloor>y\<rfloor>)" "nat \<lfloor>y\<rfloor> < length ds"
proof -
  have y: "0 \<le> y" "y \<le> of_nat n" using rnd64_scaled [OF assms(2-4)] assms(5) by auto
  then have f: "0 \<le> \<lfloor>y\<rfloor>" "\<lfloor>y\<rfloor> \<le> int n" by (simp_all add: floor_le_iff)
  then show "nat \<lfloor>y\<rfloor> < length ds" using assms(1) by simp
  have "ffrom_int binary64 (int (length ds) - 1) = Fin (of_nat n)"
    using rnd64_nat [OF assms(2)] assms(1) by (simp add: ffrom_int_def)
  moreover have "ftoi64 (Fin y) = \<lfloor>y\<rfloor>" using y f assms(2) by (simp add: trunc_def)
  moreover have "ds \<noteq> []" using assms(1) by auto
  ultimately show "percentile ds (Fin r) = Some (ds ! nat \<lfloor>y\<rfloor>)"
    using f assms(1) by (simp add: percentile_def assms(5) Let_def)
qed

lemma percentile_mono:
  assumes "sorted ds" "ds \<noteq> []" "length ds < 9007199254740992" "0 \<le> r" "r \<le> r'" "r' \<le> 1"
  shows "\<exists>a b. percentile ds (Fin r) = Some a \<and> percentile ds (Fin r') = Some b \<and> a \<le> b \<and>
    a \<in> set ds \<and> b \<in> set ds"
proof -
  obtain n where n: "length ds = Suc n" using assms(2) by (cases ds) auto
  have lt: "n < 9007199254740992" using n assms(3) by simp
  obtain y where y: "rnd binary64 (of_nat n * r) = Fin y" "0 \<le> y" using rnd64_scaled [OF lt, of r] assms(4-6) by auto
  obtain z where z: "rnd binary64 (of_nat n * r') = Fin z" using rnd64_scaled [OF lt, of r'] assms(4-6) by auto
  have "0 \<le> of_nat n * r" "of_nat n * r \<le> of_nat n * r'" using assms(4) mult_left_mono [OF assms(5), of "of_nat n"] by simp_all
  then have "y \<le> z" using y(1) z by (rule rnd_mono) (simp add: binary64_def)
  then have "nat \<lfloor>y\<rfloor> \<le> nat \<lfloor>z\<rfloor>" by (intro nat_mono floor_mono)
  moreover note py = percentile_nth [OF n lt _ _ y(1)] and pz = percentile_nth [OF n lt _ _ z]
  ultimately have "ds ! nat \<lfloor>y\<rfloor> \<le> ds ! nat \<lfloor>z\<rfloor>" using assms by (intro sorted_nth_mono) simp_all
  moreover have "ds ! nat \<lfloor>y\<rfloor> \<in> set ds" "ds ! nat \<lfloor>z\<rfloor> \<in> set ds" using py(2) pz(2) assms(4-6) by simp_all
  ultimately show ?thesis using py(1) pz(1) assms(4-6) by simp
qed

lemma report_fractions:
  "rnd binary64 (50 / 100) = Fin (1 / 2)"
  "\<exists>r s. rnd binary64 (95 / 100) = Fin r \<and> rnd binary64 (99 / 100) = Fin s \<and> 1 / 2 \<le> r \<and> r \<le> s \<and> s \<le> 1"
proof -
  show half: "rnd binary64 (50 / 100) = Fin (1 / 2)" using rnd64_half [of 1] by simp
  obtain r s where r: "rnd binary64 (95 / 100) = Fin r" "rnd binary64 (99 / 100) = Fin s" "s \<le> 1"
    using rnd_unit [OF fine_formats(2), of "95 / 100"] rnd_unit [OF fine_formats(2), of "99 / 100"] by auto
  have "1 / 2 \<le> r" "r \<le> s"
    using rnd_mono [OF _ _ half r(1)] rnd_mono [OF _ _ r(1,2)] by (simp_all add: binary64_def)
  with r show "\<exists>r s. rnd binary64 (95 / 100) = Fin r \<and> rnd binary64 (99 / 100) = Fin s \<and> 1 / 2 \<le> r \<and> r \<le> s \<and> s \<le> 1"
    by blast
qed

text \<open>The reported latencies: the lower median, then two values that do not decrease, all measured.\<close>

lemma reported_percentiles:
  assumes "ds \<noteq> []" "length ds < 9007199254740992"
  shows "\<exists>b c. percentile (sort ds) (rnd binary64 (50 / 100)) = Some (sort ds ! ((length ds - 1) div 2)) \<and>
    percentile (sort ds) (rnd binary64 (95 / 100)) = Some b \<and> percentile (sort ds) (rnd binary64 (99 / 100)) = Some c \<and>
    sort ds ! ((length ds - 1) div 2) \<le> b \<and> b \<le> c \<and> b \<in> set ds \<and> c \<in> set ds"
proof -
  obtain n where n: "length (sort ds) = Suc n" using assms(1) by (cases ds) auto
  have lt: "n < 9007199254740992" using n assms(2) by simp
  have "\<lfloor>of_nat n / 2 :: rat\<rfloor> = int (n div 2)"
    using floor_divide_of_int_eq [of "int n" 2, where 'a = rat] by (simp add: zdiv_int)
  then have half: "percentile (sort ds) (Fin (1 / 2)) = Some (sort ds ! ((length ds - 1) div 2))"
    using percentile_nth(1) [OF n lt, of "1 / 2" "of_nat n / 2"] rnd64_half [OF lt] n by simp
  obtain r s where r: "rnd binary64 (95 / 100) = Fin r" "rnd binary64 (99 / 100) = Fin s" "1 / 2 \<le> r" "r \<le> s" "s \<le> 1"
    using report_fractions(2) by blast
  have p: "sorted (sort ds)" "sort ds \<noteq> []" "length (sort ds) < 9007199254740992"
    using assms by (simp, metis set_empty set_sort, simp)
  from percentile_mono [OF p, of "1 / 2" r] percentile_mono [OF p, of r s] r half show ?thesis
    unfolding report_fractions(1) r(1,2) by auto
qed

lemma summary_returns:
  assumes "length (durations st) < 9007199254740992"
  shows "\<exists>r. summary flags st = Some r"
proof (cases "durations st = []")
  case True
  then show ?thesis by (simp add: summary_def percentile_def Let_def)
next
  case False
  from reported_percentiles [OF False assms] show ?thesis by (auto simp: summary_def Let_def)
qed

lemma summary_percentiles:
  assumes "summary flags st = Some report" "percentile (sort (durations st)) (rnd binary64 (50 / 100)) = Some a"
    and "percentile (sort (durations st)) (rnd binary64 (95 / 100)) = Some b"
    and "percentile (sort (durations st)) (rnd binary64 (99 / 100)) = Some c"
  shows "p50_ms report = millis a" "p95_ms report = millis b" "p99_ms report = millis c"
  using assms by (auto simp: summary_def Let_def)

subsection \<open>The command measures the server\<close>

definition selected :: "evaluate_flags \<Rightarrow> testEntry list \<Rightarrow> (nat \<times> testEntry) list" where
  "selected flags tests = chosen (parseOnlySet (flagOnly flags)) (enumerate 0 (limit_entries flags tests))"

definition same_search :: "evaluate_flags \<Rightarrow> Config \<Rightarrow> bool" where
  "same_search flags cfg \<longleftrightarrow> IndexPath cfg = flagIndex flags \<and> IndexPath cfg \<noteq> '''' \<and> ANNNProbe cfg = flagNProbe flags \<and>
     ANNAmbiguousProbe cfg = flagAmbiguousNProbe flags \<and> ANNRepair cfg = flagRepair flags"

lemma length_selected: "length (selected flags tests) \<le> length tests"
proof -
  have "length (selected flags tests) \<le> length (enumerate 0 (limit_entries flags tests))"
    unfolding selected_def chosen_def by (rule length_filter_le)
  then show ?thesis by (auto simp: limit_entries_def split: if_splits)
qed

lemma summary_fields:
  assumes "summary flags st = Some report"
  shows "total report = tp st + tn st + fp st + fn st + invalid st" "true_positive report = tp st" "true_negative report = tn st"
    "false_positive report = fp st" "false_negative report = fn st" "invalid_entries report = invalid st"
    "weighted_errors_E report = fp st + fn st * 3 + invalid st * 5"
  using assms by (auto simp: summary_def Let_def bind_eq_Some_conv)

lemma evaluation_of_server:
  assumes "refs_ok refs" "accepts refs opts" "build_clusters (length refs) (optClusters opts) \<le> 8192"
    and "WriteIVFBinaryIndex refs opts = Some (Inr bytes)" "files (IndexPath cfg) = Some bytes" "same_search flags cfg"
    and "loadTestData decode files (flagTestData flags) = Inr tests" "length tests < 9007199254740992"
    and "\<And>i e. (i, e) \<in> set (selected flags tests) \<Longrightarrow> \<not> panics (Request e) \<and> int (length (Request e)) \<le> BodyLimitBytes cfg"
    and "flagErrorsOut flags = '''' \<or> writable (flagErrorsOut flags)"
  shows "\<exists>h report written. NewServer gunzip refs_decode files cfg = Some (Inr h) \<and>
    evaluate_main useAVX2 decode unmarshal elapsed files writable flags = Some (Inr (report, written)) \<and>
    total report = length (selected flags tests) \<and>
    true_positive report = length (filter (\<lambda>(i, e). decision useAVX2 h e = Some False \<and> \<not> ExpectedApproved e) (selected flags tests)) \<and>
    true_negative report = length (filter (\<lambda>(i, e). decision useAVX2 h e = Some True \<and> ExpectedApproved e) (selected flags tests)) \<and>
    false_positive report = length (filter (\<lambda>(i, e). decision useAVX2 h e = Some False \<and> ExpectedApproved e) (selected flags tests)) \<and>
    false_negative report = length (filter (\<lambda>(i, e). decision useAVX2 h e = Some True \<and> \<not> ExpectedApproved e) (selected flags tests)) \<and>
    invalid_entries report = length (filter (\<lambda>(i, e). decision useAVX2 h e = None) (selected flags tests)) \<and>
    weighted_errors_E report = false_positive report + 3 * false_negative report + 5 * invalid_entries report"
proof -
  have path: "IndexPath cfg \<noteq> ''''" and flags: "flagIndex flags = IndexPath cfg" "flagNProbe flags = ANNNProbe cfg"
      "flagAmbiguousNProbe flags = ANNAmbiguousProbe cfg" "flagRepair flags = ANNRepair cfg"
    using assms(6) by (auto simp: same_search_def)
  obtain idx where idx: "loadSearcher gunzip refs_decode files cfg = Some (Inr (QuantizedSearcher idx))" "searchable refs idx"
    using configured_server_index [where cfg = cfg and files = files, OF assms(1-5) path] by metis
  then obtain r where r: "LoadBinaryIndex files (IndexPath cfg) = Some r" "map_sum (\<lambda>e. e) (\<lambda>idx. QuantizedSearcher
      (SetIVFSearch (ANNNProbe cfg) (ANNAmbiguousProbe cfg) (ANNRepair cfg) idx)) r = Inr (QuantizedSearcher idx)"
    using path by (auto simp: loadSearcher_def bind_eq_Some_conv)
  then obtain raw where raw: "LoadBinaryIndex files (IndexPath cfg) = Some (Inr raw)"
      "idx = SetIVFSearch (ANNNProbe cfg) (ANNAmbiguousProbe cfg) (ANNRepair cfg) raw"
    by (cases r) auto
  define h where "h = NewHandlers (NewService DefaultNormalization DefaultMCCRisk (QuantizedSearcher idx)) (BodyLimitBytes cfg)"
  have server: "NewServer gunzip refs_decode files cfg = Some (Inr h)" by (simp add: NewServer_def idx(1) h_def)
  obtain st where st: "evaluate_entries useAVX2 idx DefaultNormalization unmarshal elapsed (parseOnlySet (flagOnly flags))
        (limit_entries flags tests) = Some st"
    and tallied: "tallied useAVX2 h (selected flags tests) st"
    using evaluate_entries_tallied [OF searchable_searcher [OF idx(2)], where onlySet = "parseOnlySet (flagOnly flags)"
        and tests = "limit_entries flags tests" and limit = "BodyLimitBytes cfg" and ?useAVX2.0 = useAVX2
        and params = DefaultNormalization and risk = DefaultMCCRisk and unmarshal = unmarshal and elapsed = elapsed] assms(9)
    unfolding selected_def h_def by blast
  note t = tallied_total [OF tallied]
  have "length (durations st) < 9007199254740992" using t(2) length_selected [of flags tests] assms(8) by linarith
  from summary_returns [OF this] obtain report where report: "summary flags st = Some report" by blast
  have "\<exists>written. evaluate_main useAVX2 decode unmarshal elapsed files writable flags = Some (Inr (report, written))"
    using assms(7,10) st raw report by (auto simp: evaluate_main_def flags)
  with server tallied [unfolded tallied_def] summary_fields [OF report] t(1) show ?thesis by (auto simp: mult.commute)
qed

end
