(* ===== verification/Lb_Tasks.thy ===== *)
theory Lb_Tasks
  imports Lb_Correct
begin

text \<open>
  The running load balancer (\<open>main.rs\<close>, \<open>serve\<close> in \<open>proxy.rs\<close>): start-up, the accept loop and
  the tasks it spawns, one per client. \<open>handle_client\<close> is cut into the steps between which other tasks run: the
  counter and the lock of each pool are shared, a connection belongs to the task that took it from the pool. What the
  runtime and the network do is in the events: who is accepted, how a connection attempt ends, whether a write to a
  client succeeds. \<open>Lb_Proxy\<close> runs the same steps for one client without interruption (\<open>alone_is_handle_client\<close>).
\<close>

subsection \<open>Start-up\<close>

text \<open>The calls of \<open>bind\<close>, each of which may fail; the parser of socket addresses and its test for version 4 are
  arguments.\<close>

datatype 'addr bind_call =
  SocketNew bool
| SetReuseAddress
| SetNonblocking
| Bind 'addr
| ListenBacklog nat
| FromStd

fun calls_until_error :: "('c \<Rightarrow> bool) \<Rightarrow> 'c list \<Rightarrow> 'c list \<times> bool" where
  "calls_until_error succeeds [] = ([], True)"
| "calls_until_error succeeds (call # calls) =
     (if succeeds call then apfst ((#) call) (calls_until_error succeeds calls) else ([call], False))"

definition lb_bind ::
    "(string \<Rightarrow> 'addr option) \<Rightarrow> ('addr \<Rightarrow> bool) \<Rightarrow> ('addr bind_call \<Rightarrow> bool) \<Rightarrow> string \<Rightarrow> 'addr bind_call list \<times> bool" where
  "lb_bind parse is_ipv4 succeeds addr =
     (case parse addr of
        None \<Rightarrow> ([], False)
      | Some a \<Rightarrow> calls_until_error succeeds
          [SocketNew (is_ipv4 a), SetReuseAddress, SetNonblocking, Bind a, ListenBacklog 4096, FromStd])"

text \<open>Making a connection: for TCP also the socket option may fail.\<close>

datatype attempt = TimedOut | Refused | Connected conn bool

definition opened :: "'addr UpstreamEndpoint \<Rightarrow> attempt \<Rightarrow> conn option" where
  "opened endpoint r =
     (case r of
        TimedOut \<Rightarrow> None
      | Refused \<Rightarrow> None
      | Connected c nodelay \<Rightarrow> (case endpoint of Tcp a \<Rightarrow> if nodelay then Some c else None | Unix path \<Rightarrow> Some c))"

definition new_UpstreamPool :: "nat \<Rightarrow> UpstreamPool" where
  "new_UpstreamPool bound = \<lparr>idle_conns = [], max_idle = bound, accepts_next = [], received = []\<rparr>"

subsection \<open>Tasks\<close>

text \<open>Where a task is: in the loop of \<open>handle_client\<close>, or with a request at the \<open>offset\<close>-th upstream from
  \<open>first\<close>; \<open>Closed True\<close> is \<open>Ok(())\<close>. A client that is not accepted yet waits in the backlog.\<close>

datatype stage =
  Backlog
| AwaitingRequest
| Choosing "u8 list"
| Trying "u8 list" nat nat
| Connecting "u8 list" nat nat
| Writing "u8 list" nat nat conn
| AwaitingResponse "u8 list" nat nat conn
| Releasing "u8 list" nat conn
| Clearing "u8 list" nat nat
| Replying "u8 list option"
| Closed bool

record lb_task =
  client_conn :: stream
  replies :: "u8 list list"
  stage :: stage

record 'addr lb_state =
  running :: bool
  endpoints :: "'addr UpstreamEndpoint list"
  shared :: Proxy
  tasks :: "nat \<Rightarrow> lb_task"

definition serve :: "'addr UpstreamEndpoint list \<Rightarrow> Proxy \<Rightarrow> (nat \<Rightarrow> stream) \<Rightarrow> 'addr lb_state" where
  "serve es p clients =
     \<lparr>running = True, endpoints = es, shared = p,
      tasks = (\<lambda>i. \<lparr>client_conn = clients i, replies = [], stage = Backlog\<rparr>)\<rparr>"

text \<open>\<open>async_main\<close>: a panic, an error, or the accept loop is entered.\<close>

datatype 'addr started = Panicked | Failed | Serving "'addr lb_state"

definition async_main ::
    "(string \<Rightarrow> string option) \<Rightarrow> (string \<Rightarrow> 'addr list option) \<Rightarrow> (string \<Rightarrow> 'addr option) \<Rightarrow> ('addr \<Rightarrow> bool) \<Rightarrow>
     ('addr bind_call \<Rightarrow> bool) \<Rightarrow> (nat \<Rightarrow> stream) \<Rightarrow> 'addr started" where
  "async_main env resolve parse is_ipv4 succeeds clients =
     (case from_env env of
        None \<Rightarrow> Panicked
      | Some config \<Rightarrow>
          (case those (map (upstream_endpoint resolve) (upstream_addrs config)) of
             None \<Rightarrow> Failed
           | Some es \<Rightarrow>
               (case new_Proxy (map (\<lambda>e. new_UpstreamPool (pool_size config)) es) of
                  None \<Rightarrow> Panicked
                | Some p \<Rightarrow>
                    if snd (lb_bind parse is_ipv4 succeeds (bind_addr config)) then Serving (serve es p clients)
                    else Failed)))"

subsection \<open>Steps\<close>

definition move_to :: "nat \<Rightarrow> stage \<Rightarrow> Proxy \<Rightarrow> 'addr lb_state \<Rightarrow> 'addr lb_state" where
  "move_to i st p s = s\<lparr>shared := p, tasks := (tasks s)(i := (tasks s i)\<lparr>stage := st\<rparr>)\<rparr>"

definition pool_at :: "nat \<Rightarrow> nat \<Rightarrow> Proxy \<Rightarrow> nat" where
  "pool_at first offset p = (first + offset) mod length (upstreams p)"

definition set_pool :: "nat \<Rightarrow> UpstreamPool \<Rightarrow> Proxy \<Rightarrow> Proxy" where
  "set_pool j pool p = p\<lparr>upstreams := (upstreams p)[j := pool]\<rparr>"

text \<open>The head of the loop over the upstreams.\<close>

definition next_try :: "u8 list \<Rightarrow> nat \<Rightarrow> nat \<Rightarrow> Proxy \<Rightarrow> stage" where
  "next_try request first offset p =
     (if offset < length (upstreams p) then Trying request first offset else Replying None)"

definition pop_idle :: "UpstreamPool \<Rightarrow> (conn \<times> UpstreamPool) option" where
  "pop_idle pool =
     (if idle_conns pool = [] then None
      else Some (last (idle_conns pool), pool\<lparr>idle_conns := butlast (idle_conns pool)\<rparr>))"

text \<open>The events: \<open>accept\<close> returned a client, and \<open>set_nodelay\<close> succeeded or not; \<open>accept\<close> failed; the steps
  of a task.\<close>

datatype lb_event =
  Accept nat bool
| AcceptFailed
| ReadRequest nat
| ChooseUpstream nat
| PopIdle nat
| Connect nat attempt
| WriteRequest nat
| ReadResponse nat
| ReleaseConn nat
| ClearIdle nat
| WriteReply nat bool

text \<open>When \<open>serve\<close> returns, so does \<open>main\<close>, and the runtime drops every task. \<open>offers\<close> says how attempts at
  an endpoint may end.\<close>

fun lb_move :: "('addr UpstreamEndpoint \<Rightarrow> attempt \<Rightarrow> bool) \<Rightarrow> lb_event \<Rightarrow> 'addr lb_state \<Rightarrow> 'addr lb_state option" where
  "lb_move offers (Accept i nodelay) s =
     (if stage (tasks s i) = Backlog
      then Some (if nodelay then move_to i AwaitingRequest (shared s) s else s\<lparr>running := False\<rparr>) else None)"
| "lb_move offers AcceptFailed s = Some (s\<lparr>running := False\<rparr>)"
| "lb_move offers (ReadRequest i) s =
     (case stage (tasks s i) of
        AwaitingRequest \<Rightarrow>
          (case read_http_message (client_conn (tasks s i)) of
             Message request rest \<Rightarrow>
               Some (s\<lparr>tasks := (tasks s)(i := (tasks s i)\<lparr>client_conn := rest, stage := Choosing request\<rparr>)\<rparr>)
           | NoMessage \<Rightarrow> Some (move_to i (Closed True) (shared s) s)
           | ReadError \<Rightarrow> Some (move_to i (Closed False) (shared s) s))
      | _ \<Rightarrow> None)"
| "lb_move offers (ChooseUpstream i) s =
     (case stage (tasks s i) of
        Choosing request \<Rightarrow>
          (case rr_next (balancer (shared s)) of (first, rr) \<Rightarrow>
             Some (move_to i (next_try request (unat first) 0 (shared s)) ((shared s)\<lparr>balancer := rr\<rparr>) s))
      | _ \<Rightarrow> None)"
| "lb_move offers (PopIdle i) s =
     (case stage (tasks s i) of
        Trying request first offset \<Rightarrow>
          (let p = shared s; j = pool_at first offset p in
           case pop_idle (upstreams p ! j) of
             None \<Rightarrow> Some (move_to i (Connecting request first offset) p s)
           | Some (c, pool) \<Rightarrow> Some (move_to i (Writing request first offset c) (set_pool j pool p) s))
      | _ \<Rightarrow> None)"
| "lb_move offers (Connect i r) s =
     (case stage (tasks s i) of
        Connecting request first offset \<Rightarrow>
          (let e = endpoints s ! pool_at first offset (shared s) in
           if offers e r then
             (case opened e r of
                None \<Rightarrow> Some (move_to i (Clearing request first offset) (shared s) s)
              | Some c \<Rightarrow> Some (move_to i (Writing request first offset c) (shared s) s))
           else None)
      | _ \<Rightarrow> None)"
| "lb_move offers (WriteRequest i) s =
     (case stage (tasks s i) of
        Writing request first offset c \<Rightarrow>
          (let p = shared s; j = pool_at first offset p; pool = upstreams p ! j in
           if conn_writable c
           then Some (move_to i (AwaitingResponse request first offset (write_request request c))
             (set_pool j (pool\<lparr>received := received pool @ [request]\<rparr>) p) s)
           else Some (move_to i (Clearing request first offset) p s))
      | _ \<Rightarrow> None)"
| "lb_move offers (ReadResponse i) s =
     (case stage (tasks s i) of
        AwaitingResponse request first offset c \<Rightarrow>
          (case read_http_message (incoming c) of
             Message response rest \<Rightarrow>
               Some (move_to i (Releasing response (pool_at first offset (shared s)) (c\<lparr>incoming := rest\<rparr>)) (shared s) s)
           | NoMessage \<Rightarrow> Some (move_to i (Clearing request first offset) (shared s) s)
           | ReadError \<Rightarrow> Some (move_to i (Clearing request first offset) (shared s) s))
      | _ \<Rightarrow> None)"
| "lb_move offers (ReleaseConn i) s =
     (case stage (tasks s i) of
        Releasing response j c \<Rightarrow>
          Some (move_to i (Replying (Some response)) (set_pool j (release c (upstreams (shared s) ! j)) (shared s)) s)
      | _ \<Rightarrow> None)"
| "lb_move offers (ClearIdle i) s =
     (case stage (tasks s i) of
        Clearing request first offset \<Rightarrow>
          (let p = shared s; j = pool_at first offset p in
           Some (move_to i (next_try request first (offset + 1) p) (set_pool j (clear_idle (upstreams p ! j)) p) s))
      | _ \<Rightarrow> None)"
| "lb_move offers (WriteReply i ok) s =
     (case stage (tasks s i) of
        Replying None \<Rightarrow>
          Some (s\<lparr>tasks := (tasks s)(i := (tasks s i)\<lparr>replies := replies (tasks s i) @ (if ok then [BAD_GATEWAY] else []),
            stage := Closed True\<rparr>)\<rparr>)
      | Replying (Some response) \<Rightarrow>
          Some (if ok
            then s\<lparr>tasks := (tasks s)(i := (tasks s i)\<lparr>replies := replies (tasks s i) @ [response], stage := AwaitingRequest\<rparr>)\<rparr>
            else move_to i (Closed False) (shared s) s)
      | _ \<Rightarrow> None)"

definition lb_event_step :: "('addr UpstreamEndpoint \<Rightarrow> attempt \<Rightarrow> bool) \<Rightarrow> lb_event \<Rightarrow> 'addr lb_state \<Rightarrow> 'addr lb_state option" where
  "lb_event_step offers e s = (if running s then lb_move offers e s else None)"

inductive lb_step :: "('addr UpstreamEndpoint \<Rightarrow> attempt \<Rightarrow> bool) \<Rightarrow> 'addr lb_state \<Rightarrow> 'addr lb_state \<Rightarrow> bool"
  for offers where
  step: "lb_event_step offers e s = Some t \<Longrightarrow> lb_step offers s t"

inductive lb_reachable :: "('addr UpstreamEndpoint \<Rightarrow> attempt \<Rightarrow> bool) \<Rightarrow> 'addr lb_state \<Rightarrow> 'addr lb_state \<Rightarrow> bool"
  for offers s where
  start: "lb_reachable offers s s"
| next_step: "lb_reachable offers s t \<Longrightarrow> lb_step offers t u \<Longrightarrow> lb_reachable offers s u"

inductive_cases lb_stepE: "lb_step offers s t"

end
