(* ===== verification/Lb_Concurrent.thy ===== *)
theory Lb_Concurrent
  imports Lb_Tasks
begin

text \<open>
  What holds of the load balancer however its tasks interleave: the pools stay within their bound, and every client
  that waits for its responses gets the responses of the service behind the upstreams, in order, whatever the other
  clients do and although upstreams that never answer are among them.
\<close>

subsection \<open>Parts of a state\<close>

named_theorems lb_simps \<open>the parts of a state after a step\<close>

lemma move_to_simps [lb_simps]:
  "running (move_to i st p s) = running s" "endpoints (move_to i st p s) = endpoints s" "shared (move_to i st p s) = p"
  "tasks (move_to i st p s) = (tasks s)(i := (tasks s i)\<lparr>stage := st\<rparr>)"
  by (simp_all add: move_to_def)

lemma set_pool_simps [lb_simps]:
  "upstreams (set_pool j pool p) = (upstreams p)[j := pool]" "balancer (set_pool j pool p) = balancer p"
  by (simp_all add: set_pool_def)

lemma pop_idle_cases: "pop_idle pool = Some (c, pool') \<Longrightarrow>
    idle_conns pool = idle_conns pool' @ [c] \<and> max_idle pool' = max_idle pool \<and> pool' = pool\<lparr>idle_conns := idle_conns pool'\<rparr>"
  by (auto simp: pop_idle_def split: if_splits)

text \<open>Popping, or connecting when there is nothing to pop, is \<open>acquire\<close>.\<close>

lemma acquire_pop:
  "acquire pool = (case pop_idle pool of
     Some (c, pool') \<Rightarrow> (Some c, pool')
   | None \<Rightarrow> (case accepts_next pool of [] \<Rightarrow> (None, pool) | c # cs \<Rightarrow> (c, pool\<lparr>accepts_next := cs\<rparr>)))"
  by (simp add: acquire_def pop_idle_def)

lemmas lb_move_splits = stage.splits message.splits option.splits prod.splits if_splits

subsection \<open>Pools stay within their bound\<close>

definition kept :: "UpstreamPool \<Rightarrow> UpstreamPool \<Rightarrow> bool" where
  "kept pool q \<longleftrightarrow> (pool_ok pool \<longrightarrow> pool_ok q) \<and> max_idle q = max_idle pool"

lemma pool_changes_kept:
  "pop_idle pool = Some (c, pool') \<Longrightarrow> kept pool pool'" "kept pool (pool\<lparr>received := rs\<rparr>)" "kept pool (release c pool)"
  "kept pool (clear_idle pool)"
  by (auto dest!: pop_idle_cases simp: kept_def pool_ok_def release_def)

text \<open>A step changes at most one pool.\<close>

lemma lb_move_shared:
  assumes "lb_move offers e s = Some t"
  shows "endpoints t = endpoints s \<and> (upstreams (shared t) = upstreams (shared s) \<or>
    (\<exists>j q. upstreams (shared t) = (upstreams (shared s))[j := q] \<and> kept (upstreams (shared s) ! j) q))"
  using assms pool_changes_kept
  by (cases e) (auto simp: lb_simps Let_def split: lb_move_splits, blast+)

lemma lb_move_pools:
  assumes "lb_move offers e s = Some t" "proxy_ok (shared s)"
  shows "proxy_ok (shared t) \<and> map max_idle (upstreams (shared t)) = map max_idle (upstreams (shared s))"
  using lb_move_shared [OF assms(1)]
proof (elim conjE disjE exE)
  fix j q assume "upstreams (shared t) = (upstreams (shared s))[j := q]" "kept (upstreams (shared s) ! j) q"
  with update_pools [of "upstreams (shared s)" j q] assms(2) show ?thesis
    by (simp add: proxy_ok_def kept_def list_all_length)
qed (use assms(2) in \<open>simp add: proxy_ok_def\<close>)

lemma lb_event_move: "lb_event_step offers e s = Some t \<Longrightarrow> running s \<and> lb_move offers e s = Some t"
  by (simp add: lb_event_step_def split: if_splits)

lemma lb_reachable_pools:
  assumes "lb_reachable offers s t" "proxy_ok (shared s)"
  shows "proxy_ok (shared t) \<and> map max_idle (upstreams (shared t)) = map max_idle (upstreams (shared s)) \<and>
    endpoints t = endpoints s"
  using assms
proof (induction rule: lb_reachable.induct)
  case (next_step t u)
  from next_step.hyps(2) obtain e where "lb_event_step offers e t = Some u" by (rule lb_stepE)
  then have "lb_move offers e t = Some u" by (simp add: lb_event_move)
  with lb_move_pools [OF this] lb_move_shared [OF this] next_step show ?case by simp
qed simp

subsection \<open>Every client gets the service's responses\<close>

text \<open>The endpoints that serve: each attempt gives an honest connection to the service; and those that do
  not: no attempt gives a connection with a response.\<close>

definition endpoint_serves :: "service \<Rightarrow> ('addr UpstreamEndpoint \<Rightarrow> attempt \<Rightarrow> bool) \<Rightarrow> 'addr UpstreamEndpoint \<Rightarrow> bool" where
  "endpoint_serves outcome offers e \<longleftrightarrow> (\<forall>r. offers e r \<longrightarrow> (\<exists>c. opened e r = Some c \<and> honest outcome c))"

definition endpoint_broken :: "('addr UpstreamEndpoint \<Rightarrow> attempt \<Rightarrow> bool) \<Rightarrow> 'addr UpstreamEndpoint \<Rightarrow> bool" where
  "endpoint_broken offers e \<longleftrightarrow> (\<forall>r. offers e r \<longrightarrow> pred_option failing (opened e r))"

text \<open>A connection to an upstream that serves (\<open>good\<close>) or does not.\<close>

definition fits :: "service \<Rightarrow> bool \<Rightarrow> conn \<Rightarrow> bool" where
  "fits outcome good c \<longleftrightarrow> (if good then honest outcome c else failing c)"

text \<open>The upstreams tried before the \<open>k\<close>-th do not serve, or the request may end a connection without a
  response, and then every upstream may fail for it.\<close>

definition skipped :: "service \<Rightarrow> (nat \<Rightarrow> bool) \<Rightarrow> nat \<Rightarrow> u8 list \<Rightarrow> nat \<Rightarrow> nat \<Rightarrow> bool" where
  "skipped outcome good n request f k \<longleftrightarrow> outcome request None \<or> (\<forall>j < k. \<not> good ((f + j) mod n))"

lemma skipped_intros [intro]:
  "skipped outcome good n request f k \<Longrightarrow> \<not> good ((f + k) mod n) \<Longrightarrow> skipped outcome good n request f (Suc k)"
  "outcome request None \<Longrightarrow> skipped outcome good n request f k"
  "skipped outcome good n request f 0"
  by (auto simp: skipped_def less_Suc_eq)

fun stage_sound :: "service \<Rightarrow> (nat \<Rightarrow> bool) \<Rightarrow> nat \<Rightarrow> u8 list \<Rightarrow> stage \<Rightarrow> bool" where
  "stage_sound outcome good n request (Choosing q) \<longleftrightarrow> q = request"
| "stage_sound outcome good n request (Trying q f k) \<longleftrightarrow> q = request \<and> k < n \<and> skipped outcome good n request f k"
| "stage_sound outcome good n request (Connecting q f k) \<longleftrightarrow> q = request \<and> k < n \<and> skipped outcome good n request f k"
| "stage_sound outcome good n request (Writing q f k c) \<longleftrightarrow>
     q = request \<and> k < n \<and> skipped outcome good n request f k \<and> fits outcome (good ((f + k) mod n)) c"
| "stage_sound outcome good n request (AwaitingResponse q f k c) \<longleftrightarrow>
     q = request \<and> k < n \<and> skipped outcome good n request f k \<and>
     (if good ((f + k) mod n) then exchanged outcome request c else read_http_message (incoming c) \<in> {NoMessage, ReadError})"
| "stage_sound outcome good n request (Releasing r j c) \<longleftrightarrow>
     outcome request (Some r) \<and> j < n \<and> good j \<and> honest outcome c"
| "stage_sound outcome good n request (Clearing q f k) \<longleftrightarrow> q = request \<and> k < n \<and> skipped outcome good n request f (Suc k)"
| "stage_sound outcome good n request (Replying r) \<longleftrightarrow> outcome request r"
| "stage_sound outcome good n request st \<longleftrightarrow> False"

text \<open>A client with the requests \<open>finished @ todo\<close>, the first of \<open>todo\<close> being in work: the finished ones have a
  response, and the client is sent away before the last only by a request that may end a connection.\<close>

definition answered :: "service \<Rightarrow> u8 list list list \<Rightarrow> u8 list list \<Rightarrow> bool" where
  "answered outcome finished rs \<longleftrightarrow> list_all2 (\<lambda>g r. outcome (concat g) (Some r)) finished rs"

definition doomed :: "service \<Rightarrow> u8 list list list \<Rightarrow> bool" where
  "doomed outcome todo \<longleftrightarrow> (\<exists>g rest. todo = g # rest \<and> outcome (concat g) None)"

definition task_sound :: "service \<Rightarrow> (nat \<Rightarrow> bool) \<Rightarrow> nat \<Rightarrow> u8 list list list \<Rightarrow> lb_task \<Rightarrow> bool" where
  "task_sound outcome good n requests t \<longleftrightarrow> (\<exists>finished rs todo. requests = finished @ todo \<and> answered outcome finished rs \<and>
     (case stage t of
        Backlog \<Rightarrow> replies t = rs \<and> pieces (client_conn t) = concat todo
      | AwaitingRequest \<Rightarrow> replies t = rs \<and> pieces (client_conn t) = concat todo
      | Closed ok \<Rightarrow> (replies t = rs \<or> doomed outcome todo \<and> replies t = rs @ [BAD_GATEWAY]) \<and>
          (ok \<longrightarrow> todo = [] \<or> doomed outcome todo)
      | st \<Rightarrow> replies t = rs \<and>
          (\<exists>g rest. todo = g # rest \<and> pieces (client_conn t) = concat rest \<and> stage_sound outcome good n (concat g) st)))"

definition pools_sound :: "service \<Rightarrow> (nat \<Rightarrow> bool) \<Rightarrow> Proxy \<Rightarrow> bool" where
  "pools_sound outcome good p \<longleftrightarrow>
     (\<forall>j < length (upstreams p). list_all (fits outcome (good j)) (idle_conns (upstreams p ! j)))"

definition lb_sound :: "service \<Rightarrow> (nat \<Rightarrow> bool) \<Rightarrow> (nat \<Rightarrow> u8 list list list) \<Rightarrow> 'addr lb_state \<Rightarrow> bool" where
  "lb_sound outcome good requests s \<longleftrightarrow> pools_sound outcome good (shared s) \<and>
     (\<forall>i. task_sound outcome good (length (upstreams (shared s))) (requests i) (tasks s i))"

text \<open>Requests that come in reads of their own.\<close>

definition separate :: "u8 list list list \<Rightarrow> bool" where
  "separate gs \<longleftrightarrow> list_all (\<lambda>g. [] \<notin> set g \<and> whole (concat g)) gs"

definition known :: "service \<Rightarrow> u8 list list list \<Rightarrow> bool" where
  "known outcome gs \<longleftrightarrow> list_all (\<lambda>g. \<exists>a. outcome (concat g) a) gs"

definition sends :: "service \<Rightarrow> u8 list list list \<Rightarrow> bool" where
  "sends outcome gs \<longleftrightarrow> separate gs \<and> known outcome gs"

lemma sends_acceptable: "sends outcome gs \<Longrightarrow> g \<in> set gs \<Longrightarrow> acceptable outcome (concat g)"
  by (auto simp: sends_def separate_def known_def acceptable_def list_all_iff)

fun in_work :: "stage \<Rightarrow> bool" where
  "in_work Backlog = False"
| "in_work AwaitingRequest = False"
| "in_work (Closed ok) = False"
| "in_work st = True"

lemma task_sound_work:
  "in_work (stage t) \<Longrightarrow> task_sound outcome good n gs t \<longleftrightarrow> (\<exists>finished g rest. gs = finished @ g # rest \<and>
     answered outcome finished (replies t) \<and> pieces (client_conn t) = concat rest \<and>
     stage_sound outcome good n (concat g) (stage t))"
proof (cases "stage t")
  case (AwaitingResponse q f k c)
  then show ?thesis unfolding task_sound_def by (simp only: stage.case) blast
qed (simp only: task_sound_def stage.case in_work.simps; blast)+

lemma task_sound_waiting:
  "stage t = AwaitingRequest \<or> stage t = Backlog \<Longrightarrow> task_sound outcome good n gs t \<longleftrightarrow> (\<exists>finished todo. gs = finished @ todo \<and>
     answered outcome finished (replies t) \<and> pieces (client_conn t) = concat todo)"
  by (elim disjE; simp add: task_sound_def; blast)

lemma task_sound_accepted:
  "stage t = Backlog \<Longrightarrow> task_sound outcome good n gs (t\<lparr>stage := AwaitingRequest\<rparr>) = task_sound outcome good n gs t"
  by (simp add: task_sound_def)

lemma task_sound_closed:
  "stage t = Closed ok \<Longrightarrow> task_sound outcome good n gs t \<longleftrightarrow> (\<exists>finished rs todo. gs = finished @ todo \<and>
     answered outcome finished rs \<and> (replies t = rs \<or> doomed outcome todo \<and> replies t = rs @ [BAD_GATEWAY]) \<and>
     (ok \<longrightarrow> todo = [] \<or> doomed outcome todo))"
  by (simp add: task_sound_def)

text \<open>A step of one task, with what it does to the pools.\<close>

lemma lb_sound_update:
  assumes "lb_sound outcome good requests s" "pools_sound outcome good (shared t)"
    and "length (upstreams (shared t)) = length (upstreams (shared s))" "tasks t = (tasks s)(i := u)"
    and "task_sound outcome good (length (upstreams (shared s))) (requests i) u"
  shows "lb_sound outcome good requests t"
  using assms by (simp add: lb_sound_def)

lemma lb_sound_work_move:
  assumes "lb_sound outcome good requests s" "sends outcome (requests i)" "in_work (stage (tasks s i))" "in_work st"
    and "\<And>request. acceptable outcome request \<Longrightarrow> stage_sound outcome good (length (upstreams (shared s))) request (stage (tasks s i)) \<Longrightarrow>
      stage_sound outcome good (length (upstreams (shared s))) request st \<and> pools_sound outcome good p"
    and "length (upstreams p) = length (upstreams (shared s))"
  shows "lb_sound outcome good requests (move_to i st p s)"
proof -
  have "task_sound outcome good (length (upstreams (shared s))) (requests i) (tasks s i)" using assms(1) by (simp add: lb_sound_def)
  then obtain finished g rest where t: "requests i = finished @ g # rest"
    "answered outcome finished (replies (tasks s i))" "pieces (client_conn (tasks s i)) = concat rest"
    "stage_sound outcome good (length (upstreams (shared s))) (concat g) (stage (tasks s i))"
    unfolding task_sound_work [OF assms(3)] by blast
  have "acceptable outcome (concat g)" by (rule sends_acceptable [OF assms(2)]) (simp add: t(1))
  from assms(5) [OF this t(4)] have new: "stage_sound outcome good (length (upstreams (shared s))) (concat g) st" "pools_sound outcome good p"
    by blast+
  have "task_sound outcome good (length (upstreams (shared s))) (requests i) ((tasks s i)\<lparr>stage := st\<rparr>)"
  proof -
    have "in_work (stage ((tasks s i)\<lparr>stage := st\<rparr>))" using assms(4) by simp
    from task_sound_work [OF this] show ?thesis using new(1) t by fastforce
  qed
  with new(2) assms(6) show ?thesis
    by (intro lb_sound_update [OF assms(1), where i = i and u = "(tasks s i)\<lparr>stage := st\<rparr>"]) (simp_all add: lb_simps)
qed

lemma pools_sound_set:
  assumes "pools_sound outcome good p" "j < length (upstreams p) \<Longrightarrow> list_all (fits outcome (good j)) (idle_conns q)"
  shows "pools_sound outcome good (set_pool j q p)"
  unfolding pools_sound_def
proof (intro allI impI)
  fix k assume "k < length (upstreams (set_pool j q p))"
  with assms show "list_all (fits outcome (good k)) (idle_conns (upstreams (set_pool j q p) ! k))"
    by (cases "k = j") (simp_all add: pools_sound_def lb_simps)
qed

lemma pool_at_bound: "k < length (upstreams p) \<Longrightarrow> pool_at f k p < length (upstreams p)"
  unfolding pool_at_def by (rule mod_less_divisor) (rule le_less_trans [OF le0])

text \<open>An upstream that serves is reached before the attempts run out.\<close>

lemma some_offset:
  fixes j n f :: nat
  assumes "j < n"
  shows "\<exists>k < n. (f + k) mod n = j"
proof -
  have "(f + (j + n - f mod n) mod n) mod n = j"
  proof -
    have "(f + (j + n - f mod n) mod n) mod n = (f mod n + (j + n - f mod n)) mod n" by (simp add: mod_simps)
    also have "f mod n + (j + n - f mod n) = j + n" using assms by (simp add: less_imp_le trans_le_add2)
    finally show ?thesis using assms by simp
  qed
  then show ?thesis using assms by (intro exI [of _ "(j + n - f mod n) mod n"]) simp
qed

lemma next_try_sound:
  assumes "skipped outcome good (length (upstreams p)) request f k" "\<exists>j < length (upstreams p). good j"
  shows "in_work (next_try request f k p) \<and> stage_sound outcome good (length (upstreams p)) request (next_try request f k p)"
proof (cases "k < length (upstreams p)")
  case True
  then show ?thesis using assms(1) by (simp add: next_try_def)
next
  case False
  obtain j where j: "j < length (upstreams p)" "good j" using assms(2) by blast
  then obtain i where "i < length (upstreams p)" "good ((f + i) mod length (upstreams p))" using some_offset by metis
  with False assms(1) have "outcome request None" by (auto simp: skipped_def)
  with False show ?thesis by (simp add: next_try_def)
qed

definition service_at :: "service \<Rightarrow> ('addr UpstreamEndpoint \<Rightarrow> attempt \<Rightarrow> bool) \<Rightarrow> 'addr UpstreamEndpoint list \<Rightarrow> (nat \<Rightarrow> bool) \<Rightarrow> bool" where
  "service_at outcome offers es good \<longleftrightarrow> (\<exists>j < length es. good j) \<and>
     (\<forall>j < length es. if good j then endpoint_serves outcome offers (es ! j) else endpoint_broken offers (es ! j)) \<and>
     (\<forall>request r. outcome request (Some r) \<longrightarrow> whole r)"

lemma opened_fits:
  assumes "service_at outcome offers es good" "j < length es" "offers (es ! j) r"
  shows "case opened (es ! j) r of None \<Rightarrow> \<not> good j | Some c \<Rightarrow> fits outcome (good j) c"
proof (cases "good j")
  case True
  with assms have "endpoint_serves outcome offers (es ! j)" by (auto simp: service_at_def)
  with assms(3) True show ?thesis by (auto simp: endpoint_serves_def fits_def)
next
  case False
  with assms have "endpoint_broken offers (es ! j)" by (auto simp: service_at_def)
  with assms(3) False show ?thesis by (auto simp: endpoint_broken_def fits_def split: option.split)
qed

lemma written_fits:
  assumes "fits outcome good c" "acceptable outcome request" "\<And>r. outcome request (Some r) \<Longrightarrow> whole r"
  shows "if conn_writable c
    then (if good then exchanged outcome request (write_request request c)
      else read_http_message (incoming (write_request request c)) \<in> {NoMessage, ReadError})
    else \<not> good"
proof (cases good)
  case True
  with assms(1) have h: "honest outcome c" by (simp add: fits_def)
  from h have "conn_writable c" by (simp add: honest_def)
  with honest_exchange [OF h assms(2,3)] True show ?thesis by simp
next
  case False
  with assms(1) have h: "failing c" by (simp add: fits_def)
  with failing_exchange [OF h] False show ?thesis by simp
qed

lemma client_reads:
  assumes "separate (g # todo)" "pieces client = concat (g # todo)"
  shows "read_http_message client = Message (concat g) (client\<lparr>pieces := concat todo\<rparr>)"
proof -
  have p: "pieces client = g @ concat todo" using assms(2) by simp
  have "[] \<notin> set (pieces client)" using assms(1) unfolding p separate_def by (auto simp: list_all_iff)
  from read_whole_message [OF p this] assms(1) show ?thesis by (simp add: separate_def)
qed

text \<open>Reading a request, and writing a response.\<close>

lemma lb_sound_read_request:
  assumes "lb_sound outcome good requests s" "sends outcome (requests i)" "lb_move offers (ReadRequest i) s = Some t"
  shows "lb_sound outcome good requests t"
proof -
  let ?T = "tasks s i" and ?n = "length (upstreams (shared s))"
  have st: "stage ?T = AwaitingRequest" using assms(3) by (auto split: stage.splits)
  have "task_sound outcome good ?n (requests i) ?T" using assms(1) by (simp add: lb_sound_def)
  then obtain finished todo where r: "requests i = finished @ todo" "answered outcome finished (replies ?T)"
    "pieces (client_conn ?T) = concat todo" using task_sound_waiting [of ?T outcome good ?n "requests i"] st by blast
  have pools: "pools_sound outcome good (shared s)" using assms(1) by (simp add: lb_sound_def)
  note update = lb_sound_update [OF assms(1), of t i]
  show ?thesis
  proof (cases todo)
    case Nil
    with r(3) nothing_to_read [of "client_conn ?T"] assms(3) st obtain ok where t: "t = move_to i (Closed ok) (shared s) s" by auto
    have "task_sound outcome good ?n (requests i) (?T\<lparr>stage := Closed ok\<rparr>)"
      using r(1,2) Nil by (subst task_sound_closed) (simp, rule exI [of _ finished], rule exI [of _ "replies ?T"], simp)
    then show ?thesis by (intro update) (simp_all add: t lb_simps pools)
  next
    case (Cons g rest)
    have "separate (g # rest)" using assms(2) r(1) Cons by (simp add: sends_def separate_def)
    with client_reads r(3) Cons have read: "read_http_message (client_conn ?T) = Message (concat g) ((client_conn ?T)\<lparr>pieces := concat rest\<rparr>)"
      by metis
    let ?u = "?T\<lparr>client_conn := (client_conn ?T)\<lparr>pieces := concat rest\<rparr>, stage := Choosing (concat g)\<rparr>"
    have t: "t = s\<lparr>tasks := (tasks s)(i := ?u)\<rparr>" using assms(3) st read by simp
    have "task_sound outcome good ?n (requests i) ?u"
      using r Cons by (subst task_sound_work) (simp, rule exI [of _ finished], rule exI [of _ g], rule exI [of _ rest], simp)
    then show ?thesis by (intro update) (simp_all add: t pools)
  qed
qed

lemma lb_sound_write_reply:
  assumes "lb_sound outcome good requests s" "lb_move offers (WriteReply i ok) s = Some t"
  shows "lb_sound outcome good requests t"
proof -
  let ?T = "tasks s i" and ?n = "length (upstreams (shared s))"
  obtain r where st: "stage ?T = Replying r" using assms(2) by (auto split: stage.splits)
  have "task_sound outcome good ?n (requests i) ?T" using assms(1) by (simp add: lb_sound_def)
  then obtain finished g rest where g: "requests i = finished @ g # rest" "answered outcome finished (replies ?T)"
    "pieces (client_conn ?T) = concat rest" "outcome (concat g) r"
    using task_sound_work [of ?T outcome good ?n "requests i"] st by auto
  have pools: "pools_sound outcome good (shared s)" using assms(1) by (simp add: lb_sound_def)
  note update = lb_sound_update [OF assms(1), of t i]
  show ?thesis
  proof (cases r)
    case (Some a)
    show ?thesis
    proof (cases ok)
      case True
      let ?u = "?T\<lparr>replies := replies ?T @ [a], stage := AwaitingRequest\<rparr>"
      have t: "t = s\<lparr>tasks := (tasks s)(i := ?u)\<rparr>" using assms(2) st Some True by simp
      have "task_sound outcome good ?n (requests i) ?u"
        using g Some by (subst task_sound_waiting)
          (simp, rule exI [of _ "finished @ [g]"], rule exI [of _ rest], simp add: answered_def list_all2_appendI)
      then show ?thesis by (intro update) (simp_all add: t pools)
    next
      case False
      have t: "t = move_to i (Closed False) (shared s) s" using assms(2) st Some False by simp
      have "task_sound outcome good ?n (requests i) (?T\<lparr>stage := Closed False\<rparr>)"
        using g(1,2) by (subst task_sound_closed [where ok = False]) (simp, rule exI [of _ finished], rule exI [of _ "replies ?T"], simp)
      then show ?thesis by (intro update) (simp_all add: t lb_simps pools)
    qed
  next
    case None
    let ?u = "?T\<lparr>replies := replies ?T @ (if ok then [BAD_GATEWAY] else []), stage := Closed True\<rparr>"
    have t: "t = s\<lparr>tasks := (tasks s)(i := ?u)\<rparr>" using assms(2) st None by simp
    have "doomed outcome (g # rest)" using g(4) None by (simp add: doomed_def)
    then have "task_sound outcome good ?n (requests i) ?u"
      using g(1,2) by (subst task_sound_closed [where ok = True])
        (simp, rule exI [of _ finished], rule exI [of _ "replies ?T"], rule exI [of _ "g # rest"], simp)
    then show ?thesis by (intro update) (simp_all add: t pools)
  qed
qed

text \<open>The steps of a request in work.\<close>

lemma lb_sound_choose:
  assumes "lb_sound outcome good requests s" "sends outcome (requests i)" "\<exists>j < length (upstreams (shared s)). good j"
    and "lb_move offers (ChooseUpstream i) s = Some t"
  shows "lb_sound outcome good requests t"
proof -
  obtain q where st: "stage (tasks s i) = Choosing q" using assms(4) by (auto split: stage.splits)
  obtain first rr where rr: "rr_next (balancer (shared s)) = (first, rr)" by fastforce
  have t: "t = move_to i (next_try q (unat first) 0 (shared s)) ((shared s)\<lparr>balancer := rr\<rparr>) s" using assms(4) st rr by simp
  note more = next_try_sound [of outcome good "shared s" q "unat first" 0, OF skipped_intros(3) assms(3)]
  show ?thesis unfolding t
    by (rule lb_sound_work_move [OF assms(1,2)])
      (use more st assms(1) in \<open>auto simp: lb_sound_def pools_sound_def\<close>)
qed

lemma lb_sound_pop:
  assumes "lb_sound outcome good requests s" "sends outcome (requests i)" "lb_move offers (PopIdle i) s = Some t"
  shows "lb_sound outcome good requests t"
proof -
  let ?p = "shared s"
  obtain q f k where st: "stage (tasks s i) = Trying q f k" using assms(3) by (auto split: stage.splits)
  let ?j = "pool_at f k ?p"
  have pools: "pools_sound outcome good ?p" using assms(1) by (simp add: lb_sound_def)
  show ?thesis
  proof (cases "pop_idle (upstreams ?p ! ?j)")
    case None
    then have t: "t = move_to i (Connecting q f k) ?p s" using assms(3) st by simp
    show ?thesis unfolding t by (rule lb_sound_work_move [OF assms(1,2)]) (use st pools in auto)
  next
    case (Some r)
    obtain c pool where r: "r = (c, pool)" by fastforce
    with Some st assms(3) have t: "t = move_to i (Writing q f k c) (set_pool ?j pool ?p) s" by (simp add: Let_def)
    note pop = pop_idle_cases [OF Some [unfolded r]]
    have in_pool: "list_all (fits outcome (good ?j)) (idle_conns pool @ [c])" if "k < length (upstreams ?p)"
      using pools pool_at_bound [OF that, of f] pop unfolding pools_sound_def by metis
    then have "fits outcome (good ?j) c" if "k < length (upstreams ?p)" using that by simp
    moreover have "pools_sound outcome good (set_pool ?j pool ?p)"
      using pools pop by (intro pools_sound_set) (auto simp: pools_sound_def dest!: spec [of _ ?j])
    ultimately show ?thesis unfolding t
      by (intro lb_sound_work_move [OF assms(1,2)]) (use st in \<open>auto simp: lb_simps pool_at_def\<close>)
  qed
qed

lemma lb_sound_connect:
  assumes "lb_sound outcome good requests s" "sends outcome (requests i)" "service_at outcome offers (endpoints s) good"
    and "length (upstreams (shared s)) = length (endpoints s)" "lb_move offers (Connect i r) s = Some t"
  shows "lb_sound outcome good requests t"
proof -
  let ?p = "shared s"
  obtain q f k where st: "stage (tasks s i) = Connecting q f k" using assms(5) by (auto split: stage.splits)
  let ?j = "pool_at f k ?p"
  have o: "offers (endpoints s ! ?j) r" using assms(5) st by (simp add: Let_def split: if_splits)
  have fit: "case opened (endpoints s ! ?j) r of None \<Rightarrow> \<not> good ?j | Some c \<Rightarrow> fits outcome (good ?j) c" if "k < length (upstreams ?p)"
    using opened_fits [OF assms(3) _ o] pool_at_bound [OF that] assms(4) by simp
  have pools: "pools_sound outcome good ?p" using assms(1) by (simp add: lb_sound_def)
  show ?thesis
  proof (cases "opened (endpoints s ! ?j) r")
    case None
    then have t: "t = move_to i (Clearing q f k) ?p s" using assms(5) st o by simp
    show ?thesis unfolding t
      by (rule lb_sound_work_move [OF assms(1,2)]) (use st pools fit None in \<open>auto simp: pool_at_def\<close>)
  next
    case (Some c)
    then have t: "t = move_to i (Writing q f k c) ?p s" using assms(5) st o by simp
    show ?thesis unfolding t
      by (rule lb_sound_work_move [OF assms(1,2)]) (use st pools fit Some in \<open>auto simp: pool_at_def\<close>)
  qed
qed

lemma lb_sound_write_request:
  assumes "lb_sound outcome good requests s" "sends outcome (requests i)" "service_at outcome offers (endpoints s) good"
    and "lb_move offers (WriteRequest i) s = Some t"
  shows "lb_sound outcome good requests t"
proof -
  let ?p = "shared s"
  obtain q f k c where st: "stage (tasks s i) = Writing q f k c" using assms(4) by (auto split: stage.splits)
  let ?j = "pool_at f k ?p"
  have pools: "pools_sound outcome good ?p" using assms(1) by (simp add: lb_sound_def)
  have resp: "\<And>request r. outcome request (Some r) \<Longrightarrow> whole r" using assms(3) by (simp add: service_at_def)
  have written: "if conn_writable c
      then (if good ?j then exchanged outcome request (write_request request c)
        else read_http_message (incoming (write_request request c)) \<in> {NoMessage, ReadError})
      else \<not> good ?j" if "fits outcome (good ?j) c" "acceptable outcome request" for request
    by (rule written_fits [OF that resp])
  show ?thesis
  proof (cases "conn_writable c")
    case False
    then have t: "t = move_to i (Clearing q f k) ?p s" using assms(4) st by simp
    show ?thesis unfolding t
      by (rule lb_sound_work_move [OF assms(1,2)]) (use st pools False written in \<open>auto simp: pool_at_def\<close>)
  next
    case True
    let ?p' = "set_pool ?j ((upstreams ?p ! ?j)\<lparr>received := received (upstreams ?p ! ?j) @ [q]\<rparr>) ?p"
    have t: "t = move_to i (AwaitingResponse q f k (write_request q c)) ?p' s" using assms(4) st True by (simp add: Let_def)
    have "pools_sound outcome good ?p'" using pools by (intro pools_sound_set) (auto simp: pools_sound_def)
    then show ?thesis unfolding t
      by (intro lb_sound_work_move [OF assms(1,2)]) (use st True written in \<open>force simp: lb_simps pool_at_def\<close>)+
  qed
qed

lemma lb_sound_read_response:
  assumes "lb_sound outcome good requests s" "sends outcome (requests i)" "lb_move offers (ReadResponse i) s = Some t"
  shows "lb_sound outcome good requests t"
proof -
  let ?p = "shared s"
  obtain q f k c where st: "stage (tasks s i) = AwaitingResponse q f k c" using assms(3) by (auto split: stage.splits)
  have pools: "pools_sound outcome good ?p" using assms(1) by (simp add: lb_sound_def)
  show ?thesis
  proof (cases "read_http_message (incoming c)")
    case (Message response rest)
    then have t: "t = move_to i (Releasing response (pool_at f k ?p) (c\<lparr>incoming := rest\<rparr>)) ?p s" using assms(3) st by simp
    show ?thesis unfolding t
      by (rule lb_sound_work_move [OF assms(1,2)])
        (use st pools Message pool_at_bound [of k ?p f] in \<open>auto simp: pool_at_def exchanged_def split: if_splits\<close>)
  next
    case NoMessage
    then have t: "t = move_to i (Clearing q f k) ?p s" using assms(3) st by simp
    show ?thesis unfolding t
      by (rule lb_sound_work_move [OF assms(1,2)]) (use st pools NoMessage in \<open>auto simp: exchanged_def split: if_splits\<close>)
  next
    case ReadError
    then have t: "t = move_to i (Clearing q f k) ?p s" using assms(3) st by simp
    show ?thesis unfolding t
      by (rule lb_sound_work_move [OF assms(1,2)]) (use st pools ReadError in \<open>auto simp: exchanged_def split: if_splits\<close>)
  qed
qed

lemma lb_sound_release:
  assumes "lb_sound outcome good requests s" "sends outcome (requests i)" "lb_move offers (ReleaseConn i) s = Some t"
  shows "lb_sound outcome good requests t"
proof -
  let ?p = "shared s"
  obtain r j c where st: "stage (tasks s i) = Releasing r j c" using assms(3) by (auto split: stage.splits)
  have pools: "pools_sound outcome good ?p" using assms(1) by (simp add: lb_sound_def)
  have t: "t = move_to i (Replying (Some r)) (set_pool j (release c (upstreams ?p ! j)) ?p) s" using assms(3) st by simp
  have "pools_sound outcome good (set_pool j (release c (upstreams ?p ! j)) ?p)" if "good j" "honest outcome c"
    using pools that by (intro pools_sound_set) (auto simp: pools_sound_def release_def fits_def)
  then show ?thesis unfolding t
    by (intro lb_sound_work_move [OF assms(1,2)]) (use st in \<open>auto simp: lb_simps\<close>)
qed

lemma lb_sound_clear:
  assumes "lb_sound outcome good requests s" "sends outcome (requests i)" "\<exists>j < length (upstreams (shared s)). good j"
    and "lb_move offers (ClearIdle i) s = Some t"
  shows "lb_sound outcome good requests t"
proof -
  let ?p = "shared s"
  obtain q f k where st: "stage (tasks s i) = Clearing q f k" using assms(4) by (auto split: stage.splits)
  let ?p' = "set_pool (pool_at f k ?p) (clear_idle (upstreams ?p ! pool_at f k ?p)) ?p"
  have pools: "pools_sound outcome good ?p'" using assms(1) by (intro pools_sound_set) (simp_all add: lb_sound_def)
  have t: "t = move_to i (next_try q f (Suc k) ?p) ?p' s" using assms(4) st by (simp add: Let_def)
  note more = next_try_sound [of outcome good ?p q f "Suc k", OF _ assms(3)]
  have "in_work (next_try q f (Suc k) ?p)" by (simp add: next_try_def)
  then show ?thesis unfolding t
    by (intro lb_sound_work_move [OF assms(1,2)]) (use more st pools in \<open>auto simp: lb_simps\<close>)
qed

lemma lb_sound_accept:
  assumes "lb_sound outcome good requests s" "lb_move offers (Accept i nodelay) s = Some t"
  shows "lb_sound outcome good requests t"
proof -
  have st: "stage (tasks s i) = Backlog" using assms(2) by (simp split: if_splits)
  have "task_sound outcome good (length (upstreams (shared s))) (requests i) ((tasks s i)\<lparr>stage := AwaitingRequest\<rparr>)"
    using assms(1) task_sound_accepted [OF st] by (simp add: lb_sound_def)
  with assms st show ?thesis
    by (cases nodelay) (auto simp: lb_simps lb_sound_def)
qed

lemma lb_move_sound:
  assumes "lb_sound outcome good requests s" "\<And>i. sends outcome (requests i)" "service_at outcome offers (endpoints s) good"
    and "length (upstreams (shared s)) = length (endpoints s)" "lb_move offers e s = Some t"
  shows "lb_sound outcome good requests t"
proof -
  have some: "\<exists>j < length (upstreams (shared s)). good j" using assms(3,4) by (simp add: service_at_def)
  show ?thesis
  proof (cases e)
    case AcceptFailed
    with assms(1,5) show ?thesis by (auto simp: lb_sound_def)
  qed (use assms(5) lb_sound_accept [OF assms(1)] lb_sound_read_request [OF assms(1,2)] lb_sound_choose [OF assms(1,2) some]
      lb_sound_pop [OF assms(1,2)] lb_sound_connect [OF assms(1-4)] lb_sound_write_request [OF assms(1-3)]
      lb_sound_read_response [OF assms(1,2)] lb_sound_release [OF assms(1,2)] lb_sound_clear [OF assms(1,2) some]
      lb_sound_write_reply [OF assms(1)] in metis)+
qed

subsection \<open>From the start\<close>

lemma those_Some: "those xs = Some ys \<Longrightarrow> xs = map Some ys"
  by (induction xs arbitrary: ys) (auto split: option.splits)

lemma async_main_serving:
  assumes "async_main env resolve parse is_ipv4 succeeds clients = Serving s"
  obtains config es p where "from_env env = Some config" "map (upstream_endpoint resolve) (upstream_addrs config) = map Some es"
    "new_Proxy (map (\<lambda>e. new_UpstreamPool (pool_size config)) es) = Some p" "s = serve es p clients"
    "snd (lb_bind parse is_ipv4 succeeds (bind_addr config))"
  using assms by (auto simp: async_main_def split: option.splits if_splits dest: those_Some)

lemma new_Proxy_upstreams: "new_Proxy pools = Some p \<Longrightarrow> upstreams p = pools"
  by (auto simp: new_Proxy_def)

lemma async_main_parts:
  assumes "async_main env resolve parse is_ipv4 succeeds clients = Serving s"
  shows "length (upstreams (shared s)) = length (endpoints s)" "tasks s i = \<lparr>client_conn = clients i, replies = [], stage = Backlog\<rparr>"
    "running s" "\<exists>config. from_env env = Some config \<and> proxy_ok (shared s) \<and>
      map max_idle (upstreams (shared s)) = replicate (length (upstream_addrs config)) (pool_size config)"
proof -
  obtain config es p where s: "from_env env = Some config" "map (upstream_endpoint resolve) (upstream_addrs config) = map Some es"
    "new_Proxy (map (\<lambda>e. new_UpstreamPool (pool_size config)) es) = Some p" "s = serve es p clients"
    by (rule async_main_serving [OF assms]) (rule that)
  note up = new_Proxy_upstreams [OF s(3)]
  have "length es = length (upstream_addrs config)" using arg_cong [OF s(2), of length] by simp
  then show "length (upstreams (shared s)) = length (endpoints s)" "running s"
    "tasks s i = \<lparr>client_conn = clients i, replies = [], stage = Backlog\<rparr>"
    "\<exists>config. from_env env = Some config \<and> proxy_ok (shared s) \<and>
      map max_idle (upstreams (shared s)) = replicate (length (upstream_addrs config)) (pool_size config)"
    using s(1) by (auto simp: s(4) serve_def up proxy_ok_def pool_ok_def new_UpstreamPool_def list_all_iff comp_def map_replicate_const)
qed

lemma async_main_sound:
  assumes "async_main env resolve parse is_ipv4 succeeds clients = Serving s" "\<And>i. pieces (clients i) = concat (requests i)"
  shows "lb_sound outcome good requests s"
proof -
  obtain n es p where s: "new_Proxy (map (\<lambda>e. new_UpstreamPool n) es) = Some p" "s = serve es p clients"
    by (rule async_main_serving [OF assms(1)]) (rule that)
  note up = new_Proxy_upstreams [OF s(1)]
  have "task_sound outcome good n (requests i) \<lparr>client_conn = clients i, replies = [], stage = Backlog\<rparr>" for n i
    using assms(2) [of i] by (subst task_sound_waiting) (simp, rule exI [of _ "[]"], simp add: answered_def)
  then show "lb_sound outcome good requests s"
    by (simp add: lb_sound_def pools_sound_def s(2) serve_def up new_UpstreamPool_def)
qed

lemma lb_move_length:
  "lb_move offers e s = Some t \<Longrightarrow> endpoints t = endpoints s \<and> length (upstreams (shared t)) = length (upstreams (shared s))"
  using lb_move_shared by (metis length_list_update)

lemma lb_reachable_sound:
  assumes "lb_reachable offers s t" "lb_sound outcome good requests s" "\<And>i. sends outcome (requests i)"
    and "service_at outcome offers (endpoints s) good" "length (upstreams (shared s)) = length (endpoints s)"
  shows "lb_sound outcome good requests t \<and> endpoints t = endpoints s \<and> length (upstreams (shared t)) = length (endpoints t)"
  using assms(1,2,4,5)
proof (induction rule: lb_reachable.induct)
  case (next_step t u)
  from next_step.hyps(2) obtain e where "lb_event_step offers e t = Some u" by (rule lb_stepE)
  then have m: "lb_move offers e t = Some u" by (simp add: lb_event_move)
  from next_step have t: "lb_sound outcome good requests t" "service_at outcome offers (endpoints t) good"
    "length (upstreams (shared t)) = length (endpoints t)" "endpoints t = endpoints s" by auto
  from lb_move_sound [OF t(1) assms(3) t(2,3) m] lb_move_length [OF m] t show ?case by simp
qed simp

text \<open>What a client has: a response for each of its requests so far and, if it is sent away before the last, perhaps
  the error response for the request that caused it.\<close>

definition served :: "service \<Rightarrow> u8 list list list \<Rightarrow> lb_task \<Rightarrow> bool" where
  "served outcome gs t \<longleftrightarrow> (\<exists>finished rs todo. gs = finished @ todo \<and> answered outcome finished rs \<and>
     (replies t = rs \<or> doomed outcome todo \<and> replies t = rs @ [BAD_GATEWAY]) \<and>
     (stage t = Closed True \<longrightarrow> todo = [] \<or> doomed outcome todo))"

lemma task_sound_served:
  assumes "task_sound outcome good n gs t"
  shows "served outcome gs t"
proof -
  consider "in_work (stage t)" | "stage t = AwaitingRequest \<or> stage t = Backlog" | ok where "stage t = Closed ok"
    by (cases "stage t") auto
  then show ?thesis
  proof cases
    case 1
    then obtain finished g rest where "gs = finished @ g # rest" "answered outcome finished (replies t)"
      using assms task_sound_work by blast
    moreover have "stage t \<noteq> Closed True" using 1 by auto
    ultimately show ?thesis unfolding served_def by blast
  next
    case 2
    then obtain finished todo where "gs = finished @ todo" "answered outcome finished (replies t)"
      using assms task_sound_waiting by blast
    moreover have "stage t \<noteq> Closed True" using 2 by auto
    ultimately show ?thesis unfolding served_def by blast
  next
    case (3 ok)
    then show ?thesis using assms by (auto simp: task_sound_closed served_def)
  qed
qed

lemma served_in_order:
  assumes "served outcome gs t" "n < length (replies t)"
  shows "n < length gs \<and> (outcome (concat (gs ! n)) (Some (replies t ! n)) \<or>
    outcome (concat (gs ! n)) None \<and> replies t ! n = BAD_GATEWAY)"
proof -
  obtain finished rs todo where f: "gs = finished @ todo" "list_all2 (\<lambda>g r. outcome (concat g) (Some r)) finished rs"
    "replies t = rs \<or> doomed outcome todo \<and> replies t = rs @ [BAD_GATEWAY]"
    using assms(1) unfolding served_def answered_def by blast
  have len: "length finished = length rs" using f(2) by (rule list_all2_lengthD)
  show ?thesis
  proof (cases "n < length rs")
    case True
    then have "replies t ! n = rs ! n" "gs ! n = finished ! n" using f len by (auto simp: nth_append)
    with list_all2_nthD2 [OF f(2) True] True len f(1) show ?thesis by simp
  next
    case False
    with f(3) assms(2) have "n = length rs" "doomed outcome todo" "replies t = rs @ [BAD_GATEWAY]" by auto
    with len f(1) show ?thesis by (auto simp: doomed_def nth_append)
  qed
qed

lemma served_completely:
  assumes "served outcome gs t" "stage t = Closed True" "\<And>g. g \<in> set gs \<Longrightarrow> \<not> outcome (concat g) None"
  shows "length (replies t) = length gs"
proof -
  obtain finished rs todo where f: "gs = finished @ todo" "list_all2 (\<lambda>g r. outcome (concat g) (Some r)) finished rs"
    "replies t = rs \<or> doomed outcome todo \<and> replies t = rs @ [BAD_GATEWAY]" "todo = [] \<or> doomed outcome todo"
    using assms(1,2) unfolding served_def answered_def by blast
  have "\<not> doomed outcome todo" using assms(3) f(1) by (auto simp: doomed_def)
  with f list_all2_lengthD [OF f(2)] show ?thesis by simp
qed

lemma clients_get_their_replies:
  assumes "async_main env resolve parse is_ipv4 succeeds clients = Serving s0" "lb_reachable offers s0 s"
    and "service_at outcome offers (endpoints s0) good" "\<And>i. sends outcome (requests i)"
    and "\<And>i. pieces (clients i) = concat (requests i)"
  shows "served outcome (requests i) (tasks s i)"
proof -
  have init: "lb_sound outcome good requests s0" "length (upstreams (shared s0)) = length (endpoints s0)"
    using async_main_sound [OF assms(1,5)] async_main_parts(1) [OF assms(1)] .
  from lb_reachable_sound [OF assms(2) init(1) assms(4,3) init(2)]
  have "task_sound outcome good (length (upstreams (shared s))) (requests i) (tasks s i)" unfolding lb_sound_def by blast
  then show ?thesis by (rule task_sound_served)
qed

end
