(* ===== verification/Lb_Service.thy ===== *)
theory Lb_Service
  imports Lb_Concurrent Http_Handlers
begin

text \<open>
  The server behind the load balancer: the responses that the handlers write are whole messages for the balancer, because
  the \<open>Content-Length\<close> that Go prints is the one that Rust parses. The HTTP library is the relation between the calls of a
  handler and the bytes it sends: the status of \<open>WriteHeader\<close> in the status line, each header that was set on a line of its
  own, any lines of the library's own (\<open>Date\<close> and the like, different in each response) of which none is a
  \<open>Content-Length\<close>, an empty line and what was written. How it parses the bytes of a request is a relation as well.
\<close>

subsection \<open>Lines\<close>

definition clean_line :: "u8 list \<Rightarrow> bool" where
  "clean_line line \<longleftrightarrow> line \<noteq> [] \<and> 10 \<notin> set line \<and> 13 \<notin> set line"

definition header_lines :: "u8 list list \<Rightarrow> u8 list" where
  "header_lines ls = concat (map (\<lambda>line. line @ [13, 10]) ls)"

definition names_length :: "u8 list \<Rightarrow> bool" where
  "names_length line \<longleftrightarrow> (case bytes_Index line [58] of
     None \<Rightarrow> False | Some colon \<Rightarrow> eq_ignore_ascii_case (take colon line) (bytes_of ''content-length''))"

lemma bytes_Index_skip_byte: "b \<noteq> 13 \<Longrightarrow> bytes_Index (b # bs) [13, 10, 13, 10] = map_option Suc (bytes_Index bs [13, 10, 13, 10])"
  by (simp add: has_prefix_def)

lemma bytes_Index_skip_line:
  "13 \<notin> set line \<Longrightarrow> bytes_Index (line @ bs) [13, 10, 13, 10] = map_option ((+) (length line)) (bytes_Index bs [13, 10, 13, 10])"
proof (induction line)
  case Nil
  then show ?case by (simp add: option.map_ident_strong)
next
  case (Cons b line)
  then have "bytes_Index ((b # line) @ bs) [13, 10, 13, 10] = map_option Suc (bytes_Index (line @ bs) [13, 10, 13, 10])"
    using bytes_Index_skip_byte [of b "line @ bs"] by simp
  with Cons show ?case by (simp add: option.map_comp comp_def)
qed

lemma bytes_Index_break:
  assumes "clean_line line"
  shows "bytes_Index (13 # 10 # line @ bs) [13, 10, 13, 10] = map_option (\<lambda>i. i + 2) (bytes_Index (line @ bs) [13, 10, 13, 10])"
proof -
  obtain b rest where l: "line = b # rest" "b \<noteq> 13" using assms by (cases line) (auto simp: clean_line_def)
  have "\<not> has_prefix (13 # 10 # line @ bs) [13, 10, 13, 10]" using l by (simp add: has_prefix_def)
  moreover have "bytes_Index (10 # line @ bs) [13, 10, 13, 10] = map_option Suc (bytes_Index (line @ bs) [13, 10, 13, 10])"
    using bytes_Index_skip_byte [of 10 "line @ bs"] by simp
  ultimately show ?thesis by (simp add: option.map_comp comp_def)
qed

text \<open>The header ends at the first empty line.\<close>

lemma find_header_end_lines:
  assumes "list_all clean_line ls" "ls \<noteq> []"
  shows "find_header_end (header_lines ls @ 13 # 10 # content) = Some (length (header_lines ls) - 2)"
  using assms
proof (induction ls)
  case (Cons line ls)
  have l: "clean_line line" "13 \<notin> set line" using Cons.prems(1) by (simp_all add: clean_line_def)
  show ?case
  proof (cases ls)
    case Nil
    have "bytes_Index (13 # 10 # 13 # 10 # content) [13, 10, 13, 10] = Some 0" by (simp add: has_prefix_def)
    then show ?thesis using bytes_Index_skip_line [OF l(2)] Nil by (simp add: find_header_end_def header_lines_def)
  next
    case (Cons next_line more)
    let ?rest = "header_lines ls @ 13 # 10 # content"
    have ih: "bytes_Index ?rest [13, 10, 13, 10] = Some (length (header_lines ls) - 2)"
      using Cons.IH Cons.prems(1) Cons by (simp add: find_header_end_def)
    have c: "clean_line next_line" using Cons.prems(1) Cons by simp
    have r: "?rest = next_line @ (13 # 10 # header_lines more @ 13 # 10 # content)" by (simp add: Cons header_lines_def)
    have "bytes_Index (13 # 10 # ?rest) [13, 10, 13, 10] = Some (length (header_lines ls) - 2 + 2)"
      using bytes_Index_break [OF c, of "13 # 10 # header_lines more @ 13 # 10 # content"] ih unfolding r by simp
    moreover have "2 \<le> length (header_lines ls)" by (simp add: Cons header_lines_def)
    moreover have "header_lines (line # ls) @ 13 # 10 # content = line @ 13 # 10 # ?rest" by (simp add: header_lines_def)
    ultimately show ?thesis
      using bytes_Index_skip_line [OF l(2), of "13 # 10 # ?rest"] by (simp add: find_header_end_def header_lines_def)
  qed
qed simp

lemma split_lines_line: "10 \<notin> set line \<Longrightarrow> split_lines (line @ 10 # bs) = line # split_lines bs"
  by (induction line) auto

lemma content_length_in_lines:
  assumes "list_all clean_line before" "list_all (\<lambda>line. \<not> names_length line) before" "clean_line line" "names_length line"
  shows "parse_content_length (header_lines (before @ line # after) @ bs) =
    parse_usize (trim_ascii (drop (the (bytes_Index line [58]) + 1) line))"
  using assms(1,2)
proof (induction before)
  case Nil
  have s: "split_lines (header_lines (line # after) @ bs) = (line @ [13]) # split_lines (header_lines after @ bs)"
    using split_lines_line [of "line @ [13]" "header_lines after @ bs"] assms(3) by (simp add: header_lines_def clean_line_def)
  have "strip_cr (line @ [13]) = line" by (simp add: strip_cr_def)
  with assms(4) show ?case by (auto simp: parse_content_length_def s names_length_def Let_def split: option.splits)
next
  case (Cons other before)
  have s: "split_lines (header_lines (other # before @ line # after) @ bs) =
      (other @ [13]) # split_lines (header_lines (before @ line # after) @ bs)"
    using split_lines_line [of "other @ [13]" "header_lines (before @ line # after) @ bs"] Cons.prems(1)
    by (simp add: header_lines_def clean_line_def)
  have "strip_cr (other @ [13]) = other" by (simp add: strip_cr_def)
  moreover have "\<not> names_length other" using Cons.prems(2) by simp
  ultimately have "parse_content_length (header_lines ((other # before) @ line # after) @ bs) =
      parse_content_length (header_lines (before @ line # after) @ bs)"
    by (auto simp: parse_content_length_def s names_length_def Let_def split: option.splits)
  with Cons show ?case by simp
qed

subsection \<open>A printed length is read back\<close>

lemma digit_not_space: "is_digit b \<Longrightarrow> \<not> is_ascii_whitespace b"
  by (auto simp: is_digit_def is_ascii_whitespace_def)

lemma parse_digits_value:
  assumes "\<forall>b \<in> set bs. is_digit b" "decimal_value v bs \<le> usize_max"
  shows "parse_digits bs v = decimal_value v bs"
  using assms
proof (induction bs arbitrary: v)
  case Nil
  then show ?case by (simp add: decimal_value_def)
next
  case (Cons b bs)
  let ?d = "unat (b - 48)"
  have val: "decimal_value v (b # bs) = decimal_value (v * 10 + ?d) bs" by (simp add: decimal_value_def)
  have "v * 10 + ?d \<le> usize_max" using decimal_value_ge [of "v * 10 + ?d" bs] Cons.prems(2) val by simp
  then have "saturate (saturate (v * 10) + ?d) = v * 10 + ?d" by (simp add: saturate_def)
  with Cons val show ?case by simp
qed

lemma trim_end_digits: "start < e \<Longrightarrow> \<not> is_ascii_whitespace (bytes ! (e - 1)) \<Longrightarrow> trim_end bytes start e = e"
  by (cases e) auto

lemma parse_printed_length:
  assumes "n \<le> usize_max"
  shows "parse_usize (trim_ascii (32 # decimal n)) = n"
proof -
  have d: "\<forall>b \<in> set (decimal n). \<not> is_ascii_whitespace b" using decimal_digits [of n] digit_not_space by blast
  have "takeWhile is_ascii_whitespace (decimal n) = []" using d by (cases "decimal n") auto
  then have s: "scan is_ascii_whitespace (32 # decimal n) 0 = 1" by (simp add: scan_takeWhile is_ascii_whitespace_def)
  have "\<not> is_ascii_whitespace ((32 # decimal n) ! length (decimal n))"
    using d nth_mem [of "length (decimal n) - 1" "decimal n"] by (cases "decimal n" rule: rev_cases) (auto simp: nth_append)
  then have "trim_end (32 # decimal n) 1 (length (32 # decimal n)) = length (32 # decimal n)"
    by (intro trim_end_digits) auto
  then have "trim_ascii (32 # decimal n) = decimal n" by (simp add: trim_ascii_def s)
  then show ?thesis
    using parse_digits_value [OF decimal_digits, of 0 n] assms by (simp add: parse_usize_def decimal_value_decimal)
qed

subsection \<open>Responses on the wire\<close>

text \<open>The status, and the lines of the headers.\<close>

definition response_status :: "http_event list \<Rightarrow> int" where
  "response_status es = hd ([status. WriteHeader status \<leftarrow> es] @ [200])"

definition field_lines :: "http_event list \<Rightarrow> u8 list list" where
  "field_lines es = [k @ [58, 32] @ v. SetHeader k v \<leftarrow> es]"

definition status_line :: "int \<Rightarrow> u8 list \<Rightarrow> u8 list" where
  "status_line status reason = bytes_of ''HTTP/1.1 '' @ decimal (nat status) @ 32 # reason"

definition http_response :: "http_event list \<Rightarrow> u8 list \<Rightarrow> bool" where
  "http_response es bytes \<longleftrightarrow> (\<exists>reason lines.
     bytes = header_lines (status_line (response_status es) reason # lines) @ 13 # 10 # concat [content. Write content \<leftarrow> es] \<and>
     list_all clean_line (status_line (response_status es) reason # lines) \<and> set (field_lines es) \<subseteq> set lines \<and>
     (\<forall>line \<in> set lines. names_length line \<longrightarrow> line \<in> set (field_lines es)))"

lemma status_line_other: "\<not> names_length (status_line status reason)"
proof -
  have e: "status_line status reason = 72 # 84 # 84 # 80 # 47 # drop 5 (status_line status reason)"
    by (simp add: status_line_def bytes_of_def)
  show ?thesis
  proof (cases "bytes_Index (status_line status reason) [58]")
    case (Some colon)
    have "eq_ignore_ascii_case (take colon (status_line status reason)) (bytes_of ''content-length'') = False"
      by (subst e) (cases colon; simp add: eq_ignore_ascii_case_def to_ascii_lowercase_def bytes_of_def)
    with Some show ?thesis by (simp add: names_length_def)
  qed (simp add: names_length_def)
qed

lemma length_line:
  "clean_line (contentLength @ [58, 32] @ decimal n)" "names_length (contentLength @ [58, 32] @ decimal n)"
  "drop (the (bytes_Index (contentLength @ [58, 32] @ decimal n) [58]) + 1) (contentLength @ [58, 32] @ decimal n) = 32 # decimal n"
proof -
  have "10 \<notin> set (decimal n)" "13 \<notin> set (decimal n)" using decimal_digits [of n] by (auto simp: is_digit_def)
  then show "clean_line (contentLength @ [58, 32] @ decimal n)" by (auto simp: clean_line_def contentLength_def bytes_of_def)
  have i: "bytes_Index (contentLength @ [58, 32] @ decimal n) [58] = Some 14" by (simp add: contentLength_def bytes_of_def has_prefix_def)
  show "names_length (contentLength @ [58, 32] @ decimal n)"
    unfolding names_length_def i by (simp add: contentLength_def bytes_of_def eq_ignore_ascii_case_def to_ascii_lowercase_def)
  show "drop (the (bytes_Index (contentLength @ [58, 32] @ decimal n) [58]) + 1) (contentLength @ [58, 32] @ decimal n) = 32 # decimal n"
    unfolding i by (simp add: contentLength_def bytes_of_def)
qed

lemma headers_differ: "contentType \<noteq> contentLength"
  by (simp add: contentType_def contentLength_def bytes_of_def)

text \<open>A response with its announced length is one whole message.\<close>

lemma response_whole:
  assumes "http_response (response_calls kind status content) bytes" "length content \<le> usize_max"
    and "clean_line (contentType @ [58, 32] @ kind)"
  shows "whole bytes"
proof -
  let ?es = "response_calls kind status content" and ?line = "contentLength @ [58, 32] @ decimal (length content)"
  have fields: "field_lines ?es = [contentType @ [58, 32] @ kind, ?line]" "concat [content. Write content \<leftarrow> ?es] = content"
    by (simp_all add: field_lines_def response_calls_def)
  obtain reason lines where bytes:
    "bytes = header_lines (status_line (response_status ?es) reason # lines) @ 13 # 10 # content"
    "list_all clean_line (status_line (response_status ?es) reason # lines)" "?line \<in> set lines"
    "\<forall>line \<in> set lines. names_length line \<longrightarrow> line \<in> {contentType @ [58, 32] @ kind, ?line}"
    using assms(1) unfolding http_response_def fields by auto
  obtain before after where split: "lines = before @ ?line # after" "?line \<notin> set before"
    using split_list_first [OF bytes(3)] by blast
  let ?before = "status_line (response_status ?es) reason # before"
  let ?H = "header_lines (?before @ ?line # after)"
  have "\<not> names_length (contentType @ [58, 32] @ kind)"
    by (simp add: names_length_def contentType_def bytes_of_def has_prefix_def eq_ignore_ascii_case_def to_ascii_lowercase_def)
  then have other: "list_all (\<lambda>line. \<not> names_length line) ?before"
    using bytes(4) split status_line_other by (auto simp: list_all_iff)
  have clean: "list_all clean_line (?before @ ?line # after)" using bytes(2) split(1) by simp
  have es: "bytes = ?H @ 13 # 10 # content" using bytes(1) split(1) by simp
  have e: "find_header_end (?H @ 13 # 10 # content) = Some (length ?H - 2)" using find_header_end_lines [OF clean] by simp
  have two: "2 \<le> length ?H" by (simp add: header_lines_def)
  then have t: "take (length ?H - 2 + 4) (?H @ 13 # 10 # content) = ?H @ [13, 10]" by simp
  have "parse_content_length (?H @ [13, 10]) = length content"
    using content_length_in_lines [of ?before ?line after "[13, 10]"] other clean length_line [of "length content"]
      parse_printed_length [OF assms(2)] by simp
  with e t two show ?thesis unfolding es by (simp add: whole_def message_size_def)
qed

lemma score_whole:
  assumes "http_response (response_calls scoreContentType status (scoreResponses ! k)) bytes" "k \<le> 5"
  shows "whole bytes"
proof (rule response_whole [OF assms(1)])
  show "length (scoreResponses ! k) \<le> usize_max"
    using score_count [OF assms(2)] by (auto simp: scoreResponses_def bytes_of_def usize_max_def)
  show "clean_line (contentType @ [58, 32] @ scoreContentType)"
    by (simp add: clean_line_def contentType_def scoreContentType_def bytes_of_def)
qed

subsection \<open>The handler behind the balancer\<close>

text \<open>What may come back for the bytes of a request that the HTTP library hands to the scoring handler: the bytes of the
  handler's calls, or, when the handler panics, whatever the library makes of that: nothing and the end of the
  connection, or some whole response of its own.\<close>

definition handler_service :: "bool \<Rightarrow> Handlers \<Rightarrow> (u8 list \<Rightarrow> request \<Rightarrow> bool) \<Rightarrow> service" where
  "handler_service useAVX2 h arrives bytes a \<longleftrightarrow>
     (\<exists>req pool es released. arrives bytes req \<and> FraudScoreRaw useAVX2 h req pool = Some (es, released) \<and>
        (case es of None \<Rightarrow> pred_option whole a | Some es \<Rightarrow> \<exists>r. a = Some r \<and> http_response es r))"

text \<open>Requests of which some make the handler panic.\<close>

definition panicking :: "int \<Rightarrow> (u8 list \<Rightarrow> request \<Rightarrow> bool) \<Rightarrow> u8 list \<Rightarrow> bool" where
  "panicking limit arrives bytes \<longleftrightarrow> (\<exists>req data. arrives bytes req \<and> delivered req limit = Inr data \<and> panics data)"

lemma handler_service_cases:
  assumes "handler_service useAVX2 h arrives bytes a" "bodyLimit h < 9223372036854775807"
  obtains req where "arrives bytes req" "answer useAVX2 h req = None" "pred_option whole a"
  | req status k r where "arrives bytes req" "answer useAVX2 h req = Some (status, k)" "a = Some r"
      "http_response (response_calls scoreContentType status (scoreResponses ! k)) r"
proof -
  obtain req pool es released where f: "arrives bytes req" "FraudScoreRaw useAVX2 h req pool = Some (es, released)"
    "case es of None \<Rightarrow> pred_option whole a | Some es \<Rightarrow> \<exists>r. a = Some r \<and> http_response es r"
    using assms(1) unfolding handler_service_def by blast
  have es: "es = map_option (\<lambda>(status, k). response_calls scoreContentType status (scoreResponses ! k)) (answer useAVX2 h req)"
    using FraudScoreRaw_answer [OF assms(2), of useAVX2 req pool] f(2) by auto
  show thesis
  proof (cases "answer useAVX2 h req")
    case None
    with f es show thesis by (intro that(1)) auto
  next
    case (Some x)
    then obtain status k where x: "answer useAVX2 h req = Some (status, k)" by (cases x) auto
    then obtain r where "a = Some r" "http_response (response_calls scoreContentType status (scoreResponses ! k)) r"
      using f(3) es by auto
    with f(1) x show thesis by (intro that(2))
  qed
qed

lemma answer_count: "answer useAVX2 h req = Some (status, k) \<Longrightarrow> k \<le> 5"
  by (auto simp: answer_def split: sum.splits option.splits)

lemma handler_service_whole:
  assumes "handler_service useAVX2 h arrives bytes (Some r)" "bodyLimit h < 9223372036854775807"
  shows "whole r"
  using assms by (rule handler_service_cases) (auto dest: answer_count intro: score_whole)

text \<open>Only a panic ends a connection, and every request that the library hands over has an outcome.\<close>

lemma answer_panics:
  assumes "searcher_ok search" "answer useAVX2 (NewHandlers (NewService params risk search) limit) req = None"
  shows "\<exists>data. delivered req limit = Inr data \<and> panics data"
  using assms(2) FraudCountJSON_panics [OF assms(1), of useAVX2 params risk]
  by (auto simp: answer_def NewHandlers_def split: sum.splits option.splits)

lemma handler_service_ends:
  assumes "searcher_ok search" "limit < 9223372036854775807"
    and "handler_service useAVX2 (NewHandlers (NewService params risk search) limit) arrives bytes None"
  shows "panicking limit arrives bytes"
proof -
  have "bodyLimit (NewHandlers (NewService params risk search) limit) < 9223372036854775807"
    using assms(2) by (simp add: NewHandlers_def)
  from assms(3) this show ?thesis
    by (rule handler_service_cases) (auto simp: panicking_def dest!: answer_panics [OF assms(1)])
qed

text \<open>The bytes of one response: any lines of the library may be left out.\<close>

definition plain_response :: "http_event list \<Rightarrow> u8 list" where
  "plain_response es = header_lines (status_line (response_status es) [] # field_lines es) @ 13 # 10 #
     concat [content. Write content \<leftarrow> es]"

lemma plain_response_http:
  assumes "list_all clean_line (field_lines es)"
  shows "http_response es (plain_response es)"
proof -
  have "clean_line (status_line (response_status es) [])"
    using decimal_digits [of "nat (response_status es)"] by (auto simp: clean_line_def status_line_def bytes_of_def is_digit_def)
  with assms show ?thesis unfolding http_response_def plain_response_def by (intro exI [of _ "[]"] exI [of _ "field_lines es"]) simp
qed

lemma score_fields_clean: "list_all clean_line (field_lines (response_calls scoreContentType status content))"
  using length_line(1) by (simp add: field_lines_def response_calls_def clean_line_def contentType_def scoreContentType_def bytes_of_def)

lemma handler_service_exists:
  assumes "arrives bytes req" "bodyLimit h < 9223372036854775807"
  shows "\<exists>a. handler_service useAVX2 h arrives bytes a"
proof -
  obtain released where f: "FraudScoreRaw useAVX2 h req NoPool = Some (map_option
      (\<lambda>(status, k). response_calls scoreContentType status (scoreResponses ! k)) (answer useAVX2 h req), released)"
    using FraudScoreRaw_answer [OF assms(2)] by blast
  show ?thesis
  proof (cases "answer useAVX2 h req")
    case None
    with assms(1) f show ?thesis unfolding handler_service_def by (intro exI [of _ None]) fastforce
  next
    case (Some x)
    obtain status k where x: "x = (status, k)" by fastforce
    let ?es = "response_calls scoreContentType status (scoreResponses ! k)"
    have "FraudScoreRaw useAVX2 h req NoPool = Some (Some ?es, released)" using f Some x by simp
    with assms(1) plain_response_http [OF score_fields_clean] have "handler_service useAVX2 h arrives bytes (Some (plain_response ?es))"
      unfolding handler_service_def
      by (intro exI [of _ req] exI [of _ NoPool] exI [of _ "Some ?es"] exI [of _ released] conjI) simp_all
    then show ?thesis by blast
  qed
qed

subsection \<open>Every client of the running balancer\<close>

lemma service_atI:
  assumes "\<exists>e \<in> set es. endpoint_serves outcome offers e"
    and "\<forall>e \<in> set es. endpoint_serves outcome offers e \<or> endpoint_broken offers e"
    and "\<And>request r. outcome request (Some r) \<Longrightarrow> whole r"
  shows "service_at outcome offers es (\<lambda>j. endpoint_serves outcome offers (es ! j))"
  unfolding service_at_def using assms nth_mem [of _ es] by (auto simp: in_set_conv_nth [of _ es])

lemma every_client_served:
  assumes "bodyLimit h < 9223372036854775807"
    and "async_main env resolve parse_addr is_ipv4 succeeds clients = Serving s0" "lb_reachable offers s0 s"
    and "\<exists>e \<in> set (endpoints s0). endpoint_serves (handler_service useAVX2 h arrives) offers e"
    and "\<forall>e \<in> set (endpoints s0). endpoint_serves (handler_service useAVX2 h arrives) offers e \<or> endpoint_broken offers e"
    and "\<And>i. separate (requests i)" "\<And>i g. g \<in> set (requests i) \<Longrightarrow> \<exists>req. arrives (concat g) req"
    and "\<And>i. pieces (clients i) = concat (requests i)"
  shows "served (handler_service useAVX2 h arrives) (requests i) (tasks s i)"
proof -
  have "sends (handler_service useAVX2 h arrives) (requests i)" for i
    using assms(6) [of i] handler_service_exists [OF _ assms(1)] assms(7) [where i = i]
    unfolding sends_def known_def list_all_iff by blast
  with service_atI [OF assms(4,5) handler_service_whole [OF _ assms(1)]] show ?thesis
    by (intro clients_get_their_replies [OF assms(2,3) _ _ assms(8)])
qed

text \<open>So a client whose requests make no handler panic has, for each of its requests so far, the bytes of the handler's
  response, and for all of them when it is done.\<close>

definition scored :: "bool \<Rightarrow> Handlers \<Rightarrow> (u8 list \<Rightarrow> request \<Rightarrow> bool) \<Rightarrow> u8 list \<Rightarrow> u8 list \<Rightarrow> bool" where
  "scored useAVX2 h arrives bytes r \<longleftrightarrow> (\<exists>req pool es released. arrives bytes req \<and>
     FraudScoreRaw useAVX2 h req pool = Some (Some es, released) \<and> http_response es r)"

lemma service_scored:
  assumes "handler_service useAVX2 (NewHandlers (NewService params risk search) limit) arrives bytes (Some r)"
    and "searcher_ok search" "limit < 9223372036854775807" "\<not> panicking limit arrives bytes"
  shows "scored useAVX2 (NewHandlers (NewService params risk search) limit) arrives bytes r"
proof -
  let ?h = "NewHandlers (NewService params risk search) limit"
  obtain req pool es released where f: "arrives bytes req" "FraudScoreRaw useAVX2 ?h req pool = Some (es, released)"
    "case es of None \<Rightarrow> pred_option whole (Some r) | Some es \<Rightarrow> \<exists>r'. Some r = Some r' \<and> http_response es r'"
    using assms(1) unfolding handler_service_def by blast
  have h: "bodyLimit ?h < 9223372036854775807" using assms(3) by (simp add: NewHandlers_def)
  have "es \<noteq> None"
  proof
    assume "es = None"
    then have "answer useAVX2 ?h req = None" using FraudScoreRaw_answer [OF h, of useAVX2 req pool] f(2) by auto
    from answer_panics [OF assms(2) this] f(1) assms(4) show False by (auto simp: panicking_def)
  qed
  with f show ?thesis unfolding scored_def by (cases es) auto
qed

end
