(* ===== verification/Commands.thy ===== *)
theory Commands
  imports Server
begin

text \<open>
  The other commands and the serving part of the server: \<open>cmd/preprocess\<close>, \<open>cmd/api\<close>, \<open>cmd/healthcheck\<close>,
  the registration of the routes (\<open>routes.go\<close>, \<open>registerPprof\<close>) and \<open>Listen\<close> with its Unix socket
  (\<open>server.go\<close>). The HTTP library is the list of registrations made on it; a system call is an event,
  and what it returns is an argument.
\<close>

subsection \<open>Preprocessing\<close>

record preprocess_flags =
  referencesPath :: string
  outPath :: string
  clustersFlag :: int
  nprobeFlag :: int
  ambiguousFlag :: int
  repairFlag :: bool

definition default_preprocess :: preprocess_flags where
  "default_preprocess =
     \<lparr>referencesPath = ''resources/references.json.gz'', outPath = ''resources/index.heindall.ivf8192.bin'',
      clustersFlag = 8192, nprobeFlag = 8, ambiguousFlag = 32, repairFlag = True\<rparr>"

datatype preprocess_error = LoadRefs server_error | WriteIndex build_error

definition build_options :: "preprocess_flags \<Rightarrow> IVFBuildOptions" where
  "build_options flags = \<lparr>optClusters = clustersFlag flags, optNProbe = nprobeFlag flags,
     optAmbiguousNProbe = ambiguousFlag flags, optRepair = repairFlag flags\<rparr>"

text \<open>The files afterwards; a failing write is left out, as in the writer.\<close>

definition preprocess_main ::
    "(u8 list \<Rightarrow> u8 list option) \<Rightarrow> (u8 list \<Rightarrow> Reference list option) \<Rightarrow> files \<Rightarrow> preprocess_flags \<Rightarrow>
     (preprocess_error + files) option" where
  "preprocess_main gunzip decode files flags =
     (case LoadReferences gunzip decode files (referencesPath flags) of
        Inl e \<Rightarrow> Some (Inl (LoadRefs e))
      | Inr refs \<Rightarrow> do {
          r \<leftarrow> WriteIVFBinaryIndex refs (build_options flags);
          case r of
            Inl e \<Rightarrow> Some (Inl (WriteIndex e))
          | Inr bytes \<Rightarrow> Some (Inr (files(outPath flags \<mapsto> bytes))) })"

subsection \<open>Routes\<close>

text \<open>A profiling handler is a mux of patterns and the functions of \<open>net/http/pprof\<close>.\<close>

datatype route_handler = ReadyHandler | ScoreHandler | PprofHandler "(gostring \<times> gostring) list"

datatype route = Raw gostring gostring route_handler | Handle gostring gostring route_handler

definition RegisterRoutes :: "route list \<Rightarrow> route list" where
  "RegisterRoutes app = app @
     [Raw (bytes_of ''GET'') (bytes_of ''/ready'') ReadyHandler,
      Raw (bytes_of ''POST'') (bytes_of ''/fraud-score'') ScoreHandler]"

definition pprofMux :: "(gostring \<times> gostring) list" where
  "pprofMux = map (map_prod bytes_of bytes_of)
     [(''/debug/pprof/'', ''Index''), (''/debug/pprof/cmdline'', ''Cmdline''), (''/debug/pprof/profile'', ''Profile''),
      (''/debug/pprof/symbol'', ''Symbol''), (''/debug/pprof/trace'', ''Trace'')]"

definition registerPprof :: "route list \<Rightarrow> route list" where
  "registerPprof app = app @
     [Handle (bytes_of ''GET'') (bytes_of ''/debug/pprof'') (PprofHandler pprofMux),
      Handle (bytes_of ''GET'') (bytes_of ''/debug/pprof/'') (PprofHandler pprofMux),
      Handle (bytes_of ''GET'') (bytes_of ''/debug/pprof/*path'') (PprofHandler pprofMux),
      Handle (bytes_of ''POST'') (bytes_of ''/debug/pprof/symbol'') (PprofHandler pprofMux)]"

record App =
  appPort :: int
  appReadHeaderTimeout :: int
  appReadTimeout :: int
  appWriteTimeout :: int
  appIdleTimeout :: int
  appDisableResponseBodyCapture :: bool
  appDisableBanner :: bool
  appRoutes :: "route list"

record Server =
  serverApp :: App
  serverHandlers :: Handlers
  socketPath :: string

text \<open>The rest of \<open>NewServer\<close>, once the handlers are there.\<close>

definition server_around :: "Config \<Rightarrow> Handlers \<Rightarrow> Server" where
  "server_around cfg handlers =
     (let routes = RegisterRoutes [];
          routes = (if PprofEnabled cfg then registerPprof routes else routes)
      in \<lparr>serverApp =
            \<lparr>appPort = Port cfg, appReadHeaderTimeout = ReadHeaderTimeout cfg, appReadTimeout = ReadTimeout cfg,
             appWriteTimeout = WriteTimeout cfg, appIdleTimeout = IdleTimeout cfg,
             appDisableResponseBodyCapture = True, appDisableBanner = True, appRoutes = routes\<rparr>,
          serverHandlers = handlers, socketPath = SocketPath cfg\<rparr>)"

subsection \<open>Listening\<close>

datatype os_error = NotExist | ErrClosed | ErrServerClosed | OtherError

record os_results =
  removeResult :: "os_error option"
  listenResult :: "os_error option"
  chmodResult :: "os_error option"
  serveResult :: "os_error option"

datatype os_event = RemoveFile string | ListenUnix string | ChmodFile string nat | CloseListener | ServeListener

datatype listen_end = ServeReturned | RemoveFailed os_error | ListenFailed os_error | ChmodFailed os_error | ServeFailed os_error

text \<open>From \<open>net.Listen\<close> on.\<close>

definition listen_and_serve :: "string \<Rightarrow> os_results \<Rightarrow> os_event list \<times> listen_end" where
  "listen_and_serve path os =
     (case listenResult os of
        Some err \<Rightarrow> ([ListenUnix path], ListenFailed err)
      | None \<Rightarrow>
          (case chmodResult os of
             Some err \<Rightarrow> ([ListenUnix path, ChmodFile path 438, CloseListener], ChmodFailed err)
           | None \<Rightarrow>
               ([ListenUnix path, ChmodFile path 438, ServeListener],
                case serveResult os of
                  None \<Rightarrow> ServeReturned
                | Some err \<Rightarrow> if err \<noteq> ErrClosed \<and> err \<noteq> ErrServerClosed then ServeFailed err else ServeReturned)))"

definition listenUnix :: "Server \<Rightarrow> os_results \<Rightarrow> os_event list \<times> listen_end" where
  "listenUnix s os =
     (case removeResult os of
        Some err \<Rightarrow>
          if err \<noteq> NotExist then ([RemoveFile (socketPath s)], RemoveFailed err)
          else apfst ((#) (RemoveFile (socketPath s))) (listen_and_serve (socketPath s) os)
      | None \<Rightarrow> apfst ((#) (RemoveFile (socketPath s))) (listen_and_serve (socketPath s) os))"

text \<open>Where the server answers: the socket, by a goroutine of its own, and the port.\<close>

datatype endpoint = UnixSocket string | TcpPort int

definition Listen :: "Server \<Rightarrow> endpoint list" where
  "Listen s = (if socketPath s \<noteq> '''' then [UnixSocket (socketPath s)] else []) @ [TcpPort (appPort (serverApp s))]"

definition api_main ::
    "(u8 list \<Rightarrow> u8 list option) \<Rightarrow> (u8 list \<Rightarrow> Reference list option) \<Rightarrow> files \<Rightarrow> environment \<Rightarrow>
     (server_error + Server) option" where
  "api_main gunzip decode files env = do {
     r \<leftarrow> NewServer gunzip decode files (LoadConfig env);
     Some (map_sum (\<lambda>e. e) (server_around (LoadConfig env)) r) }"

subsection \<open>The health check\<close>

text \<open>The transport dials the socket if there is one. Durations in nanoseconds.\<close>

record http_client =
  clientTimeout :: int
  clientSocket :: "string option"

definition clientAndURL :: "environment \<Rightarrow> http_client \<times> string" where
  "clientAndURL env =
     (if env ''SOCKET_PATH'' \<noteq> ''''
      then (\<lparr>clientTimeout = 500000000, clientSocket = Some (env ''SOCKET_PATH'')\<rparr>, ''http://unix/ready'')
      else (\<lparr>clientTimeout = 500000000, clientSocket = None\<rparr>, ''http://127.0.0.1:8080/ready''))"

text \<open>The exit status; \<open>client.Get\<close> is an argument, \<open>None\<close> an error.\<close>

definition healthcheck_main :: "(http_client \<Rightarrow> string \<Rightarrow> int option) \<Rightarrow> environment \<Rightarrow> int" where
  "healthcheck_main http_get env =
     (case clientAndURL env of (client, url) \<Rightarrow>
      case http_get client url of
        None \<Rightarrow> 1
      | Some status \<Rightarrow> if status \<noteq> 200 then 1 else 0)"

subsection \<open>Preprocessing, then serving\<close>

text \<open>A run of the preprocessor leaves the index that the builder makes of the references.\<close>

lemma preprocess_writes:
  assumes "LoadReferences gunzip decode files (referencesPath flags) = Inr refs"
    and "preprocess_main gunzip decode files flags = Some (Inr files')"
  obtains bytes where "WriteIVFBinaryIndex refs (build_options flags) = Some (Inr bytes)"
    "files' = files(outPath flags \<mapsto> bytes)"
proof -
  obtain r where r: "WriteIVFBinaryIndex refs (build_options flags) = Some r"
    "(case r of Inl e \<Rightarrow> Some (Inl (WriteIndex e)) | Inr bytes \<Rightarrow> Some (Inr (files(outPath flags \<mapsto> bytes)))) = Some (Inr files')"
    using assms by (auto simp: preprocess_main_def bind_eq_Some_conv)
  then show thesis by (cases r) (auto intro: that)
qed

subsection \<open>The socket\<close>

text \<open>The listener serves exactly when the three calls before it succeed (a missing file is no failure), after
  the permissions are set; when they cannot be set it is closed again.\<close>

lemma listenUnix_serves:
  "ServeListener \<in> set (fst (listenUnix s os)) \<longleftrightarrow>
     (removeResult os = None \<or> removeResult os = Some NotExist) \<and> listenResult os = None \<and> chmodResult os = None"
  by (auto simp: listenUnix_def listen_and_serve_def split: option.splits)

lemma listenUnix_closes:
  "CloseListener \<in> set (fst (listenUnix s os)) \<longleftrightarrow> (\<exists>err. snd (listenUnix s os) = ChmodFailed err)"
  by (auto simp: listenUnix_def listen_and_serve_def split: option.splits if_splits)

subsection \<open>What the health check asks\<close>

text \<open>The endpoint a request goes to: the socket of the transport, or the port of the URL.\<close>

definition dialed :: "http_client \<Rightarrow> string \<Rightarrow> endpoint option" where
  "dialed client url =
     (case clientSocket client of
        Some path \<Rightarrow> Some (UnixSocket path)
      | None \<Rightarrow> map_option TcpPort (Atoi (takeWhile (\<lambda>c. c \<noteq> CHR ''/'') (tl (dropWhile (\<lambda>c. c \<noteq> CHR '':'') (drop 7 url))))))"

definition url_path :: "string \<Rightarrow> string" where
  "url_path url = dropWhile (\<lambda>c. c \<noteq> CHR ''/'') (drop 7 url)"

definition written_status :: "http_event list \<Rightarrow> int option" where
  "written_status es = (case filter (\<lambda>e. \<exists>n. e = WriteHeader n) es of WriteHeader n # _ \<Rightarrow> Some n | _ \<Rightarrow> None)"

text \<open>What the health check relies on in the HTTP libraries: a request to an endpoint of the server gets
  what the handler registered for its path writes, and one to another endpoint is an error.\<close>

definition answered_by :: "Server \<Rightarrow> (http_client \<Rightarrow> string \<Rightarrow> int option) \<Rightarrow> bool" where
  "answered_by s http_get \<longleftrightarrow> (\<forall>client url.
     (dialed client url \<notin> Some ` set (Listen s) \<longrightarrow> http_get client url = None) \<and>
     (dialed client url \<in> Some ` set (Listen s) \<and>
      Raw (bytes_of ''GET'') (bytes_of (url_path url)) ReadyHandler \<in> set (appRoutes (serverApp s)) \<longrightarrow>
        http_get client url = written_status ReadyRaw))"

lemma ready_route: "Raw (bytes_of ''GET'') (bytes_of ''/ready'') ReadyHandler \<in> set (appRoutes (serverApp (server_around cfg h)))"
  by (simp add: server_around_def RegisterRoutes_def registerPprof_def Let_def)

lemma url_parts: "url_path ''http://unix/ready'' = ''/ready''" "url_path ''http://127.0.0.1:8080/ready'' = ''/ready''"
  "dialed \<lparr>clientTimeout = t, clientSocket = None\<rparr> ''http://127.0.0.1:8080/ready'' = Some (TcpPort 8080)"
  "dialed \<lparr>clientTimeout = t, clientSocket = Some p\<rparr> url = Some (UnixSocket p)"
  by (simp_all add: url_path_def dialed_def Atoi_def digit_char_def Let_def)

lemma written_status_ready: "written_status ReadyRaw = Some 200"
  by (simp add: written_status_def ReadyRaw_def)

lemma configured_endpoints:
  "set (Listen (server_around (LoadConfig env) h)) =
     {e. (env ''SOCKET_PATH'' \<noteq> [] \<and> e = UnixSocket (env ''SOCKET_PATH'')) \<or> e = TcpPort (Port (LoadConfig env))}"
  by (auto simp: Listen_def server_around_def LoadConfig_def getenv_def Let_def)

lemma healthcheck_exit:
  assumes "answered_by (server_around (LoadConfig env) h) http_get"
  shows "healthcheck_main http_get env =
    (if env ''SOCKET_PATH'' \<noteq> [] \<or> Port (LoadConfig env) = 8080 then 0 else 1)"
proof -
  let ?s = "server_around (LoadConfig env) h"
  obtain client url where c: "clientAndURL env = (client, url)" by fastforce
  have path: "url_path url = ''/ready''" using c by (auto simp: clientAndURL_def url_parts split: if_splits)
  have d: "dialed client url \<in> Some ` set (Listen ?s) \<longleftrightarrow> env ''SOCKET_PATH'' \<noteq> [] \<or> Port (LoadConfig env) = 8080"
    using c by (auto simp: clientAndURL_def url_parts configured_endpoints split: if_splits)
  have "http_get client url = (if dialed client url \<in> Some ` set (Listen ?s) then Some 200 else None)"
    using assms ready_route [of "LoadConfig env" h] by (auto simp: answered_by_def path written_status_ready)
  with d show ?thesis by (simp add: healthcheck_main_def c)
qed

end
