(* ===== verification/Whole_System.thy ===== *)
theory Whole_System
  imports Lb_Service Commands
begin

text \<open>
  The parts together: the file that \<open>preprocess\<close> writes, the server that \<open>api\<close> starts on it and the load balancer in
  front of such servers.
\<close>

text \<open>What the environment's server serves after \<open>preprocess\<close> has run.\<close>

abbreviation served_index :: "environment \<Rightarrow> u8 list \<Rightarrow> QuantizedIndex \<Rightarrow> QuantizedIndex" where
  "served_index env bytes built \<equiv> configured_index (LoadConfig env) bytes built"

lemma preprocessed_server:
  assumes "LoadReferences gunzip decode files (referencesPath flags) = Inr refs"
    and "preprocess_main gunzip decode files flags = Some (Inr files')" "outPath flags = IndexPath (LoadConfig env)"
    and "refs_ok refs" "accepts refs (build_options flags)" "build_clusters (length refs) (clustersFlag flags) \<le> 8192"
  obtains built bytes where "BuildIVFIndex refs (build_options flags) = Some (Inr built)"
    "files' (IndexPath (LoadConfig env)) = Some bytes"
    "api_main gunzip decode files' env = Some (Inr (server_around (LoadConfig env) (NewHandlers
      (NewService DefaultNormalization DefaultMCCRisk (QuantizedSearcher (served_index env bytes built))) (BodyLimitBytes (LoadConfig env)))))"
    "searchable refs (served_index env bytes built)" "Repair (IVF (served_index env bytes built)) = ANNRepair (LoadConfig env)"
    "build_clusters (length refs) (clustersFlag flags) \<le> min 128 (ANNNProbe (LoadConfig env)) \<Longrightarrow>
      probes_all (served_index env bytes built)"
proof -
  obtain bytes where w: "WriteIVFBinaryIndex refs (build_options flags) = Some (Inr bytes)"
    "files' = files(outPath flags \<mapsto> bytes)" using preprocess_writes [OF assms(1,2)] .
  have f: "files' (IndexPath (LoadConfig env)) = Some bytes" using w(2) assms(3) by simp
  have c: "optClusters (build_options flags) = clustersFlag flags" by (simp add: build_options_def)
  obtain built where b: "BuildIVFIndex refs (build_options flags) = Some (Inr built)"
    "loadSearcher gunzip decode files' (LoadConfig env) = Some (Inr (QuantizedSearcher (served_index env bytes built)))"
    "searchable refs (served_index env bytes built)" "Repair (IVF (served_index env bytes built)) = ANNRepair (LoadConfig env)"
    "build_clusters (length refs) (clustersFlag flags) \<le> min 128 (ANNNProbe (LoadConfig env)) \<Longrightarrow>
      probes_all (served_index env bytes built)"
    using configured_server_index [where cfg = "LoadConfig env" and files = files' and gunzip = gunzip and decode = decode,
        OF assms(4,5) _ w(1) f IndexPath_not_empty, unfolded c, OF assms(6)] by metis
  show thesis by (rule that [OF b(1) f _ b(3,4,5)]) (simp_all add: api_main_def NewServer_def b(2))
qed

lemma serverHandlers_around [simp]: "serverHandlers (server_around cfg h) = h"
  by (simp add: server_around_def Let_def)

text \<open>The response to an accepted body, and when it is exact.\<close>

lemma served_response:
  assumes "searchable refs idx" "limit < 9223372036854775807" "delivered req limit = Inr data" "\<not> panics data" "\<not> body_fails data"
    and "Repair (IVF idx) = repair" "few \<Longrightarrow> probes_all idx"
  shows "\<exists>q released. VectorizeJSONQuantized data params = Some (Some q) \<and>
    FraudScoreRaw True (NewHandlers (NewService params risk (QuantizedSearcher idx)) limit) req pool =
      Some (Some (response_calls scoreContentType 200 (scoreResponses ! search_answer idx q)), released) \<and>
    (few \<longrightarrow> search_answer idx q = nearest_answer refs repair q) \<and>
    (repaired_exactly idx q \<longrightarrow> search_answer idx q = frauds_of (ref_cands refs q))"
proof -
  obtain q released where q: "VectorizeJSONQuantized data params = Some (Some q)" "quantized_query q"
    "FraudScoreRaw True (NewHandlers (NewService params risk (QuantizedSearcher idx)) limit) req pool =
      Some (Some (response_calls scoreContentType 200 (scoreResponses ! search_answer idx q)), released)"
    using served_answer [OF assms(1-5)] by blast
  note exact = searchable_nearest [OF assms(1) q(2)]
  show ?thesis using q(1,3) exact assms(6,7) by blast
qed

lemma system_answers:
  fixes env :: environment
  defines "cfg \<equiv> LoadConfig env"
  assumes "LoadReferences gunzip decode files (referencesPath flags) = Inr refs"
    and "preprocess_main gunzip decode files flags = Some (Inr files')" "outPath flags = IndexPath cfg"
    and "refs_ok refs" "accepts refs (build_options flags)" "build_clusters (length refs) (clustersFlag flags) \<le> 8192"
    and "api_main gunzip decode files' env = Some (Inr s)" "BodyLimitBytes cfg < 9223372036854775807"
    and "async_main lb_env resolve parse_addr is_ipv4 succeeds clients = Serving s0" "lb_reachable offers s0 t"
    and "\<exists>e \<in> set (endpoints s0). endpoint_serves (handler_service True (serverHandlers s) arrives) offers e"
    and "\<forall>e \<in> set (endpoints s0). endpoint_serves (handler_service True (serverHandlers s) arrives) offers e \<or> endpoint_broken offers e"
    and "\<And>i. separate (requests i)" "\<And>i g. g \<in> set (requests i) \<Longrightarrow> \<exists>req. arrives (concat g) req"
    and "\<And>i. pieces (clients i) = concat (requests i)"
    and "n < length (replies (tasks t i))" "\<not> panicking (BodyLimitBytes cfg) arrives (concat (requests i ! n))"
    and "\<forall>req. arrives (concat (requests i ! n)) req \<longrightarrow>
      (\<exists>data. delivered req (BodyLimitBytes cfg) = Inr data \<and> \<not> body_fails data)"
  shows "\<exists>built bytes req data q. BuildIVFIndex refs (build_options flags) = Some (Inr built) \<and>
    files' (IndexPath cfg) = Some bytes \<and> arrives (concat (requests i ! n)) req \<and>
    delivered req (BodyLimitBytes cfg) = Inr data \<and> VectorizeJSONQuantized data DefaultNormalization = Some (Some q) \<and>
    http_response (response_calls scoreContentType 200 (scoreResponses ! search_answer (configured_index cfg bytes built) q))
      (replies (tasks t i) ! n) \<and>
    (build_clusters (length refs) (clustersFlag flags) \<le> min 128 (ANNNProbe cfg) \<longrightarrow>
      search_answer (configured_index cfg bytes built) q = nearest_answer refs (ANNRepair cfg) q) \<and>
    (repaired_exactly (configured_index cfg bytes built) q \<longrightarrow>
      search_answer (configured_index cfg bytes built) q = frauds_of (ref_cands refs q))"
proof -
  let ?limit = "BodyLimitBytes cfg"
  obtain built bytes where b: "BuildIVFIndex refs (build_options flags) = Some (Inr built)" "files' (IndexPath cfg) = Some bytes"
    "api_main gunzip decode files' env = Some (Inr (server_around cfg (NewHandlers
      (NewService DefaultNormalization DefaultMCCRisk (QuantizedSearcher (configured_index cfg bytes built))) ?limit)))"
    "searchable refs (configured_index cfg bytes built)" "Repair (IVF (configured_index cfg bytes built)) = ANNRepair cfg"
    "build_clusters (length refs) (clustersFlag flags) \<le> min 128 (ANNNProbe cfg) \<Longrightarrow> probes_all (configured_index cfg bytes built)"
    unfolding cfg_def by (rule preprocessed_server [OF assms(2,3) assms(4) [unfolded cfg_def] assms(5-7)]) (rule that [unfolded cfg_def])
  let ?idx = "configured_index cfg bytes built"
  let ?h = "NewHandlers (NewService DefaultNormalization DefaultMCCRisk (QuantizedSearcher ?idx)) ?limit"
  have "s = server_around cfg ?h" using assms(8) b(3) by simp
  then have h: "serverHandlers s = ?h" by (simp only: serverHandlers_around)
  have lim: "bodyLimit ?h < 9223372036854775807" using assms(9) by (simp add: NewHandlers_def)
  have "served (handler_service True ?h arrives) (requests i) (tasks t i)"
    by (rule every_client_served [OF lim assms(10,11) assms(12,13) [unfolded h] assms(14-16)])
  from served_in_order [OF this assms(17)] handler_service_ends [OF searchable_searcher [OF b(4)] assms(9), where arrives = arrives] assms(18)
  have "handler_service True ?h arrives (concat (requests i ! n)) (Some (replies (tasks t i) ! n))" by blast
  from service_scored [OF this searchable_searcher [OF b(4)] assms(9,18)]
  obtain req pool es released where r: "arrives (concat (requests i ! n)) req"
    "FraudScoreRaw True ?h req pool = Some (Some es, released)" "http_response es (replies (tasks t i) ! n)"
    unfolding scored_def by blast
  obtain data where d: "delivered req ?limit = Inr data" "\<not> body_fails data" using assms(19) r(1) by blast
  have "\<not> panics data" using assms(18) r(1) d(1) by (auto simp: panicking_def)
  from served_response [where params = DefaultNormalization and risk = DefaultMCCRisk and pool = pool,
      OF b(4) assms(9) d(1) this d(2) b(5,6)] r(2)
  obtain q where q: "VectorizeJSONQuantized data DefaultNormalization = Some (Some q)"
    "es = response_calls scoreContentType 200 (scoreResponses ! search_answer ?idx q)"
    "build_clusters (length refs) (clustersFlag flags) \<le> min 128 (ANNNProbe cfg) \<longrightarrow> search_answer ?idx q = nearest_answer refs (ANNRepair cfg) q"
    "repaired_exactly ?idx q \<longrightarrow> search_answer ?idx q = frauds_of (ref_cands refs q)" by auto
  show ?thesis using b(1,2) r(1) d(1) q(1,3,4) r(3) [unfolded q(2)] by blast
qed

end
