(* ===== verification/Lb_Progress.thy ===== *)
theory Lb_Progress
  imports Lb_Concurrent
begin

text \<open>
  Progress of the load balancer's tasks: every task ends after a bounded number of its own steps and never waits for
  another, a task that is not interrupted does what \<open>handle_client\<close> of \<open>Lb_Proxy\<close> does, and an error of the
  accept loop ends all of them.
\<close>

subsection \<open>Every task ends\<close>

fun task_of :: "lb_event \<Rightarrow> nat option" where
  "task_of (Accept i nodelay) = None"
| "task_of AcceptFailed = None"
| "task_of (ReadRequest i) = Some i"
| "task_of (ChooseUpstream i) = Some i"
| "task_of (PopIdle i) = Some i"
| "task_of (Connect i r) = Some i"
| "task_of (WriteRequest i) = Some i"
| "task_of (ReadResponse i) = Some i"
| "task_of (ReleaseConn i) = Some i"
| "task_of (ClearIdle i) = Some i"
| "task_of (WriteReply i ok) = Some i"

text \<open>The steps a task has left at most, with \<open>n\<close> upstreams.\<close>

fun stage_left :: "nat \<Rightarrow> stage \<Rightarrow> nat" where
  "stage_left n (Choosing q) = 5 * n + 3"
| "stage_left n (Trying q f k) = 5 * (n - k - 1) + 7"
| "stage_left n (Connecting q f k) = 5 * (n - k - 1) + 6"
| "stage_left n (Writing q f k c) = 5 * (n - k - 1) + 5"
| "stage_left n (AwaitingResponse q f k c) = 5 * (n - k - 1) + 4"
| "stage_left n (Clearing q f k) = 5 * (n - k - 1) + 3"
| "stage_left n (Releasing r j c) = 3"
| "stage_left n (Replying r) = 2"
| "stage_left n st = 1"

definition task_left :: "nat \<Rightarrow> lb_task \<Rightarrow> nat" where
  "task_left n t = (case stage t of Closed ok \<Rightarrow> 0 | st \<Rightarrow> length (pieces (client_conn t)) * (5 * n + 3) + stage_left n st)"

lemma next_try_left [simp]:
  "stage_left (length (upstreams p)) (next_try q f 0 p) < 5 * length (upstreams p) + 3"
  "stage_left (length (upstreams p)) (next_try q f (Suc k) p) < 5 * (length (upstreams p) - Suc k) + 3"
  by (auto simp: next_try_def neq_Nil_conv)

lemma in_work_next_try [simp]: "in_work (next_try q f k p)"
  by (simp add: next_try_def)

lemma task_left_work:
  "in_work (stage t) \<Longrightarrow> task_left n t = length (pieces (client_conn t)) * (5 * n + 3) + stage_left n (stage t)"
  by (cases "stage t") (simp_all add: task_left_def)

lemma task_left_waiting:
  "stage t = AwaitingRequest \<or> stage t = Backlog \<Longrightarrow> task_left n t = length (pieces (client_conn t)) * (5 * n + 3) + 1"
  by (auto simp: task_left_def)

lemma task_left_closed [simp]: "task_left n (t\<lparr>stage := Closed ok\<rparr>) = 0"
  by (simp add: task_left_def)

lemma task_left_read:
  assumes "stage T = AwaitingRequest" "read_http_message (client_conn T) = Message request rest"
  shows "task_left n (T\<lparr>client_conn := rest, stage := Choosing request\<rparr>) < task_left n T"
proof -
  have "Suc (length (pieces rest)) * (5 * n + 3) \<le> length (pieces (client_conn T)) * (5 * n + 3)"
    using read_http_message_shorter [OF assms(2)] by (intro mult_le_mono1) simp
  with assms(1) show ?thesis by (simp add: task_left_def)
qed

lemma lb_move_left:
  assumes "lb_move offers e s = Some t"
  shows "if task_of e = Some i then task_left (length (upstreams (shared s))) (tasks t i) < task_left (length (upstreams (shared s))) (tasks s i)
    else task_left (length (upstreams (shared s))) (tasks t i) = task_left (length (upstreams (shared s))) (tasks s i)"
proof (cases e)
  case (Accept k nodelay)
  with assms show ?thesis by (auto simp: lb_simps task_left_waiting split: if_splits)
next
  case AcceptFailed
  with assms show ?thesis by auto
next
  case (ReadRequest k)
  then have "stage (tasks s k) = AwaitingRequest" using assms by (auto split: stage.splits)
  then have "0 < task_left n (tasks s k)" for n by (simp add: task_left_waiting)
  with assms ReadRequest show ?thesis by (auto simp: lb_simps task_left_read split: stage.splits message.splits)
next
  case (WriteReply k ok)
  with assms show ?thesis
    by (auto simp: lb_simps task_left_waiting task_left_work split: stage.splits option.splits if_splits)
qed (use assms in \<open>auto simp: lb_simps Let_def task_left_work split: lb_move_splits\<close>)

lemma lb_run_left:
  assumes "foldM (lb_event_step offers) es s = Some t"
  shows "length (filter (\<lambda>e. task_of e = Some i) es) + task_left (length (upstreams (shared s))) (tasks t i) \<le>
    task_left (length (upstreams (shared s))) (tasks s i)"
  using assms
proof (induction es arbitrary: s)
  case (Cons e es)
  then obtain u where u: "lb_event_step offers e s = Some u" "foldM (lb_event_step offers) es u = Some t"
    by (auto simp: bind_eq_Some_conv)
  then have m: "lb_move offers e s = Some u" by (simp add: lb_event_move)
  from Cons.IH [OF u(2)] lb_move_left [OF m, of i] lb_move_length [OF m] show ?case by (auto split: if_splits)
qed simp

text \<open>A task that has not ended can step, whatever the others do.\<close>

lemma task_can_step:
  assumes "running s" "stage (tasks s i) \<noteq> Backlog" "\<And>ok. stage (tasks s i) \<noteq> Closed ok" "\<forall>e. \<exists>r. offers e r"
  shows "\<exists>e t. task_of e = Some i \<and> lb_event_step offers e s = Some t \<and> running t"
proof -
  have go: "\<exists>e t. task_of e = Some i \<and> lb_event_step offers e s = Some t \<and> running t"
    if "task_of e = Some i" "lb_move offers e s \<noteq> None" for e
  proof -
    from that(2) obtain t where t: "lb_move offers e s = Some t" by auto
    moreover have "running t" using t that(1) assms(1) by (cases e) (auto simp: lb_simps Let_def split: lb_move_splits)
    ultimately show ?thesis using that(1) assms(1) by (intro exI [of _ e] exI [of _ t]) (simp add: lb_event_step_def)
  qed
  show ?thesis
  proof (cases "stage (tasks s i)")
    case AwaitingRequest
    then show ?thesis by (intro go [of "ReadRequest i"]) (auto split: message.splits)
  next
    case (Choosing q)
    then show ?thesis by (intro go [of "ChooseUpstream i"]) (auto split: prod.splits)
  next
    case (Trying q f k)
    then show ?thesis by (intro go [of "PopIdle i"]) (auto simp: Let_def split: option.splits)
  next
    case (Connecting q f k)
    obtain r where "offers (endpoints s ! pool_at f k (shared s)) r" using assms(4) by blast
    with Connecting show ?thesis by (intro go [of "Connect i r"]) (auto simp: Let_def split: option.splits)
  next
    case (Writing q f k c)
    then show ?thesis by (intro go [of "WriteRequest i"]) (auto simp: Let_def)
  next
    case (AwaitingResponse q f k c)
    then show ?thesis by (intro go [of "ReadResponse i"]) (auto split: message.splits)
  next
    case (Releasing r j c)
    then show ?thesis by (intro go [of "ReleaseConn i"]) auto
  next
    case (Clearing q f k)
    then show ?thesis by (intro go [of "ClearIdle i"]) (auto simp: Let_def)
  next
    case (Replying r)
    then show ?thesis by (intro go [of "WriteReply i True"]) (auto split: option.splits)
  qed (use assms(2,3) in auto)
qed

lemma stage_not_backlog:
  "lb_move offers e s = Some t \<Longrightarrow> task_of e = Some i \<Longrightarrow> stage (tasks t i) \<noteq> Backlog"
  by (cases e) (auto simp: lb_simps Let_def next_try_def split: lb_move_splits)

lemma task_ends:
  assumes "running s" "stage (tasks s i) \<noteq> Backlog" "\<forall>e. \<exists>r. offers e r"
  shows "\<exists>es t ok. list_all (\<lambda>e. task_of e = Some i) es \<and> length es \<le> task_left (length (upstreams (shared s))) (tasks s i) \<and>
    foldM (lb_event_step offers) es s = Some t \<and> stage (tasks t i) = Closed ok"
  using assms(1,2)
proof (induction "task_left (length (upstreams (shared s))) (tasks s i)" arbitrary: s rule: less_induct)
  case less
  show ?case
  proof (cases "\<exists>ok. stage (tasks s i) = Closed ok")
    case True
    then show ?thesis by (intro exI [of _ "[]"]) auto
  next
    case False
    with task_can_step [OF less.prems _ assms(3)] obtain e t where
      e: "task_of e = Some i" "lb_event_step offers e s = Some t" "running t" by blast
    then have m: "lb_move offers e s = Some t" by (simp add: lb_event_move)
    have d: "task_left (length (upstreams (shared t))) (tasks t i) < task_left (length (upstreams (shared s))) (tasks s i)"
      using lb_move_left [OF m, of i] e(1) lb_move_length [OF m] by simp
    from less.hyps [OF d e(3) stage_not_backlog [OF m e(1)]] obtain es u ok where
      "list_all (\<lambda>e. task_of e = Some i) es" "length es \<le> task_left (length (upstreams (shared t))) (tasks t i)"
      "foldM (lb_event_step offers) es t = Some u" "stage (tasks u i) = Closed ok" by blast
    with e d show ?thesis by (intro exI [of _ "e # es"]) auto
  qed
qed

lemma lb_run_reachable:
  assumes "foldM (lb_event_step offers) es s = Some t" "lb_reachable offers s0 s"
  shows "lb_reachable offers s0 t"
  using assms
proof (induction es arbitrary: s)
  case (Cons e es)
  then obtain u where u: "lb_event_step offers e s = Some u" "foldM (lb_event_step offers) es u = Some t"
    by (auto simp: bind_eq_Some_conv)
  from u(1) have "lb_step offers s u" by (rule lb_step.step)
  with Cons.prems(2) have "lb_reachable offers s0 u" by (rule lb_reachable.next_step)
  with u(2) show ?case by (rule Cons.IH)
qed simp

subsection \<open>A task alone is \<open>handle_client\<close>\<close>

text \<open>The steps of one task without interruption; the connections that \<open>Lb_Proxy\<close> has in its pools come with the
  events here.\<close>

definition anything :: "'addr UpstreamEndpoint \<Rightarrow> attempt \<Rightarrow> bool" where
  "anything e r \<longleftrightarrow> True"

definition alone_run :: "nat \<Rightarrow> 'addr lb_state \<Rightarrow> 'addr lb_state \<Rightarrow> bool" where
  "alone_run i s t \<longleftrightarrow> (\<exists>es. list_all (\<lambda>e. task_of e = Some i) es \<and> foldM (lb_event_step anything) es s = Some t)"

lemma alone_run_refl: "alone_run i s s"
  unfolding alone_run_def by (rule exI [of _ "[]"]) simp

lemma alone_run_trans [trans]: "alone_run i s t \<Longrightarrow> alone_run i t u \<Longrightarrow> alone_run i s u"
  unfolding alone_run_def
proof (elim exE conjE)
  fix es fs assume "list_all (\<lambda>e. task_of e = Some i) es" "foldM (lb_event_step anything) es s = Some t"
    "list_all (\<lambda>e. task_of e = Some i) fs" "foldM (lb_event_step anything) fs t = Some u"
  then show "\<exists>es. list_all (\<lambda>e. task_of e = Some i) es \<and> foldM (lb_event_step anything) es s = Some u"
    by (intro exI [of _ "es @ fs"]) (simp add: foldM_append)
qed

lemma alone_run_step:
  assumes "task_of e = Some i" "running s" "lb_move anything e s = Some t"
  shows "alone_run i s t"
  unfolding alone_run_def using assms by (intro exI [of _ "[e]"]) (simp add: lb_event_step_def)

lemma move_to_twice [simp]: "move_to i st' p' (move_to i st p s) = move_to i st' p' s"
  by (simp add: move_to_def)

definition no_accepts :: "UpstreamPool \<Rightarrow> UpstreamPool" where
  "no_accepts pool = pool\<lparr>accepts_next := []\<rparr>"

lemma no_accepts_idle: "no_accepts (pool\<lparr>idle_conns := xs\<rparr>) = (no_accepts pool)\<lparr>idle_conns := xs\<rparr>"
  by (cases pool) (simp add: no_accepts_def)

definition without_accepts :: "Proxy \<Rightarrow> Proxy" where
  "without_accepts p = p\<lparr>upstreams := map no_accepts (upstreams p)\<rparr>"

lemma without_accepts_simps [lb_simps]:
  "upstreams (without_accepts p) = map no_accepts (upstreams p)" "balancer (without_accepts p) = balancer p"
  by (simp_all add: without_accepts_def)

lemma set_pool_without:
  "set_pool j (no_accepts pool) (without_accepts p) = without_accepts (set_pool j pool p)"
  by (simp add: set_pool_def without_accepts_def map_update)

lemma set_pool_twice [simp]: "set_pool j q (set_pool j q' p) = set_pool j q p"
  by (simp add: set_pool_def)

lemma set_pool_same: "j < length (upstreams p) \<Longrightarrow> q = upstreams p ! j \<Longrightarrow> set_pool j q p = p"
  by (simp add: set_pool_def)

lemma pool_at_without [simp]: "pool_at f k (without_accepts p) = pool_at f k p" "pool_at f k (set_pool j q p) = pool_at f k p"
  by (simp_all add: pool_at_def lb_simps)

text \<open>Taking a connection.\<close>

lemma alone_acquire:
  assumes "running s" "acquire (upstreams p ! pool_at f k p) = (r, pool)" "k < length (upstreams p)"
  shows "alone_run i (move_to i (Trying q f k) (without_accepts p) s)
    (move_to i (case r of None \<Rightarrow> Clearing q f k | Some c \<Rightarrow> Writing q f k c)
      (without_accepts (set_pool (pool_at f k p) pool p)) s)"
proof -
  let ?j = "pool_at f k p" and ?s = "move_to i (Trying q f k) (without_accepts p) s"
  have j: "?j < length (upstreams p)" using assms(3) by (rule pool_at_bound)
  have run: "running ?s" using assms(1) by (simp add: lb_simps)
  show ?thesis
  proof (cases "idle_conns (upstreams p ! ?j) = []")
    case False
    then have r: "r = Some (last (idle_conns (upstreams p ! ?j)))"
      "pool = (upstreams p ! ?j)\<lparr>idle_conns := butlast (idle_conns (upstreams p ! ?j))\<rparr>"
      using assms(2) by (auto simp: acquire_def)
    have "lb_move anything (PopIdle i) ?s = Some (move_to i (case r of None \<Rightarrow> Clearing q f k | Some c \<Rightarrow> Writing q f k c)
        (without_accepts (set_pool ?j pool p)) s)"
      using False j by (simp add: lb_simps pop_idle_def Let_def r set_pool_without [symmetric] no_accepts_idle)
        (simp add: no_accepts_def)
    then show ?thesis by (rule alone_run_step [where e = "PopIdle i", OF _ run, rotated]) simp
  next
    case True
    let ?u = "move_to i (Connecting q f k) (without_accepts p) s"
    have pool: "without_accepts (set_pool ?j pool p) = without_accepts p"
      unfolding set_pool_without [symmetric] using assms(2) True j
      by (intro set_pool_same) (auto simp: lb_simps acquire_def no_accepts_def split: list.splits)
    have "lb_move anything (PopIdle i) ?s = Some ?u" using True j by (simp add: lb_simps pop_idle_def no_accepts_def)
    then have "alone_run i ?s ?u" by (rule alone_run_step [where e = "PopIdle i", OF _ run, rotated]) simp
    also have "alone_run i ?u (move_to i (case r of None \<Rightarrow> Clearing q f k | Some c \<Rightarrow> Writing q f k c) (without_accepts p) s)"
    proof (rule alone_run_step [where e = "Connect i (case r of None \<Rightarrow> Refused | Some c \<Rightarrow> Connected c True)"])
      show "lb_move anything (Connect i (case r of None \<Rightarrow> Refused | Some c \<Rightarrow> Connected c True)) ?u =
          Some (move_to i (case r of None \<Rightarrow> Clearing q f k | Some c \<Rightarrow> Writing q f k c) (without_accepts p) s)"
        by (cases r) (simp_all add: lb_simps anything_def opened_def split: UpstreamEndpoint.split)
    qed (use assms(1) in \<open>simp_all add: lb_simps\<close>)
    finally show ?thesis unfolding pool .
  qed
qed

text \<open>One attempt.\<close>

lemma alone_forward_once:
  assumes "running s" "forward_once q (upstreams p ! pool_at f k p) = (r, pool)" "k < length (upstreams p)"
  shows "alone_run i (move_to i (Trying q f k) (without_accepts p) s)
    (move_to i (case r of None \<Rightarrow> Clearing q f k | Some response \<Rightarrow> Replying (Some response))
      (without_accepts (set_pool (pool_at f k p) pool p)) s)"
proof -
  let ?j = "pool_at f k p"
  obtain c pool1 where a: "acquire (upstreams p ! ?j) = (c, pool1)" by fastforce
  have j: "?j < length (upstreams p)" using assms(3) by (rule pool_at_bound)
  note acq = alone_acquire [OF assms(1) a assms(3), of i q]
  show ?thesis
  proof (cases c)
    case None
    with a assms(2) have "r = None" "pool = pool1" by (simp_all add: forward_once_def)
    with acq None show ?thesis by simp
  next
    case (Some d)
    let ?P = "set_pool ?j pool1 p"
    note acq = acq [unfolded Some option.case]
    let ?w = "move_to i (Writing q f k d) (without_accepts ?P) s"
    have run: "running (move_to i st p' s)" for st p' using assms(1) by (simp add: lb_simps)
    show ?thesis
    proof (cases "conn_writable d")
      case False
      with a Some assms(2) have r: "r = None" "pool = pool1" by (simp_all add: forward_once_def)
      note acq
      also have "alone_run i ?w (move_to i (Clearing q f k) (without_accepts ?P) s)"
        using False by (intro alone_run_step [where e = "WriteRequest i"] run) (simp_all add: lb_simps)
      finally show ?thesis using r by simp
    next
      case True
      let ?pool2 = "pool1\<lparr>received := received pool1 @ [q]\<rparr>" and ?d = "write_request q d"
      let ?Q = "set_pool ?j ?pool2 p"
      have recv: "(no_accepts pool1)\<lparr>received := received (no_accepts pool1) @ [q]\<rparr> = no_accepts ?pool2" by (simp add: no_accepts_def)
      have "lb_move anything (WriteRequest i) ?w = Some (move_to i (AwaitingResponse q f k ?d) (without_accepts ?Q) s)"
        using True j recv by (simp add: lb_simps Let_def set_pool_without)
      then have wrote: "alone_run i (move_to i (Trying q f k) (without_accepts p) s)
          (move_to i (AwaitingResponse q f k ?d) (without_accepts ?Q) s)"
        by (intro alone_run_trans [OF acq] alone_run_step [where e = "WriteRequest i"] run) simp_all
      show ?thesis
      proof (cases "read_http_message (incoming ?d)")
        case (Message response rest)
        let ?e = "?d\<lparr>incoming := rest\<rparr>"
        have r: "r = Some response" "pool = release ?e ?pool2" using a Some True Message assms(2) by (simp_all add: forward_once_def Let_def)
        have rel: "release ?e (no_accepts ?pool2) = no_accepts pool" by (simp add: r(2) release_def no_accepts_def)
        note wrote
        also have "alone_run i (move_to i (AwaitingResponse q f k ?d) (without_accepts ?Q) s)
            (move_to i (Releasing response ?j ?e) (without_accepts ?Q) s)"
          using Message by (intro alone_run_step [where e = "ReadResponse i"] run) (simp_all add: lb_simps)
        also have "alone_run i (move_to i (Releasing response ?j ?e) (without_accepts ?Q) s)
            (move_to i (Replying (Some response)) (without_accepts (set_pool ?j pool p)) s)"
          using j rel by (intro alone_run_step [where e = "ReleaseConn i"] run) (simp_all add: lb_simps set_pool_without)
        finally show ?thesis using r(1) by simp
      next
        case NoMessage
        then have r: "r = None" "pool = ?pool2" using a Some True assms(2) by (simp_all add: forward_once_def Let_def)
        have "alone_run i (move_to i (AwaitingResponse q f k ?d) (without_accepts ?Q) s) (move_to i (Clearing q f k) (without_accepts ?Q) s)"
          using NoMessage by (intro alone_run_step [where e = "ReadResponse i"] run) (simp_all add: lb_simps)
        with alone_run_trans [OF wrote] r show ?thesis by simp
      next
        case ReadError
        then have r: "r = None" "pool = ?pool2" using a Some True assms(2) by (simp_all add: forward_once_def Let_def)
        have "alone_run i (move_to i (AwaitingResponse q f k ?d) (without_accepts ?Q) s) (move_to i (Clearing q f k) (without_accepts ?Q) s)"
          using ReadError by (intro alone_run_step [where e = "ReadResponse i"] run) (simp_all add: lb_simps)
        with alone_run_trans [OF wrote] r show ?thesis by simp
      qed
    qed
  qed
qed

text \<open>The attempts, from the \<open>k\<close>-th.\<close>

lemma alone_try_upstreams:
  assumes "running s" "try_upstreams q [k..<length (upstreams p)] f (upstreams p) = (r, pools)"
  shows "alone_run i (move_to i (next_try q f k p) (without_accepts p) s)
    (move_to i (Replying r) (without_accepts (p\<lparr>upstreams := pools\<rparr>)) s)"
  using assms(2)
proof (induction "length (upstreams p) - k" arbitrary: k p)
  case 0
  then have "length (upstreams p) \<le> k" by simp
  with 0 show ?case by (auto simp: next_try_def without_accepts_def alone_run_refl)
next
  case (Suc n)
  then have k: "k < length (upstreams p)" by simp
  let ?j = "pool_at f k p"
  obtain r1 pool where f: "forward_once q (upstreams p ! ?j) = (r1, pool)" by fastforce
  note once = alone_forward_once [OF assms(1) f k, of i]
  have upt: "[k..<length (upstreams p)] = k # [Suc k..<length (upstreams p)]" using k by (rule upt_conv_Cons)
  have attempt: "next_try q f k p = Trying q f k" using k by (simp add: next_try_def)
  show ?case
  proof (cases r1)
    case (Some response)
    then have "r = Some response" "pools = (upstreams p)[?j := pool]"
      using Suc.prems f by (auto simp: upt pool_at_def Let_def)
    then show ?thesis using once Some attempt by (simp add: set_pool_def)
  next
    case None
    let ?P = "set_pool ?j (clear_idle pool) p"
    have rest: "try_upstreams q [Suc k..<length (upstreams ?P)] f (upstreams ?P) = (r, pools)"
      using Suc.prems f None by (simp add: upt pool_at_def Let_def lb_simps)
    have clear: "clear_idle (no_accepts pool) = no_accepts (clear_idle pool)" by (simp add: clear_idle_def no_accepts_def)
    have j: "?j < length (upstreams p)" using k by (rule pool_at_bound)
    note once [unfolded None option.case, folded attempt]
    also have "alone_run i (move_to i (Clearing q f k) (without_accepts (set_pool ?j pool p)) s)
        (move_to i (next_try q f (Suc k) ?P) (without_accepts ?P) s)"
      using j by (intro alone_run_step [where e = "ClearIdle i"])
        (simp_all add: lb_simps assms(1) Let_def clear set_pool_without next_try_def)
    also have "alone_run i (move_to i (next_try q f (Suc k) ?P) (without_accepts ?P) s)
        (move_to i (Replying r) (without_accepts (?P\<lparr>upstreams := pools\<rparr>)) s)"
      using Suc.hyps(2) rest by (intro Suc.hyps(1)) (simp_all add: lb_simps)
    finally show ?thesis by (simp add: set_pool_def)
  qed
qed

lemma alone_forward:
  assumes "running s" "forward_with_retry q p = (r, p')"
  shows "alone_run i (move_to i (Choosing q) (without_accepts p) s) (move_to i (Replying r) (without_accepts p') s)"
proof -
  obtain first rr where rr: "rr_next (balancer p) = (first, rr)" by fastforce
  obtain pools where t: "try_upstreams q [0..<length (upstreams p)] (unat first) (upstreams p) = (r, pools)"
    "p' = p\<lparr>balancer := rr, upstreams := pools\<rparr>" using assms(2) rr
    by (cases p) (auto simp: forward_with_retry_def split: prod.splits)
  let ?P = "p\<lparr>balancer := rr\<rparr>"
  have "alone_run i (move_to i (Choosing q) (without_accepts p) s) (move_to i (next_try q (unat first) 0 ?P) (without_accepts ?P) s)"
    by (intro alone_run_step [where e = "ChooseUpstream i"])
      (simp_all add: lb_simps assms(1) rr next_try_def without_accepts_def)
  also have "alone_run i (move_to i (next_try q (unat first) 0 ?P) (without_accepts ?P) s)
      (move_to i (Replying r) (without_accepts (?P\<lparr>upstreams := pools\<rparr>)) s)"
    using t(1) by (intro alone_try_upstreams [OF assms(1)]) simp
  finally show ?thesis by (simp add: t(2))
qed

lemma move_to_id: "stage (tasks s i) = st \<Longrightarrow> shared s = p \<Longrightarrow> move_to i st p s = s"
  by (auto simp: move_to_def)

lemma alone_is_handle_client:
  assumes "running s" "stage (tasks s i) = AwaitingRequest" "client_conn (tasks s i) = client" "shared s = without_accepts p"
    and "handle_client write_ok n client p = (rs, p')"
  shows "\<exists>t ok. alone_run i s t \<and> stage (tasks t i) = Closed ok \<and> replies (tasks t i) = replies (tasks s i) @ rs \<and>
    shared t = without_accepts p'"
  using assms
proof (induction "length (pieces client)" arbitrary: s client p n rs rule: less_induct)
  case less
  let ?T = "tasks s i"
  show ?case
  proof (cases "read_http_message client")
    case (Message q rest)
    let ?s = "s\<lparr>tasks := (tasks s)(i := ?T\<lparr>client_conn := rest, stage := Choosing q\<rparr>)\<rparr>"
    obtain r p1 where f: "forward_with_retry q p = (r, p1)" by fastforce
    let ?u = "move_to i (Replying r) (without_accepts p1) ?s"
    have run: "running ?s" "running ?u" using less.prems(1) by (simp_all add: lb_simps)
    have "alone_run i s ?s" using less.prems Message by (intro alone_run_step [where e = "ReadRequest i"]) simp_all
    also have "alone_run i ?s ?u"
      using alone_forward [OF run(1) f, of i] move_to_id [of ?s i "Choosing q" "without_accepts p"] less.prems(4) by simp
    finally have served: "alone_run i s ?u" .
    show ?thesis
    proof (cases "\<exists>response. r = Some response \<and> write_ok n")
      case True
      then obtain response where r: "r = Some response" "write_ok n" by blast
      obtain rs' where h: "handle_client write_ok (n + 1) rest p1 = (rs', p')" "rs = response # rs'"
        using less.prems(5) Message f r by (subst (asm) handle_client.simps) (auto simp: apfst_def map_prod_def split: prod.splits)
      let ?v = "?u\<lparr>tasks := (tasks ?u)(i := (tasks ?u i)\<lparr>replies := replies (tasks ?u i) @ [response], stage := AwaitingRequest\<rparr>)\<rparr>"
      have "alone_run i ?u ?v" using r run(2)
        by (intro alone_run_step [where e = "WriteReply i True"]) (simp_all add: lb_simps)
      with served have to_v: "alone_run i s ?v" by (rule alone_run_trans)
      have "\<exists>t ok. alone_run i ?v t \<and> stage (tasks t i) = Closed ok \<and> replies (tasks t i) = replies (tasks ?v i) @ rs' \<and>
          shared t = without_accepts p'"
        by (rule less.hyps [OF _ _ _ _ _ h(1)]) (use Message less.prems(1) in \<open>auto simp: lb_simps dest: read_http_message_shorter\<close>)
      then obtain t ok where t: "alone_run i ?v t" "stage (tasks t i) = Closed ok" "replies (tasks t i) = replies (tasks ?v i) @ rs'"
        "shared t = without_accepts p'" by blast
      have "replies (tasks t i) = replies ?T @ rs" using t(3) h(2) by (simp add: lb_simps)
      with alone_run_trans [OF to_v t(1)] t(2,4) show ?thesis by blast
    next
      case False
      have h: "rs = (if r = None \<and> write_ok n then [BAD_GATEWAY] else [])" "p' = p1"
        using less.prems(5) Message f False by (auto simp: handle_client.simps [of _ n client] split: option.splits if_splits)
      obtain t where t: "lb_move anything (WriteReply i (write_ok n)) ?u = Some t" by (cases r) (simp_all add: lb_simps)
      have "alone_run i ?u t" using t run(2) by (intro alone_run_step [where e = "WriteReply i (write_ok n)"]) simp_all
      moreover have "\<exists>ok. stage (tasks t i) = Closed ok" "replies (tasks t i) = replies ?T @ rs" "shared t = without_accepts p'"
        using t False h by (auto simp: lb_simps split: option.splits if_splits)
      ultimately show ?thesis using alone_run_trans [OF served] by blast
    qed
  next
    case NoMessage
    then have "rs = []" "p' = p" using less.prems(5) by (auto simp: handle_client.simps [of _ n client])
    with NoMessage less.prems show ?thesis
      by (intro exI [of _ "move_to i (Closed True) (shared s) s"] exI [of _ True] conjI alone_run_step [where e = "ReadRequest i"])
        (simp_all add: lb_simps)
  next
    case ReadError
    then have "rs = []" "p' = p" using less.prems(5) by (auto simp: handle_client.simps [of _ n client])
    with ReadError less.prems show ?thesis
      by (intro exI [of _ "move_to i (Closed False) (shared s) s"] exI [of _ False] conjI alone_run_step [where e = "ReadRequest i"])
        (simp_all add: lb_simps)
  qed
qed

subsection \<open>An error of the accept loop\<close>

definition ends_serving :: "lb_event \<Rightarrow> bool" where
  "ends_serving e \<longleftrightarrow> e = AcceptFailed \<or> (\<exists>i. e = Accept i False)"

lemma ends_serving_last:
  assumes "foldM (lb_event_step offers) (es @ e # fs) s0 = Some s" "ends_serving e"
  shows "fs = [] \<and> \<not> running s \<and> (\<exists>t. foldM (lb_event_step offers) es s0 = Some t \<and> tasks s = tasks t)"
proof -
  obtain t u where t: "foldM (lb_event_step offers) es s0 = Some t" "lb_event_step offers e t = Some u"
    "foldM (lb_event_step offers) fs u = Some s" using assms(1) by (auto simp: foldM_append bind_eq_Some_conv)
  then have u: "\<not> running u" "tasks u = tasks t"
    using assms(2) by (auto simp: lb_event_step_def ends_serving_def split: if_splits)
  then have "fs = []" using t(3) by (cases fs) (simp_all add: lb_event_step_def)
  with t u show ?thesis by auto
qed

end
