(* ===== verification/Serve_Samples.thy ===== *)
theory Serve_Samples
  imports Pool_Protocol Evaluate Whole_System Lb_Progress Json_Samples Build_Samples
begin

text \<open>Concrete inputs: interleaved requests, test entries, connections of the load balancer.\<close>

subsection \<open>Interleaved requests\<close>

definition pool_handlers :: Handlers where
  "pool_handlers = NewHandlers (NewService DefaultNormalization DefaultMCCRisk (ExactSearcher [])) 4"

text \<open>The even requests announce two bytes and send them, the odd ones announce three and send two.\<close>

definition pool_requests :: "nat \<Rightarrow> request" where
  "pool_requests i = \<lparr>ContentLength = (if even i then 2 else 3),
     Body = Some \<lparr>bodyBytes = bytes_of ''{}'', bodyFails = False\<rparr>\<rparr>"

text \<open>Two requests at once; the third reuses the buffer of the second while the first still reads.\<close>

definition pool_events :: "pool_event list" where
  "pool_events =
     [GetNew 0, GetNew 1, Read 1 2, Read 0 1, ReadFailed 1, GetIdle 2 1, Read 2 2, Read 0 1, ReadDone 0, Count 0,
      ReadDone 2, Release 0]"

definition pool_run :: "pool_state option" where
  "pool_run = foldM (handler_event True pool_handlers pool_requests) pool_events initial_pool"

lemma no_fields: "requestFields [123, 125] = Some None"
  by (simp add: requestFields_def numberAfter_def stringAfter_def ok_then_def scan_eval)

lemma rejected_outcome: "count_outcome useAVX2 pool_handlers [123, 125] = writeScoreRaw 400 0"
  by (simp add: count_outcome_def FraudCountJSON_def pool_handlers_def NewHandlers_def NewService_def VectorizeJSON_def
      no_fields ok_then_def)

lemmas pool_eval = start_reading_def acquireBodyBuffer_def allocate_def enter_def write_at_def put_idle_def wants_buffer_def

lemma pool_handlers_parts: "bodyPoolNew pool_handlers = Some (replicate 4 0)" "bodyLimit pool_handlers = 4"
  by (simp_all add: pool_handlers_def NewHandlers_def)

lemma pool_run_ends:
  "\<exists>s. pool_run = Some s \<and> phases s 0 = Finished (writeScoreRaw 400 0) \<and> phases s 1 = Finished (writeScoreRaw 400 0) \<and>
     phases s 2 = Scoring 1 True 2 \<and> idle s = [0]"
  by (simp add: pool_run_def pool_events_def pool_eval pool_handlers_parts pool_requests_def initial_pool_def bytes_of_def
      rejected_outcome)

lemma pool_run_reachable:
  "\<exists>s. pool_reachable True pool_handlers pool_requests s \<and> phases s 0 = Finished (writeScoreRaw 400 0) \<and>
     phases s 2 = Scoring 1 True 2 \<and> idle s = [0]"
  using pool_run_ends events_reachable [OF _ pool_reachable.start] unfolding pool_run_def by blast

lemma pool_limit: "bodyLimit pool_handlers < 9223372036854775807"
  by (simp add: pool_handlers_parts)

subsection \<open>Test entries\<close>

definition sample_tests :: "testEntry list" where
  "sample_tests = [\<lparr>Request = sample_body ''M'', ExpectedApproved = True\<rparr>, \<lparr>Request = bytes_of ''{}'', ExpectedApproved = True\<rparr>]"

definition sample_flags :: evaluate_flags where
  "sample_flags = default_flags\<lparr>flagIndex := ''index'', flagTestData := ''tests''\<rparr>"

definition sample_env :: environment where
  "sample_env key = (if key = ''INDEX_PATH'' then ''index'' else if key = ''ANN_AMBIGUOUS_NPROBE'' then ''32'' else '''')"

lemma sample_same_search: "same_search sample_flags (LoadConfig sample_env)"
  by (simp add: same_search_def sample_flags_def default_flags_def LoadConfig_def getenv_def getenvInt_def getenvBool_def
      sample_env_def Atoi_def digit_char_def Let_def)

subsection \<open>Connections\<close>

definition reply_of :: "string \<Rightarrow> u8 list" where
  "reply_of text = bytes_of ''Content-Length: 1'' @ [13, 10, 13, 10] @ bytes_of text"

definition call_of :: "string \<Rightarrow> u8 list" where
  "call_of text = bytes_of text @ [13, 10, 13, 10]"

text \<open>An upstream that answers every request: the two that come together with the digits 1 and 2, another with 3.\<close>

definition digits_upstream :: "u8 list list \<Rightarrow> u8 list list" where
  "digits_upstream history =
     (if last history = call_of ''A'' @ call_of ''B'' then [reply_of ''1'', reply_of ''2''] else [reply_of ''3''])"

definition fresh_conn :: conn where
  "fresh_conn = \<lparr>conn_writable = True, incoming = \<lparr>pieces = [], closes = True\<rparr>, sent = [], reacts = digits_upstream\<rparr>"

definition two_replies :: UpstreamPool where
  "two_replies = \<lparr>idle_conns = [], max_idle = 32, accepts_next = [Some fresh_conn], received = []\<rparr>"

definition one_proxy :: Proxy where
  "one_proxy = \<lparr>upstreams = [two_replies], balancer = \<lparr>upstream_count = 1, next_upstream = 0\<rparr>\<rparr>"

text \<open>A client that sends two requests at once, and another that sends one.\<close>

definition first_client :: stream where
  "first_client = \<lparr>pieces = [call_of ''A'' @ call_of ''B''], closes = True\<rparr>"

definition second_client :: stream where
  "second_client = \<lparr>pieces = [call_of ''C''], closes = True\<rparr>"

subsection \<open>Preprocessing and serving\<close>

definition sample_preprocess :: preprocess_flags where
  "sample_preprocess = \<lparr>referencesPath = ''references.json'', outPath = embeddedIndexPath, clustersFlag = 2, nprobeFlag = 4,
     ambiguousFlag = 0, repairFlag = True\<rparr>"

lemma sample_options: "build_options sample_preprocess = sample_opts"
  by (simp add: build_options_def sample_preprocess_def sample_opts_def)

lemma sample_clusters: "build_clusters (length sample_refs) (clustersFlag sample_preprocess) = 2"
  using build_clusters_sample by (simp add: sample_preprocess_def sample_opts_def)

lemma sample_out: "outPath sample_preprocess = IndexPath (LoadConfig (\<lambda>key. ''''))"
  by (simp add: sample_preprocess_def LoadConfig_def getenv_def embeddedIndexPath_def)

lemma sample_references:
  "LoadReferences (\<lambda>f. None) (\<lambda>f. Some sample_refs) (\<lambda>path. Some []) (referencesPath sample_preprocess) = Inr sample_refs"
  by (simp add: LoadReferences_def sample_preprocess_def sample_refs_def)

lemma sample_written: "\<exists>bytes. WriteIVFBinaryIndex sample_refs sample_opts = Some (Inr bytes)"
  using mapped.load_built [OF sample_refs_ok(1,2)] by (auto simp: build_clusters_sample)

lemma sample_preprocess_runs:
  "\<exists>files'. preprocess_main (\<lambda>f. None) (\<lambda>f. Some sample_refs) (\<lambda>path. Some []) sample_preprocess = Some (Inr files')"
  using sample_written by (auto simp: preprocess_main_def sample_references sample_options)

subsection \<open>The evaluation of two entries\<close>

lemma sample_selected: "selected sample_flags sample_tests = enumerate 0 sample_tests"
proof -
  have "TrimSpace '''' = ''''" by (simp add: TrimSpace_def strip_Nil)
  then show ?thesis
    by (simp add: selected_def sample_flags_def default_flags_def limit_entries_def chosen_def parseOnlySet_def)
qed

lemma sample_tests_ok:
  "list_all (\<lambda>(i, e). \<not> panics (Request e) \<and> int (length (Request e)) \<le> 16384) (selected sample_flags sample_tests)"
proof -
  have "\<not> panics [123, 125]" by (simp add: panics_def no_fields)
  moreover have "length (sample_body ''M'') \<le> 4096" by (simp add: sample_body_def bytes_of_def)
  ultimately show ?thesis
    using sample_not_panics unfolding sample_selected by (auto simp: sample_tests_def bytes_of_def)
qed

lemma sample_test_data:
  "loadTestData (\<lambda>f. Some sample_tests) (\<lambda>path. Some bytes) path = Inr sample_tests"
  by (simp add: loadTestData_def)

subsection \<open>The health check on another port\<close>

definition port_env :: environment where
  "port_env key = (if key = ''PORT'' then ''9000'' else '''')"

lemma port_env_port: "Port (LoadConfig port_env) = 9000" "port_env ''SOCKET_PATH'' = ''''"
  by (simp_all add: LoadConfig_def getenvInt_def port_env_def Atoi_def digit_char_def Let_def)

definition reachable_get :: "Server \<Rightarrow> http_client \<Rightarrow> string \<Rightarrow> int option" where
  "reachable_get s client url = (if dialed client url \<in> Some ` set (Listen s) then Some 200 else None)"

lemma reachable_get_answers: "answered_by s (reachable_get s)"
  by (simp add: answered_by_def reachable_get_def written_status_ready)

subsection \<open>Two clients of one upstream\<close>

lemmas framing_eval = read_http_message_def find_header_end_def parse_content_length_def has_prefix_def strip_cr_def
  eq_ignore_ascii_case_def to_ascii_lowercase_def parse_usize_def trim_ascii_def scan_takeWhile is_ascii_whitespace_def
  is_digit_def saturate_def usize_max_def Let_def bytes_of_def

lemma one_proxy_ok: "balanced one_proxy" "proxy_ok one_proxy"
  by (simp_all add: balanced_def proxy_ok_def pool_ok_def one_proxy_def two_replies_def)

lemma first_client_reads:
  "read_http_message first_client = Message (call_of ''A'' @ call_of ''B'') \<lparr>pieces = [], closes = True\<rparr>"
  by (simp add: first_client_def call_of_def framing_eval)

lemma second_client_reads: "read_http_message second_client = Message (call_of ''C'') \<lparr>pieces = [], closes = True\<rparr>"
  by (simp add: second_client_def call_of_def framing_eval)

lemma replies_read:
  "read_http_message \<lparr>pieces = [reply_of ''1'', reply_of ''2''], closes = True\<rparr> =
     Message (reply_of ''1'') \<lparr>pieces = [reply_of ''2''], closes = True\<rparr>"
  "read_http_message \<lparr>pieces = [reply_of ''2'', reply_of ''3''], closes = True\<rparr> =
     Message (reply_of ''2'') \<lparr>pieces = [reply_of ''3''], closes = True\<rparr>"
  by (simp_all add: reply_of_def framing_eval)

lemma ended_client: "read_http_message \<lparr>pieces = [], closes = True\<rparr> = NoMessage"
  by (simp add: read_http_message_def)

lemma digits_react:
  "digits_upstream [call_of ''A'' @ call_of ''B''] = [reply_of ''1'', reply_of ''2'']"
  "digits_upstream [call_of ''A'' @ call_of ''B'', call_of ''C''] = [reply_of ''3'']"
  by (simp_all add: digits_upstream_def call_of_def bytes_of_def)

definition after_first :: Proxy where
  "after_first = \<lparr>upstreams = [two_replies\<lparr>accepts_next := [], received := [call_of ''A'' @ call_of ''B''],
     idle_conns := [fresh_conn\<lparr>sent := [call_of ''A'' @ call_of ''B''], incoming := \<lparr>pieces = [reply_of ''2''], closes = True\<rparr>\<rparr>]\<rparr>],
     balancer = \<lparr>upstream_count = 1, next_upstream = 1\<rparr>\<rparr>"

lemmas proxy_eval = forward_with_retry_def rr_next_def forward_once_def acquire_def release_def two_replies_def
  write_request_def fresh_conn_def Let_def

lemma first_client_served:
  "handle_client (\<lambda>k. True) 0 first_client one_proxy = ([reply_of ''1''], after_first)"
  by (simp add: handle_client.simps [of _ _ first_client] handle_client.simps [of _ _ "\<lparr>pieces = [], closes = True\<rparr>"]
      first_client_reads ended_client one_proxy_def after_first_def proxy_eval digits_react replies_read)

lemma reply_nonempty: "reply_of text \<noteq> []" "call_of text \<noteq> []"
  by (simp_all add: reply_of_def call_of_def)

lemma sample_messages: "whole (reply_of ''1'')" "whole (reply_of ''2'')" "whole (call_of ''A'')" "whole (call_of ''C'')"
  by (simp_all add: whole_def message_size_def call_of_def reply_of_def framing_eval)

subsection \<open>A broken and a working upstream\<close>

text \<open>The parser of a request with a body behind its header, and the request that carries a body.\<close>

definition parsed :: "u8 list \<Rightarrow> request" where
  "parsed bytes =
     (case find_header_end bytes of
        None \<Rightarrow> \<lparr>ContentLength = 0, Body = None\<rparr>
      | Some e \<Rightarrow> \<lparr>ContentLength = int (parse_content_length (take (e + 4) bytes)),
          Body = Some \<lparr>bodyBytes = drop (e + 4) bytes, bodyFails = False\<rparr>\<rparr>)"

definition parses :: "u8 list \<Rightarrow> request \<Rightarrow> bool" where
  "parses bytes req \<longleftrightarrow> req = parsed bytes"

definition post_of :: "u8 list \<Rightarrow> u8 list" where
  "post_of content = header_lines [bytes_of ''POST /fraud-score HTTP/1.1'', contentLength @ [58, 32] @ decimal (length content)] @
     13 # 10 # content"

lemma post_of_read:
  assumes "length content \<le> usize_max"
  shows "whole (post_of content)"
    "parsed (post_of content) = \<lparr>ContentLength = int (length content), Body = Some \<lparr>bodyBytes = content, bodyFails = False\<rparr>\<rparr>"
proof -
  let ?line = "contentLength @ [58, 32] @ decimal (length content)"
  let ?H = "header_lines ([bytes_of ''POST /fraud-score HTTP/1.1''] @ ?line # [])"
  have p: "post_of content = ?H @ 13 # 10 # content" by (simp add: post_of_def)
  have clean: "list_all clean_line [bytes_of ''POST /fraud-score HTTP/1.1'']"
    "list_all (\<lambda>line. \<not> names_length line) [bytes_of ''POST /fraud-score HTTP/1.1'']"
    by (simp_all add: clean_line_def names_length_def bytes_of_def has_prefix_def)
  have e: "find_header_end (post_of content) = Some (length ?H - 2)"
    unfolding p using clean(1) length_line(1) [of "length content"] by (intro find_header_end_lines) simp_all
  have two: "2 \<le> length ?H" by (simp add: header_lines_def)
  then have t: "take (length ?H - 2 + 4) (post_of content) = ?H @ [13, 10]" "drop (length ?H - 2 + 4) (post_of content) = content"
    by (simp_all add: p)
  have n: "parse_content_length (?H @ [13, 10]) = length content"
    using content_length_in_lines [OF clean length_line(1,2) [of "length content"], of "[]" "[13, 10]"]
      length_line(3) [of "length content"] parse_printed_length [OF assms] by simp
  show "parsed (post_of content) = \<lparr>ContentLength = int (length content), Body = Some \<lparr>bodyBytes = content, bodyFails = False\<rparr>\<rparr>"
    by (simp only: parsed_def e option.case t n)
  show "whole (post_of content)"
    using two by (simp only: whole_def message_size_def e option.case t n) (simp add: p)
qed

text \<open>An upstream that runs the handler on what it parses, and closes the connection when the handler panics.\<close>

definition handler_reacts :: "bool \<Rightarrow> Handlers \<Rightarrow> u8 list list \<Rightarrow> u8 list list" where
  "handler_reacts useAVX2 h history =
     (case FraudScoreRaw useAVX2 h (parsed (last history)) NoPool of
        Some (Some es, released) \<Rightarrow> [plain_response es]
      | _ \<Rightarrow> [])"

definition handler_conn :: "bool \<Rightarrow> Handlers \<Rightarrow> conn" where
  "handler_conn useAVX2 h =
     \<lparr>conn_writable = True, incoming = \<lparr>pieces = [], closes = True\<rparr>, sent = [], reacts = handler_reacts useAVX2 h\<rparr>"

definition score_response :: "int \<Rightarrow> nat \<Rightarrow> u8 list" where
  "score_response status k = plain_response (response_calls scoreContentType status (scoreResponses ! k))"

lemma plain_response_nonempty: "plain_response es \<noteq> []"
  by (simp add: plain_response_def)

lemma handler_reacts_answer:
  assumes "bodyLimit h < 9223372036854775807" "history \<noteq> []"
  shows "handler_reacts useAVX2 h history =
    (case answer useAVX2 h (parsed (last history)) of None \<Rightarrow> [] | Some (status, k) \<Rightarrow> [score_response status k])"
  using FraudScoreRaw_answer [OF assms(1), of useAVX2 "parsed (last history)" NoPool]
  by (cases "answer useAVX2 h (parsed (last history))") (auto simp: handler_reacts_def score_response_def)

lemma handler_conn_honest:
  assumes "bodyLimit h < 9223372036854775807"
  shows "honest (handler_service useAVX2 h parses) (handler_conn useAVX2 h)"
proof -
  have "reaction_ok (handler_service useAVX2 h parses) request (handler_reacts useAVX2 h (history @ [request]))" for history request
  proof -
    obtain released where f: "FraudScoreRaw useAVX2 h (parsed request) NoPool = Some (map_option
        (\<lambda>(status, k). response_calls scoreContentType status (scoreResponses ! k)) (answer useAVX2 h (parsed request)), released)"
      using FraudScoreRaw_answer [OF assms] by blast
    show ?thesis
    proof (cases "answer useAVX2 h (parsed request)")
      case None
      with f have "handler_service useAVX2 h parses request None"
        unfolding handler_service_def parses_def
        by (intro exI [of _ "parsed request"] exI [of _ NoPool] exI [of _ None] exI [of _ released]) simp
      with None handler_reacts_answer [OF assms, of "history @ [request]"] show ?thesis by (simp add: reaction_ok_def)
    next
      case (Some x)
      obtain status k where x: "x = (status, k)" by fastforce
      with f Some have "handler_service useAVX2 h parses request (Some (score_response status k))"
        unfolding handler_service_def parses_def
        by (intro exI [of _ "parsed request"] exI [of _ NoPool] exI [of _ released]
            exI [of _ "Some (response_calls scoreContentType status (scoreResponses ! k))"])
          (simp add: score_response_def plain_response_http [OF score_fields_clean])
      with Some x handler_reacts_answer [OF assms, of "history @ [request]"] show ?thesis
        by (simp add: reaction_ok_def score_response_def plain_response_nonempty plain_response_nonempty [symmetric])
    qed
  qed
  then show ?thesis by (simp add: honest_def handler_conn_def alive_def)
qed

lemma score_response_whole: "k \<le> 5 \<Longrightarrow> whole (score_response status k)"
  using score_whole [OF plain_response_http [OF score_fields_clean]] by (simp add: score_response_def)

text \<open>Two requests, the first in two pieces.\<close>

definition cut_requests :: "u8 list list list" where
  "cut_requests = [[take 40 (post_of (sample_body ''M'')), drop 40 (post_of (sample_body ''M''))], [post_of (bytes_of ''{}'')]]"

lemma cut_requests_bodies: "map concat cut_requests = [post_of (sample_body ''M''), post_of (bytes_of ''{}'')]"
  by (simp add: cut_requests_def)

lemma sample_body_length: "length (sample_body ''M'') \<le> 4096" "4 < length (sample_body ''M'')"
  by (simp_all add: sample_body_def bytes_of_def)

lemma sample_posts:
  "parsed (post_of (sample_body ''M'')) = sample_request ''M''" "parsed (post_of (bytes_of ''{}'')) = pool_requests 0"
  "whole (post_of (sample_body ''M''))" "whole (post_of (bytes_of ''{}''))"
proof -
  have m: "length (sample_body ''M'') \<le> usize_max" "length (bytes_of ''{}'') \<le> usize_max"
    using sample_body_length(1) by (simp_all add: usize_max_def bytes_of_def)
  show "parsed (post_of (sample_body ''M'')) = sample_request ''M''" "whole (post_of (sample_body ''M''))"
    "whole (post_of (bytes_of ''{}''))"
    using post_of_read [OF m(1)] post_of_read [OF m(2)] by (simp_all add: sample_request_def)
  show "parsed (post_of (bytes_of ''{}'')) = pool_requests 0"
    unfolding post_of_read(2) [OF m(2)] by (simp add: pool_requests_def bytes_of_def)
qed

lemma cut_requests_whole: "list_all (\<lambda>g. [] \<notin> set g \<and> whole (concat g)) cut_requests"
proof -
  have "40 < length (post_of (sample_body ''M''))" by (simp add: post_of_def header_lines_def bytes_of_def contentLength_def)
  moreover from this have "post_of (sample_body ''M'') \<noteq> []" by auto
  moreover have "post_of (bytes_of ''{}'') \<noteq> []" by (simp add: post_of_def)
  ultimately show ?thesis using sample_posts(3,4) by (simp add: cut_requests_def)
qed

lemma cut_requests_arrive: "\<exists>req. parses message req"
  by (simp add: parses_def)

text \<open>Neither makes the handler panic: the one body is accepted and the other rejected.\<close>

lemma cut_requests_quiet: "g \<in> set cut_requests \<Longrightarrow> \<not> panicking limit parses (concat g)"
proof -
  have "\<not> panics [123, 125]" by (simp add: panics_def no_fields)
  then have "\<not> panics data" if "delivered (pool_requests 0) limit = Inr data \<or> delivered (sample_request ''M'') limit = Inr data" for data
    using that sample_not_panics by (auto simp: delivered_def pool_requests_def sample_request_def bytes_of_def split: if_splits)
  moreover assume "g \<in> set cut_requests"
  then have "parsed (concat g) = sample_request ''M'' \<or> parsed (concat g) = pool_requests 0"
    using sample_posts(1,2) by (auto simp: cut_requests_def)
  ultimately show ?thesis by (auto simp: panicking_def parses_def)
qed

subsection \<open>A started balancer\<close>

text \<open>Two sockets, of which the first refuses and the second accepts with a given connection; every client sends the
  requests above.\<close>

definition two_sockets :: "string \<Rightarrow> string option" where
  "two_sockets key = (if key = ''UPSTREAMS'' then Some ''unix:///a, unix:///b'' else None)"

definition socket_endpoints :: "nat UpstreamEndpoint list" where
  "socket_endpoints = [Unix ''/a'', Unix ''/b'']"

definition second_offers :: "conn \<Rightarrow> nat UpstreamEndpoint \<Rightarrow> attempt \<Rightarrow> bool" where
  "second_offers c e r \<longleftrightarrow> r = (if e = Unix ''/b'' then Connected c True else Refused)"

definition socket_offers :: "nat UpstreamEndpoint \<Rightarrow> attempt \<Rightarrow> bool" where
  "socket_offers = second_offers (handler_conn True pool_handlers)"

definition cut_clients :: "nat \<Rightarrow> stream" where
  "cut_clients i = \<lparr>pieces = concat cut_requests, closes = True\<rparr>"

definition two_socket_state :: "nat lb_state" where
  "two_socket_state = serve socket_endpoints
     \<lparr>upstreams = [new_UpstreamPool 32, new_UpstreamPool 32], balancer = \<lparr>upstream_count = 2, next_upstream = 0\<rparr>\<rparr> cut_clients"

lemma two_sockets_start:
  "async_main two_sockets (\<lambda>name. None) (\<lambda>addr. Some (0 :: nat)) (\<lambda>a. True) (\<lambda>call. True) cut_clients = Serving two_socket_state"
proof -
  have "from_env two_sockets = Some \<lparr>bind_addr = ''0.0.0.0:9999'', upstream_addrs = [''unix:///a'', ''unix:///b''], pool_size = 32\<rparr>"
    by code_simp
  then show ?thesis
    by (simp add: async_main_def upstream_endpoint_def new_Proxy_def new_RoundRobin_def lb_bind_def two_socket_state_def
        socket_endpoints_def)
qed

lemma cut_clients_separate: "separate cut_requests" "pieces (cut_clients i) = concat cut_requests"
  using cut_requests_whole by (simp_all add: separate_def cut_clients_def)

lemma two_socket_serve:
  assumes "honest outcome c"
  shows "\<exists>e \<in> set (endpoints two_socket_state). endpoint_serves outcome (second_offers c) e"
    "\<forall>e \<in> set (endpoints two_socket_state). endpoint_serves outcome (second_offers c) e \<or> endpoint_broken (second_offers c) e"
proof -
  have "endpoint_serves outcome (second_offers c) (Unix ''/b'')" "endpoint_broken (second_offers c) (Unix ''/a'')"
    using assms by (simp_all add: endpoint_serves_def endpoint_broken_def second_offers_def opened_def)
  then show "\<exists>e \<in> set (endpoints two_socket_state). endpoint_serves outcome (second_offers c) e"
    "\<forall>e \<in> set (endpoints two_socket_state). endpoint_serves outcome (second_offers c) e \<or> endpoint_broken (second_offers c) e"
    by (simp_all add: two_socket_state_def serve_def socket_endpoints_def)
qed

lemma socket_offers_something: "\<forall>e. \<exists>r. socket_offers e r"
  by (simp add: socket_offers_def second_offers_def)

text \<open>A run in which the first client gets its first response, from the second upstream after the first refused.\<close>

lemma cut_client_reads:
  "read_http_message \<lparr>pieces = concat cut_requests, closes = True\<rparr> =
     Message (concat (hd cut_requests)) \<lparr>pieces = concat (tl cut_requests), closes = True\<rparr>"
  using client_reads [of "hd cut_requests" "tl cut_requests" "\<lparr>pieces = concat cut_requests, closes = True\<rparr>"] cut_clients_separate(1)
  by (simp add: cut_requests_def)

lemma first_request: "concat (hd cut_requests) = post_of (sample_body ''M'')"
  by (simp add: cut_requests_def)

lemma answered_run:
  assumes "answer True h (sample_request ''M'') = Some (status, k)" "bodyLimit h < 9223372036854775807"
  shows "\<exists>t. foldM (lb_event_step (second_offers (handler_conn True h))) [Accept 0 True, ReadRequest 0, ChooseUpstream 0, PopIdle 0,
      Connect 0 Refused, ClearIdle 0, PopIdle 0, Connect 0 (Connected (handler_conn True h) True), WriteRequest 0, ReadResponse 0,
      ReleaseConn 0, WriteReply 0 True] two_socket_state = Some t \<and> replies (tasks t 0) = [score_response status k]"
proof -
  let ?R = "score_response status k"
  have "?R \<noteq> []" "whole ?R"
    using score_response_whole [OF answer_count [OF assms(1)]] by (simp_all add: score_response_def plain_response_nonempty)
  then have r: "read_http_message \<lparr>pieces = [?R], closes = True\<rparr> = Message ?R \<lparr>pieces = [], closes = True\<rparr>"
    using read_whole_message [of "\<lparr>pieces = [?R], closes = True\<rparr>" "[?R]" "[]"] by simp
  have react: "handler_reacts True h [post_of (sample_body ''M'')] = [?R]"
    using handler_reacts_answer [OF assms(2), of "[post_of (sample_body ''M'')]" True] assms(1) by (simp add: sample_posts(1))
  show ?thesis
    by (simp add: two_socket_state_def serve_def socket_endpoints_def lb_event_step_def lb_simps cut_clients_def cut_client_reads
        first_request rr_next_def next_try_def Let_def pool_at_def pop_idle_def new_UpstreamPool_def second_offers_def opened_def
        handler_conn_def clear_idle_def write_request_def react r)
qed

definition accepted_state :: "nat lb_state" where
  "accepted_state = move_to 1 AwaitingRequest (shared two_socket_state) (move_to 0 AwaitingRequest (shared two_socket_state) two_socket_state)"

lemma accepted_run: "foldM (lb_event_step socket_offers) [Accept 0 True, Accept 1 True] two_socket_state = Some accepted_state"
  by (simp add: lb_event_step_def accepted_state_def lb_simps) (simp add: two_socket_state_def serve_def)

lemma accepted_parts:
  "running accepted_state" "stage (tasks accepted_state 0) = AwaitingRequest" "stage (tasks accepted_state 1) = AwaitingRequest"
  "replies (tasks accepted_state 0) = []" "client_conn (tasks accepted_state 0) = cut_clients 0"
  "length (upstreams (shared accepted_state)) = 2"
  by (simp_all add: accepted_state_def lb_simps) (simp_all add: two_socket_state_def serve_def)

lemma accepted_reachable: "lb_reachable socket_offers two_socket_state accepted_state"
  by (rule lb_run_reachable [OF accepted_run lb_reachable.start])

definition one_client_state :: "nat lb_state" where
  "one_client_state = \<lparr>running = True, endpoints = [Tcp 0], shared = without_accepts one_proxy,
     tasks = (\<lambda>i. \<lparr>client_conn = first_client, replies = [], stage = AwaitingRequest\<rparr>)\<rparr>"

end
