(* ===== verification/Spec2Isabelle.thy ===== *)
theory Spec2Isabelle
  imports Samples Build_Samples Json_Samples Serve_Samples
begin

text \<open>
  A model of heindall, a fraud-scoring service: a Go server answers a transaction posted as JSON with the
  share of frauds among its five nearest reference vectors, found in an inverted-file index (IVF) that a command
  builds beforehand, and a Rust load balancer spreads the requests over two servers. Paths are relative to
  \<open>src/apps/\<close>; the Go packages are under \<open>api/internal/\<close> and the commands under \<open>api/cmd/\<close>.

  \<^bold>\<open>How the parts interact.\<close> \<open>preprocess\<close> reads the references, splits them into balanced clusters, quantizes and
  transposes them and writes the index file. \<open>api\<close> reads the environment, maps that file, and registers two
  handlers on the HTTP library. A handler reads the body into a pooled buffer, the service turns its bytes into a
  quantized vector without a JSON parser, the index is searched, and one of six precomputed responses is
  written. \<open>evaluate\<close> runs the same search on labelled entries, \<open>healthcheck\<close> asks for \<open>/ready\<close>. The load
  balancer cuts HTTP messages out of a client connection, forwards each to the next server over a pooled connection,
  and tries the others when it fails.

  \<^bold>\<open>Conventions\<close> (theory \<open>Prelude\<close>). Names are the source's. A struct is a record, stored integers are
  words of their width (\<open>i16\<close>, \<open>u8\<close>, \<open>u32\<close>, \<open>u64\<close>), Go's \<open>int\<close> and \<open>int64\<close> are \<^typ>\<open>int\<close> with \<open>wrap64\<close>
  where an operation can overflow, and indices that only count up are \<^typ>\<open>nat\<close>. \<^const>\<open>None\<close> is a run-time
  panic or a read outside an array, \<^const>\<open>Some\<close> a return; a returned error is a value of a sum inside it, and
  \<open>Some None\<close> the scanners' \<open>ok = false\<close>. Counted loops are \<open>foldM\<close> over their range, other loops recursive
  functions with a measure; there is no fuel. Only \<open>balancedSplit\<close> is a partial function, because it does not
  end for a cluster count that is no power of two; theorem \<open>balanced_split_returns\<close> shows that it returns
  for the counts the builder accepts. Whether AVX2 is there is the argument \<open>useAVX2\<close>.

  \<^bold>\<open>Searching\<close> (\<open>fraud/ivf_search.go\<close>, its assembly \<open>ivf_search_avx2_amd64.s\<close>, \<open>fraud/quantized.go\<close>).
  \<^item> \<open>Quantized\<close>: \<open>quantizedDistance\<close> and the block lanes, with the early exit; \<open>Avx2_Kernels\<close>: the kernels lane by
    lane, with their 32-bit products, equal to the exact distance for quantized queries.
  \<^item> \<open>Topk\<close>: the locale \<open>bounded_best\<close> of insertion into a fixed number of sorted places, interpreted by the five
    places of the search state (\<open>Search_State\<close>: the state, and the locale \<open>visited_set\<close> of the probe mask), the probe list and the exact searcher.
  \<^item> \<open>Ivf_Index\<close>: index, shape tests and parameters, with the well-formedness \<open>wf_index\<close>; \<open>Centroid_Select\<close>: the
    three selections of the nearest clusters, all equal to a stable sort; \<open>Ivf_Scan\<close>: the scalar and AVX2 scans;
    \<open>Scan_Contract\<close>: every scan returns, and keeps the state in agreement with the five best rows (exactly, or up to
    ties at the fifth distance, which is what the scalar early exit leaves); \<open>Ivf_Search\<close>: probing, expansion, the
    locale \<open>cluster_scan\<close> of what these loops rely on, interpreted by the scans of the program, the bounding-box
    repair and the hand-tuned rules; \<open>Search_Correct\<close>, \<open>Search_Result\<close>: a search returns, and with exact scans
    its answer is \<open>search_answer\<close>, the nearest-neighbour count over what it probed, repaired and rescanned.

  \<^bold>\<open>Building\<close> (\<open>fraud/ivf_build.go\<close>, \<open>fraud/quantized.go\<close>, \<open>fraud/model.go\<close>). \<open>Go_Float\<close>: the IEEE formats on rationals,
    with error bounds and monotonicity of rounding; \<open>Quantize\<close>: \<open>QuantizeVector\<close>; \<open>Ivf_Build\<close>: the definitions of the
    builder; \<open>Build_Split\<close>, \<open>Build_Layout\<close>, \<open>Build_Tables\<close>, \<open>Build_Index\<close>, \<open>Build_Correct\<close>: the split is an even
    partition, the layout holds every reference once, and the built index meets every hypothesis of the search.

  \<^bold>\<open>The file\<close> (\<open>fraud/binary_index.go\<close>, \<open>binary_index_heap.go\<close>, \<open>binary_index_linux.go\<close>). \<open>Index_File\<close>: the writer and
    the validation on lists of bytes; \<open>Index_Load\<close>, \<open>Index_Mmap\<close>: the two loaders; \<open>Index_Roundtrip\<close>: the locale
    \<open>index_source\<close> of what a loader promises, interpreted by both, and the round trip.

  \<^bold>\<open>Requests\<close> (\<open>fraud/vectorize.go\<close>, \<open>vectorize_json.go\<close>, \<open>search.go\<close>, \<open>service.go\<close>, \<open>router/handlers.go\<close>).
  \<^item> \<open>Calendar\<close>: day numbers and timestamps; \<open>Vectorize\<close>: features of a decoded request; \<open>Json_Scan\<close>: the byte
    scanner; \<open>Vectorize_Json\<close>: both JSON vectorizers, when they panic and when they fail; \<open>Exact_Search\<close>: brute force
    over \<open>float32\<close>; \<open>Service\<close>: the service over either searcher.
  \<^item> \<open>Http_Handlers\<close>: a handler is the list of calls it makes on the response writer; \<open>Pool_Protocol\<close>: the same
    handler cut into the steps between which other requests run, with buffers that have an identity. Its
    relation \<open>pool_reachable\<close> is inductive; by rule induction a buffer has one owner and a request
    sees its own bytes, so that every finished request has the outcome of the sequential handler.

  \<^bold>\<open>Commands\<close> (\<open>app/config.go\<close>, \<open>app/server.go\<close>, \<open>router/routes.go\<close>, \<open>fraud/load.go\<close>, \<open>cmd/\<close>). \<open>Server\<close>: configuration
    and the choice and loading of the searcher; \<open>Commands\<close>: preprocessing, routes, the Unix socket, the health
    check; \<open>Evaluate\<close>: the evaluation; \<open>Go_Strings\<close>: trimming and splitting.

  \<^bold>\<open>Load balancer\<close> (\<open>load-balancer/src/\<close>). \<open>Lb_Framing\<close>: reading one HTTP message from the pieces that reads return;
  \<open>Lb_Proxy\<close>: configuration, round robin, connection pools, retry and the loop over the requests of one client;
  \<open>Lb_Correct\<close>: what it relies on at an upstream, a relation from requests to responses. \<open>Lb_Tasks\<close>: \<open>async_main\<close>,
  \<open>bind\<close>, the accept loop and one task per client as a step relation over the shared round robin and pools, with an event
  for each step between which other tasks run; \<open>Lb_Concurrent\<close>: invariants of every interleaving (bounds of the pools, the
  responses each client has); \<open>Lb_Progress\<close>: a bound on the steps of a task, that none waits for another, and that a task
  alone runs as \<open>Lb_Proxy\<close> has it; \<open>Lb_Service\<close>: the bytes that the HTTP library may send for the calls
  of a handler are whole messages for the balancer, so that the two compose. \<open>Whole_System\<close>: the index file, the server and
  the balancer together. \<open>Defects\<close>: the lemmas behind the last section.

  \<^bold>\<open>What is here.\<close> This theory states the properties of the program, most of them across components, each after
  the text that numbers it; \<open>Samples\<close>, \<open>Build_Samples\<close>, \<open>Json_Samples\<close> and \<open>Serve_Samples\<close> hold the concrete inputs at
  which their hypotheses are shown to hold. The last section states defects: what goes wrong, exactly when, and a run where it does.

  \<^bold>\<open>Bounds.\<close> Coordinates are within plus or minus 10000, so a squared distance stays below \<open>2 ^ 33\<close>; a dataset has
  fewer than \<open>2 ^ 32\<close> rows and at most 8192 clusters (the probe arrays hold 128); a body limit is below the largest
  \<open>int64\<close>, where the code overflows; a list of latencies is shorter than \<open>2 ^ 53\<close>. Each is a hypothesis or follows from
  the well-formedness that the builder and the loaders establish.

  \<^bold>\<open>Arguments of the model.\<close> What \<open>sync.Pool\<close> returns, gzip and JSON decoding of the dataset and the test data, the files
  that open, the clock, the results of system calls, \<open>client.Get\<close>, and, for the load balancer, the pieces that reads
  return, how connection attempts end, the resolver and the parser of socket addresses. The HTTP library is two relations: from the
  bytes of a request to the request that it hands to a handler (any, \<open>arrives\<close>), and from a handler's calls to the bytes it sends
  (\<open>http_response\<close>: the status line of the status written, the headers set, any other lines that do not give a length, an empty
  line, the content); after a panic it may close the connection or send any whole response. \<open>sort.Slice\<close> is the sorted list (its orders are total where the
  result depends on it). An instant is its nanoseconds in place of \<open>time.Time\<close>.

  \<^bold>\<open>Limits.\<close> Memory is unbounded, and a write to a file does not fail halfway. Floats do not distinguish the two zeros, the
  conversion to integers is that of amd64, and multiplication and addition round separately: a build with
  \<open>GOAMD64=v3\<close> may fuse them and change last bits. The order of requests is any interleaving of the
  steps of \<open>Pool_Protocol\<close> or \<open>Lb_Tasks\<close>, not a weak memory model; \<open>sync.Pool\<close> itself and the HTTP library are assumed, and the
  server's idle timeout is not modelled: the theorems about responses behind the balancer are for connections that stay open between requests.

  \<^bold>\<open>Not modelled.\<close> Flag parsing, printing and logging; sockets, timeouts and dispatch of the HTTP library \<open>golpher\<close>;
  \<open>net/http/pprof\<close>; detection of CPU features; the memory mapping itself and its page hints; the stub kernels for other
  processors, which do nothing and are not called; the file that \<open>evaluate\<close> writes its errors to (\<open>writeJSON\<close> hands them to
  the encoder of the standard library); in the load balancer the clock behind the timeouts (each is an error of the
  operation it guards) and the polling methods of \<open>UpstreamStream\<close>, which hand over to the runtime.
\<close>

section \<open>The answer of a search\<close>

text \<open>C1: on a well-formed index with normalized parameters a search never panics and never reads
  outside an array: \<open>Search5Quantized\<close> returns, with at most five frauds, whichever kernels run.\<close>

theorem search_returns:
  assumes "search_ok useAVX2 idx q" "0 < NProbe (IVF idx)"
  shows "\<exists>k \<le> 5. Search5Quantized useAVX2 idx q = Some k"
  using searchIVF_total [OF assms] assms(1)
  by (simp add: Search5Quantized_def search_ok_def wf_index_def)

theorem search_returns_witness: "\<exists>k \<le> 5. Search5Quantized False one_cluster q_zero = Some k"
  by (rule search_returns [OF samples_ok(4)]) code_simp

text \<open>C2: when the probe count covers every cluster (at most 128) and the scans are exact, a search
  returns the number of frauds among the five nearest rows of the whole index, by distance and then by
  original id; the only exception is the hand-tuned late denial, which turns an approval into three.\<close>

theorem search_all_probed_exact:
  assumes "search_ok useAVX2 idx q" "exact_scans useAVX2 idx" "distinct_ids idx" "probes_all idx"
    and "0 < NProbe (IVF idx)"
  shows "searchIVF useAVX2 idx q = Some
    (let k = frauds_of (all_cands idx q)
     in if Repair (IVF idx) \<and> k < 3 \<and> needsApprovalRepair q \<and> needsKnownLateDenialRepair q then 3 else k)"
  using searchIVF_all_probed [OF assms] by (simp add: Let_def)

theorem search_all_probed_exact_witness:
  "searchIVF True one_cluster q_zero = Some
    (let k = frauds_of (all_cands one_cluster q_zero)
     in if Repair (IVF one_cluster) \<and> k < 3 \<and> needsApprovalRepair q_zero \<and> needsKnownLateDenialRepair q_zero
       then 3 else k)"
  by (rule search_all_probed_exact [OF samples_ok(4) sample_scans(3) sample_ids(2,3)]) code_simp

text \<open>C19: with exact scans (AVX2 over blocks), boxes that contain their rows and five rows found by the probes,
  an ambiguous answer that is repaired, and to which none of the hand-tuned rules applies afterwards, is the
  count among the five nearest rows of the whole index.\<close>

theorem search_repaired_exact:
  assumes "search_ok useAVX2 idx q" "exact_scans useAVX2 idx" "boxes_ok idx" "distinct_ids idx"
    and "0 < NProbe (IVF idx)" "Repair (IVF idx)"
    and "isIVFAmbiguousFraudCount q (frauds_of (probed_cands idx q (NProbe (IVF idx))))"
    and "5 \<le> length (probed_cands idx q (NProbe (IVF idx)))"
    and "\<not> (frauds_of (all_cands idx q) < 3 \<and> needsApprovalRepair q)"
    and "\<not> (3 \<le> frauds_of (all_cands idx q) \<and> needsDenialRepair q)"
  shows "searchIVF useAVX2 idx q = Some (frauds_of (all_cands idx q))"
  using assms by (rule searchIVF_repaired)

theorem search_repaired_exact_witness:
  "searchIVF True (two_clusters True) q_plain = Some (frauds_of (all_cands (two_clusters True) q_plain))"
  by (rule search_repaired_exact [OF samples_ok(2) sample_scans(1) two_clusters_boxes sample_ids(1)]) code_simp+

text \<open>C20: with exact scans (AVX2 over blocks) and without repair the search is the nearest-neighbour count over the
  probed clusters: those of the first probe, or of the wider one when the first answer is ambiguous.\<close>

theorem search_without_repair:
  assumes "search_ok useAVX2 idx q" "exact_scans useAVX2 idx" "0 < NProbe (IVF idx)" "\<not> Repair (IVF idx)"
  shows "searchIVF useAVX2 idx q = Some
    (let k = frauds_of (probed_cands idx q (NProbe (IVF idx)))
     in if isIVFAmbiguousFraudCount q k \<and> AmbiguousNProbe (IVF idx) > NProbe (IVF idx)
        then frauds_of (probed_cands idx q (AmbiguousNProbe (IVF idx))) else k)"
  using searchIVF_no_repair [OF assms] by (simp add: Let_def)

theorem search_without_repair_witness:
  "searchIVF True (two_clusters False) q_plain = Some
    (let k = frauds_of (probed_cands (two_clusters False) q_plain (NProbe (IVF (two_clusters False))))
     in if isIVFAmbiguousFraudCount q_plain k \<and>
          AmbiguousNProbe (IVF (two_clusters False)) > NProbe (IVF (two_clusters False))
        then frauds_of (probed_cands (two_clusters False) q_plain (AmbiguousNProbe (IVF (two_clusters False)))) else k)"
  by (rule search_without_repair [OF samples_ok(3) sample_scans(2)]) code_simp+

text \<open>Whichever scans run, the five distances after a probe are the five smallest of the probed
  rows, and the fraud count differs from the exact one by at most the number of rows at the fifth
  distance.\<close>

theorem probe_count_within_ties:
  assumes "search_ok useAVX2 idx q" "0 < nprobe"
  shows "\<exists>s. searchIVFProbes useAVX2 idx q nprobe False = Some (countFrauds s, s) \<and>
    (\<forall>i < 5. bestDist s ! i = cdist (top5 (probed_cands idx q nprobe) ! i)) \<and>
    \<bar>int (countFrauds s) - int (frauds_of (probed_cands idx q nprobe))\<bar> \<le> int (ties (probed_cands idx q nprobe))"
  using searchIVFProbes_found [OF assms] found_dists countFrauds_ties by blast

theorem probe_count_within_ties_witness:
  "\<exists>s. searchIVFProbes False one_cluster q_zero 1 False = Some (countFrauds s, s) \<and>
    (\<forall>i < 5. bestDist s ! i = cdist (top5 (probed_cands one_cluster q_zero 1) ! i)) \<and>
    \<bar>int (countFrauds s) - int (frauds_of (probed_cands one_cluster q_zero 1))\<bar>
      \<le> int (ties (probed_cands one_cluster q_zero 1))"
  by (rule probe_count_within_ties [OF samples_ok(4)]) simp

text \<open>Expanding a finished probe from \<open>n\<close> to \<open>m\<close> clusters gives what probing \<open>m\<close> clusters at
  once gives: no cluster is scanned twice and none is left out.\<close>

theorem expand_is_wider_probe:
  assumes "search_ok useAVX2 idx q" "0 < n" "n \<le> m"
  shows "\<exists>s t. searchIVFProbes useAVX2 idx q n False = Some (countFrauds s, s) \<and>
    expandIVFProbes useAVX2 idx q s m = Some t \<and> visited t = set (probe_clusters idx q m) \<and>
    found (exact_scans useAVX2 idx) (probed_cands idx q m) t"
  using searchIVFProbes_found [OF assms(1,2)] expand_probed [OF assms] by blast

theorem expand_is_wider_probe_witness:
  "\<exists>s t. searchIVFProbes True (two_clusters True) q_plain 1 False = Some (countFrauds s, s) \<and>
    expandIVFProbes True (two_clusters True) q_plain s 2 = Some t \<and>
    visited t = set (probe_clusters (two_clusters True) q_plain 2) \<and>
    found (exact_scans True (two_clusters True)) (probed_cands (two_clusters True) q_plain 2) t"
  by (rule expand_is_wider_probe [OF samples_ok(2)]) simp_all

text \<open>A probe that ends with a repair has the five best rows of the whole index, however few
  clusters it probed, once the probes have found five rows.\<close>

theorem repaired_probe_is_complete:
  assumes "search_ok useAVX2 idx q" "boxes_ok idx" "distinct_ids idx" "0 < nprobe"
    and "5 \<le> length (probed_cands idx q nprobe)"
  shows "\<exists>t. searchIVFProbes useAVX2 idx q nprobe True = Some (countFrauds t, t) \<and>
    found (exact_scans useAVX2 idx) (all_cands idx q) t"
  using assms by (rule searchIVFProbes_repaired)

theorem repaired_probe_is_complete_witness:
  "\<exists>t. searchIVFProbes False (two_clusters True) q_plain 1 True = Some (countFrauds t, t) \<and>
    found (exact_scans False (two_clusters True)) (all_cands (two_clusters True) q_plain) t"
  by (rule repaired_probe_is_complete [OF samples_ok(2) two_clusters_boxes sample_ids(1)]) (simp, code_simp)

text \<open>With fewer than five rows found there is no cutoff, and a repair leaves the state as it
  is.\<close>

theorem repair_needs_five:
  assumes "search_ok useAVX2 idx q" "found (exact_scans useAVX2 idx) cs s" "length cs < 5"
  shows "repairIVF useAVX2 idx q s = Some s"
  using assms by (rule repair_few)

theorem repair_needs_five_witness: "repairIVF True one_cluster q_zero newIVFSearchState = Some newIVFSearchState"
  by (rule repair_needs_five [OF samples_ok(4) found_new]) simp

section \<open>The parts of a search\<close>

text \<open>C21: the AVX2 scan of a cluster, in groups of four blocks and then block by block, offers every
  row of the cluster once, in row order, with its exact squared distance, and nothing else.\<close>

theorem avx2_scan_exact:
  assumes "wf_index idx" "hasIVFBlocks idx" "c < clusters_of idx" "quantized_query q"
  shows "scanIVFBlocksAVX2 idx q c s = Some (fold offer (cluster_cands idx q c) s)"
  using assms by (rule scan_avx2_exact)

theorem avx2_scan_exact_witness:
  "scanIVFBlocksAVX2 (two_clusters True) q_plain 1 newIVFSearchState =
    Some (fold offer (cluster_cands (two_clusters True) q_plain 1) newIVFSearchState)"
  by (rule avx2_scan_exact [OF two_clusters_wf _ _ queries_ok(2)]) code_simp+

text \<open>The scalar scans (row by row, or lane by lane of the blocks) never panic and keep the state
  in agreement with the exact answer: the five distances are right, and so is every entry below the
  fifth distance.\<close>

theorem scalar_scan_agrees:
  assumes "wf_index idx" "c < clusters_of idx" "\<not> exact_scans useAVX2 idx" "found False cs s"
  shows "\<exists>t. scanIVFList useAVX2 idx q c s = Some t \<and> visited t = visited s \<and>
    agree (entries t) (top5 (cs @ cluster_cands idx q c))"
  using scan_early [OF assms(1-3), of q s] found_agree [OF found_scan_early [OF assms(4), of idx q c "rows_in idx c"]]
  by (simp add: cluster_cands_def)

theorem scalar_scan_agrees_witness:
  "\<exists>t. scanIVFList False one_cluster q_zero 0 newIVFSearchState = Some t \<and> visited t = visited newIVFSearchState \<and>
    agree (entries t) (top5 ([] @ cluster_cands one_cluster q_zero 0))"
  by (rule scalar_scan_agrees [OF one_cluster_wf _ _ found_new]) code_simp+

text \<open>C22: the scalar selection, the AVX2 selection over transposed centroids and its row-major
  fallback all return the same clusters: the nearest ones, by distance, ties in cluster order.\<close>

theorem selection_is_nearest:
  assumes "hasIVF idx" "0 < nprobe" "length out = 128"
    and "useAVX2 \<longrightarrow> quantized_query q \<and> centroid_blocks_ok idx"
  shows "\<exists>out'. topIVFCentroids useAVX2 idx q nprobe out = Some (clamp_nprobe idx nprobe, out') \<and>
    length out' = 128 \<and> take (clamp_nprobe idx nprobe) out' = nearest_centroids idx q (clamp_nprobe idx nprobe)"
  using assms by (rule topIVFCentroids_nearest)

theorem selection_is_nearest_witness:
  "\<exists>out'. topIVFCentroids True (two_clusters True) q_plain 2 (replicate 128 0) =
      Some (clamp_nprobe (two_clusters True) 2, out') \<and> length out' = 128 \<and>
    take (clamp_nprobe (two_clusters True) 2) out' =
      nearest_centroids (two_clusters True) q_plain (clamp_nprobe (two_clusters True) 2)"
  by (rule selection_is_nearest) (code_simp, simp, simp, simp add: queries_ok sample_centroids)

text \<open>C23: any sequence of inserts into a new state leaves the five candidates of smallest distance,
  ties by smaller id, in order, behind them the initial sentinels.\<close>

theorem inserts_keep_five_best:
  "entries (fold (\<lambda>(d, f, i). ivf_insert d f i) xs newIVFSearchState) =
    best 5 rank_of (replicate 5 sentinel @ map (\<lambda>(d, f, i). Cand d i f) xs)"
proof -
  have "(\<lambda>(d, f, i). ivf_insert d f i) = (\<lambda>x. insert_cand ((\<lambda>(d, f, i). Cand d i f) x))"
    by (auto simp: fun_eq_iff)
  then have "fold (\<lambda>(d, f, i). ivf_insert d f i) xs = fold insert_cand (map (\<lambda>(d, f, i). Cand d i f) xs)"
    by (simp add: fold_map comp_def)
  moreover have "entries newIVFSearchState = best 5 rank_of (replicate 5 sentinel)"
    using holds_new by (simp add: holds_def)
  ultimately show ?thesis
    using best5.run_best(2) [OF state_inv_new, of "replicate 5 sentinel"] by simp
qed

text \<open>The guard every scan puts before an insert only skips inserts that would change nothing.\<close>

theorem rejected_changes_nothing:
  assumes "state_inv s" "rejected d origID s"
  shows "entries (ivf_insert d fraud origID s) = entries s"
  using keep_rejected [OF assms] by (simp add: entries_ivf_insert [OF assms(1)])

theorem rejected_changes_nothing_witness:
  "entries (ivf_insert maxInt64Value True maxUint32Value newIVFSearchState) = entries newIVFSearchState"
  by (rule rejected_changes_nothing [OF state_inv_new]) code_simp

text \<open>The early exit of \<open>quantizedDistance\<close> is sound: without overflow or panic it returns the
  squared distance when that is below the cutoff, and some value from the cutoff up to the squared distance
  otherwise.\<close>

theorem early_exit_distance:
  assumes "length ref = Dimensions"
  shows "\<exists>d. quantizedDistance q ref cutoff = Some d \<and> 0 \<le> d \<and> d \<le> sqdist q ref \<and>
    (sqdist q ref < cutoff \<longrightarrow> d = sqdist q ref) \<and> (cutoff \<le> sqdist q ref \<longrightarrow> cutoff \<le> d)"
  using quantizedDistance_cutDist [OF assms] cutDist_nonneg cutDist_le cutDist_below cutDist_above by blast

theorem early_exit_distance_witness:
  "\<exists>d. quantizedDistance q_plain q_zero 100 = Some d \<and> 0 \<le> d \<and> d \<le> sqdist q_plain q_zero \<and>
    (sqdist q_plain q_zero < 100 \<longrightarrow> d = sqdist q_plain q_zero) \<and> (100 \<le> sqdist q_plain q_zero \<longrightarrow> 100 \<le> d)"
  by (rule early_exit_distance) code_simp

text \<open>Reading a row out of a lane of a transposed block gives the distance, early exit included,
  that reading it row-major gives.\<close>

theorem lane_distance_is_row_distance:
  assumes "lane_holds blocks base lane ref" "length ref = Dimensions"
  shows "quantizedBlockLaneDistanceUnsafe q blocks base lane cutoff = quantizedDistance q ref cutoff"
  using blockLaneDistance_cutDist [OF assms(1)] quantizedDistance_cutDist [OF assms(2)] by simp

theorem lane_distance_is_row_distance_witness:
  "quantizedBlockLaneDistanceUnsafe q_plain (replicate 112 0) 0 3 100 = quantizedDistance q_plain q_zero 100"
  by (rule lane_distance_is_row_distance) code_simp+

text \<open>C24: for a query in the quantizer's range the eight lanes of the assembly kernel are the exact
  squared distances of the eight vectors of the block.\<close>

theorem kernel_exact:
  assumes "quantized_query q" "base + ivfBlockStride \<le> length blocks"
  shows "quantizedBlock8DistancesAVX2 q blocks base =
    Some (map (\<lambda>lane. sqdist q (lane_vec blocks base lane)) [0..<8])"
  using assms by (rule block8_exact)

theorem kernel_exact_witness:
  "quantizedBlock8DistancesAVX2 q_plain (replicate 112 7) 0 =
    Some (map (\<lambda>lane. sqdist q_plain (lane_vec (replicate 112 7) 0 lane)) [0..<8])"
  by (rule kernel_exact [OF queries_ok(2)]) code_simp

text \<open>Outside that range the kernel's 32-bit product overflows: a difference of 65535 in one
  dimension gives a negative contribution, where the scalar code gives its square.\<close>

theorem kernel_overflow:
  "avx_lane (q_zero[5 := 32767]) (get (q_zero[5 := - 32768])) = Some (- 131071) \<and>
   quantizedDistance (q_zero[5 := 32767]) (q_zero[5 := - 32768]) maxInt64Value = Some 4294836225"
  by (intro conjI) code_simp+

text \<open>The bounding-box test is sound and its early exit harmless: it never panics, it passes
  exactly when the distance to the box is at most the cutoff, and a cluster that fails it has no row
  within the cutoff.\<close>

theorem bbox_test_sound:
  assumes "boxes_ok idx" "c < clusters_of idx"
  shows "\<exists>d. ivfBBoxDistance idx q c cutoff = Some d \<and> (d \<le> cutoff \<longleftrightarrow> box_dist idx q c \<le> cutoff) \<and>
    (cutoff < d \<longrightarrow> (\<forall>r \<in> set (cluster_cands idx q c). cutoff < cdist r))"
proof -
  have "has_boxes idx" using assms(1) by (simp add: boxes_ok_def)
  from ivfBBoxDistance_cut [OF this assms(2)] show ?thesis
    using box_cut_iff box_prunes [OF assms] by (metis not_le)
qed

theorem bbox_test_sound_witness:
  "\<exists>d. ivfBBoxDistance (two_clusters True) q_plain 1 25 = Some d \<and>
    (d \<le> 25 \<longleftrightarrow> box_dist (two_clusters True) q_plain 1 \<le> 25) \<and>
    (25 < d \<longrightarrow> (\<forall>r \<in> set (cluster_cands (two_clusters True) q_plain 1). 25 < cdist r))"
  by (rule bbox_test_sound [OF two_clusters_boxes]) code_simp

text \<open>The probe mask is a set of cluster numbers: marking one makes exactly it a member, and a
  number of 8192 or more is an index out of range.\<close>

theorem probe_mask_is_a_set:
  assumes "state_inv s" "cluster_ok a" "cluster_ok b"
  shows "\<exists>t. addProbe a s = Some t \<and> state_inv t \<and> entries t = entries s \<and>
    hasProbe b t = Some (b = a \<or> b \<in> visited s)"
  using addProbe_ok [OF assms(1,2)] probed.member_after_add [OF assms] by metis

theorem probe_mask_is_a_set_witness:
  "\<exists>t. addProbe 70 newIVFSearchState = Some t \<and> state_inv t \<and> entries t = entries newIVFSearchState \<and>
    hasProbe 6 t = Some (6 = (70 :: u32) \<or> 6 \<in> visited newIVFSearchState)"
  by (rule probe_mask_is_a_set [OF state_inv_new]) (simp_all add: cluster_ok_def)

text \<open>On a state of the search, \<open>hasProbe\<close> panics for exactly the clusters the mask has no bit for.\<close>

theorem probe_mask_range:
  assumes "state_inv s"
  shows "hasProbe c s = None \<longleftrightarrow> 8192 \<le> unat c"
  using hasProbe_visited [OF assms, of c] hasProbe_panics [OF assms, of c]
  by (cases "cluster_ok c") (simp_all add: cluster_ok_def not_less)

theorem probe_mask_range_witness: "hasProbe 8192 newIVFSearchState = None \<longleftrightarrow> 8192 \<le> unat (8192 :: u32)"
  by (rule probe_mask_range [OF state_inv_new])

text \<open>Whatever is passed to \<open>SetIVFSearch\<close>, the parameters end up ordered:
  at least one probe, no more than the ambiguous probes, no more than the clusters; the overflow of
  \<open>NProbe * 5\<close> included. The data of the index is left alone.\<close>

theorem parameters_in_range:
  assumes "hasIVF idx"
  shows "params_ok (SetIVFSearch nprobe ambiguous repair idx) \<and>
    SetIVFSearch nprobe ambiguous repair idx =
      idx\<lparr>IVF := IVF (SetIVFSearch nprobe ambiguous repair idx)\<rparr>"
proof
  have "hasIVF (idx\<lparr>IVF := m\<rparr>)" if "Clusters m = Clusters (IVF idx)" "ListOffsets m = ListOffsets (IVF idx)"
    "Centroids m = Centroids (IVF idx)" for m
    using assms that by (simp add: hasIVF_def)
  then show "params_ok (SetIVFSearch nprobe ambiguous repair idx)"
    using assms by (auto simp: SetIVFSearch_def Let_def intro!: normalize_params_ok)
  show "SetIVFSearch nprobe ambiguous repair idx = idx\<lparr>IVF := IVF (SetIVFSearch nprobe ambiguous repair idx)\<rparr>"
    by (simp add: SetIVFSearch_def normalizeIVFDefaults_def Let_def)
qed

theorem parameters_in_range_witness:
  "params_ok (SetIVFSearch 4611686018427387904 0 True (two_clusters False)) \<and>
    SetIVFSearch 4611686018427387904 0 True (two_clusters False) =
      (two_clusters False)\<lparr>IVF := IVF (SetIVFSearch 4611686018427387904 0 True (two_clusters False))\<rparr>"
  by (rule parameters_in_range) code_simp

text \<open>The hand-tuned rules are consistent: no query asks for both an approval and a denial
  repair, and the late-denial rule only fires for queries of the approval rule, so \<open>searchIVF\<close>'s
  order of tests loses no case.\<close>

theorem repair_rules_consistent:
  "\<not> (needsApprovalRepair q \<and> needsDenialRepair q) \<and>
   (needsKnownLateDenialRepair q \<longrightarrow> needsApprovalRepair q)"
proof
  show "\<not> (needsApprovalRepair q \<and> needsDenialRepair q)"
    by (auto simp: needsApprovalRepair_def needsDenialRepair_def needsKnownBoundaryApprovalRepair_def QuantScale_def)
  show "needsKnownLateDenialRepair q \<longrightarrow> needsApprovalRepair q"
    by (auto simp: needsApprovalRepair_def needsKnownLateDenialRepair_def QuantScale_def)
qed

theorem repair_rules_consistent_witness:
  "needsApprovalRepair ([1500, 0, 10000, 0, 0, 300, 400, 3400, 2000, 10000, 0, 0, 3000, 0])"
  by (rule repair_rules_consistent [THEN conjunct2, THEN mp]) code_simp

section \<open>The block layout\<close>

text \<open>\<open>buildIVFBlocks\<close> never panics on consistent offset tables, and afterwards every row of every
  cluster is a lane of the cluster's blocks: lane \<open>i mod 8\<close> of block \<open>i div 8\<close> for its \<open>i\<close>-th row.\<close>

theorem blocks_hold_rows:
  assumes "offsets_ok rows n lo" "block_offsets_ok n lo bo" "rows * Dimensions \<le> length vectors"
  shows "\<exists>bs. buildIVFBlocks vectors lo bo = Some bs \<and> length bs = unat (bo ! n) * ivfBlockStride \<and>
    (\<forall>c < n. \<forall>row \<in> set (rows_of lo c).
       lane_holds bs ((unat (bo ! c) + (row - unat (lo ! c)) div 8) * ivfBlockStride)
         ((row - unat (lo ! c)) mod 8) (vec_at vectors (row * Dimensions)))"
  using assms by (rule buildIVFBlocks_ok)

theorem blocks_hold_rows_witness:
  "\<exists>bs. buildIVFBlocks two_vectors [0, 5, 7] [0, 1, 2] = Some bs \<and>
    length bs = unat ([0, 1, 2 :: u32] ! 2) * ivfBlockStride \<and>
    (\<forall>c < 2. \<forall>row \<in> set (rows_of [0, 5, 7] c).
       lane_holds bs ((unat ([0, 1, 2 :: u32] ! c) + (row - unat ([0, 5, 7 :: u32] ! c)) div 8) * ivfBlockStride)
         ((row - unat ([0, 5, 7 :: u32] ! c)) mod 8) (vec_at two_vectors (row * Dimensions)))"
  by (rule blocks_hold_rows [where rows = 7]) code_simp+

text \<open>The same for the centroids.\<close>

theorem centroid_blocks_hold_centroids:
  assumes "clusters * Dimensions \<le> length cs"
  shows "\<exists>bs. buildCentroidBlocks cs clusters = Some bs \<and>
    length bs = blocksForRows clusters * ivfBlockStride \<and>
    (\<forall>c < clusters. lane_holds bs (c div 8 * ivfBlockStride) (c mod 8) (vec_at cs (c * Dimensions)))"
  using assms by (rule buildCentroidBlocks_ok)

theorem centroid_blocks_hold_centroids_witness:
  "\<exists>bs. buildCentroidBlocks (q_plain @ q_zero) 2 = Some bs \<and> length bs = blocksForRows 2 * ivfBlockStride \<and>
    (\<forall>c < 2. lane_holds bs (c div 8 * ivfBlockStride) (c mod 8) (vec_at (q_plain @ q_zero) (c * Dimensions)))"
  by (rule centroid_blocks_hold_centroids) code_simp

section \<open>Building the index\<close>

text \<open>C25: the builder is total: for any dataset of fewer than \<open>2 ^ 32\<close> vectors and any options it returns
  the error for an empty dataset, the error for a cluster count that is not a power of two, or an
  index with that many clusters; it never panics and its recursion ends.\<close>

theorem build_total:
  assumes "refs_ok refs"
  shows "BuildIVFIndex refs opts =
      (if refs = [] then Some (Inl EmptyDataset) else Some (Inl BadClusterCount)) \<and> \<not> accepts refs opts \<or>
    (\<exists>idx. BuildIVFIndex refs opts = Some (Inr idx) \<and> accepts refs opts \<and>
      Clusters (IVF idx) = build_clusters (length refs) (optClusters opts))"
proof (cases "accepts refs opts")
  case True
  then have "0 \<le> build_clusters (length refs) (optClusters opts)" by (simp add: accepts_def isPowerOfTwo_def)
  with True BuildIVFIndex_ok [OF assms True] index_holdsD(1) show ?thesis by fastforce
next
  case False
  then show ?thesis by (auto simp: BuildIVFIndex_def accepts_def Let_def)
qed

theorem build_total_witness:
  "BuildIVFIndex [] sample_opts =
      (if [] = ([] :: Reference list) then Some (Inl EmptyDataset) else Some (Inl BadClusterCount)) \<and>
      \<not> accepts [] sample_opts \<or>
    (\<exists>idx. BuildIVFIndex [] sample_opts = Some (Inr idx) \<and> accepts [] sample_opts \<and>
      Clusters (IVF idx) = build_clusters (length ([] :: Reference list)) (optClusters sample_opts))"
  by (rule build_total [OF sample_refs_ok(3)])

text \<open>Building and then searching is nearest-neighbour search on the dataset: with every cluster
  probed the answer for a float vector is the number of frauds among the five references whose quantized
  vectors are nearest to the quantized query (ties by position), but for the hand-tuned late denial.\<close>

theorem build_then_search:
  assumes "refs_ok refs" "accepts refs opts" "length v = Dimensions"
    and "build_clusters (length refs) (optClusters opts) \<le> min 128 (optNProbe opts)"
  shows "\<exists>idx. BuildIVFIndex refs opts = Some (Inr idx) \<and> Search5 True idx v = Some
    (let q = QuantizeVector v; k = frauds_of (ref_cands refs q)
     in if optRepair opts \<and> k < 3 \<and> needsApprovalRepair q \<and> needsKnownLateDenialRepair q then 3 else k)"
proof -
  have "0 < build_clusters (length refs) (optClusters opts)" using assms(2) by (simp add: accepts_def isPowerOfTwo_def)
  with assms(4) obtain idx where idx: "BuildIVFIndex refs opts = Some (Inr idx)" "searchable refs idx"
    "probes_all idx" "Repair (IVF idx) = optRepair opts"
    using build_searchable [OF assms(1,2)] by (auto simp: probes_all_def maxIVFProbe_def)
  note search = searchable_exact [OF idx(2) QuantizeVector_query [OF assms(3)] idx(3)]
  show ?thesis using idx(1,4) search by (auto simp: Search5_def nearest_answer_def Let_def)
qed

theorem build_then_search_witness:
  "\<exists>idx. BuildIVFIndex sample_refs sample_opts = Some (Inr idx) \<and> Search5 True idx (replicate 14 NaN) = Some
    (let q = QuantizeVector (replicate 14 NaN); k = frauds_of (ref_cands sample_refs q)
     in if optRepair sample_opts \<and> k < 3 \<and> needsApprovalRepair q \<and> needsKnownLateDenialRepair q then 3 else k)"
  by (rule build_then_search [OF sample_refs_ok(1,2)])
    (simp add: Dimensions_def, unfold build_clusters_sample, simp add: sample_opts_def)

text \<open>C26: whatever the options, an index of at most 8192 clusters satisfies every hypothesis of the
  search theorems: its tables are well formed, its blocks and boxes hold its rows, its ids are distinct, its
  parameters are in range, and its rows are the references.\<close>

theorem built_index_searchable:
  assumes "refs_ok refs" "accepts refs opts" "build_clusters (length refs) (optClusters opts) \<le> 8192"
  shows "\<exists>idx. BuildIVFIndex refs opts = Some (Inr idx) \<and> searchable refs idx"
  using build_searchable [OF assms] by blast

theorem built_index_searchable_witness:
  "\<exists>idx. BuildIVFIndex sample_refs sample_opts = Some (Inr idx) \<and> searchable sample_refs idx"
  by (rule built_index_searchable [OF sample_refs_ok(1,2)]) (simp add: build_clusters_sample)

text \<open>C27: the clusters of a built index partition the dataset into pieces whose sizes differ by at most
  one; the centroid of each is the rounded mean of its rows, its box contains them, and they are sorted by
  distance to the centroid.\<close>

theorem built_clusters_balanced:
  assumes "refs_ok refs" "accepts refs opts"
  defines "n \<equiv> nat (build_clusters (length refs) (optClusters opts))"
  shows "\<exists>idx css. BuildIVFIndex refs opts = Some (Inr idx) \<and> OrigIDs (IVF idx) = concat css \<and>
    mset (concat css) = mset (map of_nat [0..<length refs]) \<and> length css = n \<and>
    (\<forall>c < n. length refs div n \<le> length (css ! c) \<and> length (css ! c) \<le> (length refs + n - 1) div n \<and>
      vec_at (Centroids (IVF idx)) (c * Dimensions) = centroid_of (ref_vectors refs) (css ! c) \<and>
      boxed (ref_vectors refs) (css ! c) (vec_at (BBoxMin (IVF idx)) (c * Dimensions))
        (vec_at (BBoxMax (IVF idx)) (c * Dimensions)) \<and>
      by_centroid (ref_vectors refs) (css ! c))"
proof -
  obtain idx css where b: "BuildIVFIndex refs opts = Some (Inr idx)"
    "index_holds (ref_vectors refs) (ref_labels refs) css idx" "length css = n"
    "mset (concat css) = mset (ref_ids refs)"
    "\<forall>cs \<in> set css. length refs div n \<le> length cs \<and> length cs \<le> (length refs + n - 1) div n"
    using BuildIVFIndex_ok [OF assms(1,2)] unfolding n_def by blast
  note h = index_holdsD(7,14) [OF b(2)]
  show ?thesis using b h by (intro exI [of _ idx] exI [of _ css]) (simp add: ref_ids_def)
qed

theorem built_clusters_balanced_witness:
  "\<exists>idx css. BuildIVFIndex sample_refs sample_opts = Some (Inr idx) \<and> OrigIDs (IVF idx) = concat css \<and>
    mset (concat css) = mset (map of_nat [0..<length sample_refs]) \<and>
    length css = nat (build_clusters (length sample_refs) (optClusters sample_opts)) \<and>
    (\<forall>c < nat (build_clusters (length sample_refs) (optClusters sample_opts)).
      length sample_refs div nat (build_clusters (length sample_refs) (optClusters sample_opts)) \<le> length (css ! c) \<and>
      length (css ! c) \<le> (length sample_refs + nat (build_clusters (length sample_refs) (optClusters sample_opts)) - 1) div
        nat (build_clusters (length sample_refs) (optClusters sample_opts)) \<and>
      vec_at (Centroids (IVF idx)) (c * Dimensions) = centroid_of (ref_vectors sample_refs) (css ! c) \<and>
      boxed (ref_vectors sample_refs) (css ! c) (vec_at (BBoxMin (IVF idx)) (c * Dimensions))
        (vec_at (BBoxMax (IVF idx)) (c * Dimensions)) \<and>
      by_centroid (ref_vectors sample_refs) (css ! c))"
  by (rule built_clusters_balanced [OF sample_refs_ok(1,2)])

text \<open>C28: \<open>balancedSplit\<close> returns for every power of two of clusters, from any window of rows that exist;
  it permutes the window, leaves the other ids and ranges alone, and cuts the window into consecutive
  ranges of nearly equal size.\<close>

theorem balanced_split_returns:
  assumes "start \<le> end'" "end' \<le> length ids" "base + 2 ^ k \<le> length ranges" "ids_ok vectors ids"
  shows "\<exists>ids' ranges'. balancedSplit vectors start end' base (2 ^ k) (ids, ranges) = Some (ids', ranges') \<and>
    split_post start end' base (2 ^ k) ids ranges ids' ranges'"
  using assms by (rule balancedSplit_ok)

theorem balanced_split_returns_witness:
  "\<exists>ids' ranges'. balancedSplit (replicate 28 7) 0 2 0 (2 ^ 1) ([1, 0], [(0, 0), (0, 0)]) = Some (ids', ranges') \<and>
    split_post 0 2 0 (2 ^ 1) [1, 0] [(0, 0), (0, 0)] ids' ranges'"
  by (rule balanced_split_returns) (simp_all add: ids_ok_def Dimensions_def)

text \<open>A centroid coordinate is the mean rounded to the nearest integer, for sums of either sign, and
  the conversion to 16 bits loses nothing.\<close>

theorem centroid_rounding:
  assumes "0 < cnt" "cnt < 2 ^ 32" "- 32768 * cnt \<le> acc" "acc \<le> 32767 * cnt"
  shows "\<bar>2 * (acc - cnt * sint (roundDivInt64ToInt16 acc cnt))\<bar> \<le> cnt"
  using roundDiv_nearest [OF assms(1) _ assms(3,4)] assms(2) by simp

theorem centroid_rounding_witness: "\<bar>2 * (- 7 - 2 * sint (roundDivInt64ToInt16 (- 7) 2))\<bar> \<le> 2"
  by (rule centroid_rounding) simp_all

text \<open>C29: quantizing any float32 vector, infinities and NaN included, gives a vector of the range the
  assembly kernels are exact for, and a coordinate from 0 to 1 is within a half, plus the two float
  roundings, of ten thousand times itself.\<close>

theorem quantized_range:
  assumes "length v = Dimensions"
  shows "quantized_query (QuantizeVector v) \<and>
    (\<forall>d < Dimensions. \<forall>x. v ! d = Fin x \<longrightarrow> 0 \<le> x \<longrightarrow> x \<le> 1 \<longrightarrow>
      \<bar>of_int (sint (QuantizeVector v ! d)) - 10000 * x\<bar> \<le> 1 / 2 + 1 / 1024)"
  using QuantizeVector_query [OF assms] quantize_value_nearest [OF fine_formats(1)] assms
  by (auto simp: QuantizeVector_def)

theorem quantized_range_witness:
  "quantized_query (QuantizeVector (replicate 14 (Fin (1 / 3)))) \<and>
    \<bar>of_int (sint (QuantizeVector (replicate 14 (Fin (1 / 3))) ! 0)) - 10000 * (1 / 3 :: rat)\<bar> \<le> 1 / 2 + 1 / 1024"
proof -
  have "length (replicate 14 (Fin (1 / 3))) = Dimensions" "replicate 14 (Fin (1 / 3)) ! 0 = Fin (1 / 3)"
    "0 < Dimensions" by (simp_all add: Dimensions_def)
  with quantized_range [OF this(1)] show ?thesis by fastforce
qed

section \<open>The index file\<close>

text \<open>C30: writing an index and loading it with the memory-mapped loader gives the index back, with the
  mapping and without the row-major vectors that the file does not hold; the heap loader gives the same
  without the mapping.\<close>

theorem write_load_roundtrip:
  assumes "file_ok idx" "Labels idx \<noteq> []"
  shows "\<exists>bytes. writeIVFQuantizedIndex idx = Some (idx, bytes) \<and>
    loadBinaryIndex bytes = Some (Inr (idx\<lparr>Vectors := [], mmap := bytes\<rparr>)) \<and>
    loadBinaryIndexHeap bytes = Some (Inr (idx\<lparr>Vectors := [], mmap := []\<rparr>))"
  using write_ok [OF assms(1)] write_load [OF assms] heap_roundtrip [OF assms(1)] by blast

theorem write_load_roundtrip_witness:
  "\<exists>idx bytes. BuildIVFIndex sample_refs sample_opts = Some (Inr idx) \<and> writeIVFQuantizedIndex idx = Some (idx, bytes) \<and>
    loadBinaryIndex bytes = Some (Inr (idx\<lparr>Vectors := [], mmap := bytes\<rparr>)) \<and>
    loadBinaryIndexHeap bytes = Some (Inr (idx\<lparr>Vectors := [], mmap := []\<rparr>))"
proof -
  obtain idx where idx: "BuildIVFIndex sample_refs sample_opts = Some (Inr idx)" "searchable sample_refs idx"
    using build_searchable [OF sample_refs_ok(1,2)] by (auto simp: build_clusters_sample)
  then have "file_ok idx" "Labels idx \<noteq> []"
    using build_sizes [OF sample_refs_ok(1,2) idx(1)] by (auto simp: searchable_def file_ok_def sample_refs_def)
  from write_load_roundtrip [OF this] idx(1) show ?thesis by blast
qed

text \<open>From the dataset to the answer: preprocessing writes a file, the server maps it, and a search with
  every cluster probed counts the frauds among the five nearest references.\<close>

theorem preprocess_then_serve:
  assumes "refs_ok refs" "accepts refs opts" "length v = Dimensions"
    and "build_clusters (length refs) (optClusters opts) \<le> min 128 (optNProbe opts)"
  shows "\<exists>bytes idx. WriteIVFBinaryIndex refs opts = Some (Inr bytes) \<and> loadBinaryIndex bytes = Some (Inr idx) \<and>
    Search5 True idx v = Some (let q = QuantizeVector v; k = frauds_of (ref_cands refs q)
      in if optRepair opts \<and> k < 3 \<and> needsApprovalRepair q \<and> needsKnownLateDenialRepair q then 3 else k)"
proof -
  have "0 < build_clusters (length refs) (optClusters opts)" using assms(2) by (simp add: accepts_def isPowerOfTwo_def)
  with assms(4) obtain bytes idx where idx: "WriteIVFBinaryIndex refs opts = Some (Inr bytes)"
    "loadBinaryIndex bytes = Some (Inr idx)" "searchable refs idx" "probes_all idx" "Repair (IVF idx) = optRepair opts"
    using mapped.load_built [OF assms(1,2)] by (auto simp: probes_all_def maxIVFProbe_def)
  note search = searchable_exact [OF idx(3) QuantizeVector_query [OF assms(3)] idx(4)]
  show ?thesis using idx(1,2,5) search by (auto simp: Search5_def nearest_answer_def Let_def)
qed

theorem preprocess_then_serve_witness:
  "\<exists>bytes idx. WriteIVFBinaryIndex sample_refs sample_opts = Some (Inr bytes) \<and> loadBinaryIndex bytes = Some (Inr idx) \<and>
    Search5 True idx (replicate 14 (Fin 1)) = Some
      (let q = QuantizeVector (replicate 14 (Fin 1)); k = frauds_of (ref_cands sample_refs q)
       in if optRepair sample_opts \<and> k < 3 \<and> needsApprovalRepair q \<and> needsKnownLateDenialRepair q then 3 else k)"
  by (rule preprocess_then_serve [OF sample_refs_ok(1,2)])
    (simp add: Dimensions_def, unfold build_clusters_sample, simp add: sample_opts_def)

text \<open>C31: no file can make a search panic: whatever bytes either loader accepts, the index has consistent
  tables, and the scalar search of any query on it returns at most five.\<close>

theorem accepted_file_is_safe:
  assumes "loadBinaryIndex f = Some (Inr idx) \<or> loadBinaryIndexHeap f = Some (Inr idx)"
  shows "loaded_ok idx \<and> (\<exists>k \<le> 5. Search5Quantized False idx q = Some k)"
  using assms heap.accepted heap.search_loaded mapped.accepted mapped.search_loaded by blast

theorem accepted_file_is_safe_witness:
  "\<exists>idx. loaded_ok idx \<and> (\<exists>k \<le> 5. Search5Quantized False idx q_plain = Some k)"
proof -
  obtain bytes idx where "loadBinaryIndex bytes = Some (Inr idx)"
    using mapped.load_built [OF sample_refs_ok(1,2)] by (auto simp: build_clusters_sample)
  with accepted_file_is_safe show ?thesis by blast
qed

text \<open>The heap loader returns for every sequence of bytes, with an error or an index, and the
  memory-mapped loader agrees with it: an error where it has one, the same index with the mapping where it
  accepts. The one exception is a file of no rows.\<close>

theorem loaders_agree_on_every_file:
  "\<exists>r. loadBinaryIndexHeap f = Some r \<and> (case r of
     Inl e \<Rightarrow> \<exists>e'. loadBinaryIndex f = Some (Inl e')
   | Inr idx \<Rightarrow> loadBinaryIndex f = Some (Inr (idx\<lparr>mmap := f\<rparr>)) \<or> Labels idx = [] \<and> loadBinaryIndex f = None)"
  using loaders_agree [of f] by (auto simp: same_load_def split: option.splits sum.splits)

text \<open>The exception is real: a file of no rows that ends with its boxes is an empty index for the heap
  loader, and a panic of the memory-mapped one, which takes the address behind its last byte.\<close>

theorem mapped_empty_file_panics:
  "(case loadBinaryIndexHeap empty_file of Some (Inr idx) \<Rightarrow> Labels idx = [] | _ \<Rightarrow> False) \<and>
   loadBinaryIndex empty_file = None"
  by (intro conjI) code_simp+

section \<open>Serving requests\<close>

text \<open>C6: every request is answered once, whatever the pool returns, as long as its bytes do not make the
  vectorizer panic: both headers with the length of the body that follows, one status, one body. The status is 413
  or 400 or 500 for a request that cannot be read, 400 for a body the scanner rejects, and 200 with the
  service's count otherwise.\<close>

theorem requests_are_answered:
  fixes search params risk limit
  assumes "searcher_ok search" "limit < 9223372036854775807" "\<And>data. delivered req limit = Inr data \<Longrightarrow> \<not> panics data"
  shows "\<exists>status k released. FraudScoreRaw useAVX2 (NewHandlers (NewService params risk search) limit) req pool =
      Some (Some (response_calls scoreContentType status (scoreResponses ! k)), released) \<and>
    (case delivered req limit of
       Inl reason \<Rightarrow> status = reason \<and> k = 0
     | Inr data \<Rightarrow> if body_fails data then status = 400 \<and> k = 0
                   else status = 200 \<and> k \<le> 5 \<and>
                     FraudCountJSON useAVX2 (NewService params risk search) data = Some (Some k))"
  using assms by (rule FraudScoreRaw_total)

theorem requests_are_answered_witness:
  "\<exists>status k released. FraudScoreRaw False (NewHandlers (NewService DefaultNormalization DefaultMCCRisk (ExactSearcher sample_refs)) 4096)
        (sample_request ''M'') (PoolGet (replicate 4096 0)) =
      Some (Some (response_calls scoreContentType status (scoreResponses ! k)), released) \<and>
    (case delivered (sample_request ''M'') 4096 of
       Inl reason \<Rightarrow> status = reason \<and> k = 0
     | Inr data \<Rightarrow> if body_fails data then status = 400 \<and> k = 0
                   else status = 200 \<and> k \<le> 5 \<and>
                     FraudCountJSON False (NewService DefaultNormalization DefaultMCCRisk (ExactSearcher sample_refs)) data =
                       Some (Some k))"
  by (rule requests_are_answered [OF sample_searcher]) (simp, simp add: sample_delivered sample_not_panics)

text \<open>C7: the others are the bodies whose merchant id is empty while the known merchants hold no empty id: the
  search for the id runs off the end of its section, and the handler panics before it writes anything.\<close>

theorem unanswered_requests:
  assumes "searcher_ok search" "limit < 9223372036854775807" "delivered req limit = Inr data"
  shows "(\<exists>released. FraudScoreRaw useAVX2 (NewHandlers (NewService params risk search) limit) req pool =
      Some (None, released)) \<longleftrightarrow>
    (\<exists>r part. requestFields data = Some (Some r) \<and> jsonMerchantID r = [] \<and>
       merchant_section data (int (jsonCustomerPos r)) (int (jsonMerchantPos r)) = Some part \<and> \<not> quoted_in part [])"
  using FraudScoreRaw_panics [OF assms] by (simp add: panics_def)

theorem unanswered_requests_witness:
  "\<exists>released. FraudScoreRaw False (NewHandlers (NewService DefaultNormalization DefaultMCCRisk (ExactSearcher sample_refs)) 4096)
     (sample_request []) NoPool = Some (None, released)"
  using unanswered_requests [OF sample_searcher, of 4096 "sample_request []" "sample_body []" False DefaultNormalization
      DefaultMCCRisk sample_refs NoPool] sample_delivered [of "[]" 4096] sample_panics
  by (simp add: panics_def)

text \<open>What a handler reads is what the request delivers, never more than the limit and whatever buffer the
  pool hands out; that buffer is put back, at its length, exactly when it was used and the request ended there.\<close>

theorem body_reading:
  assumes "0 \<le> limit" "limit < 9223372036854775807"
  shows "\<exists>r. readRequestBodyWithPool req limit (PoolGet p) = Some r \<and>
    (case delivered req limit of
       Inl status \<Rightarrow> \<exists>released. r = Replied (response_calls scoreContentType status (scoreResponses ! 0)) released
     | Inr data \<Rightarrow> int (length data) \<le> limit \<and> (\<exists>pooled. r = GotBody data pooled)) \<and>
    map length (put_back (PoolGet p) r) = (if takes_buffer req limit p then [length p] else [])"
proof -
  obtain r where r: "readRequestBodyWithPool req limit (PoolGet p) = Some r"
    using readRequestBodyWithPool_delivered [OF assms(2), of req "PoolGet p"] by (auto split: sum.splits)
  have "map length (put_back (PoolGet p) r) = (if takes_buffer req limit p then [length p] else [])"
    using readRequestBodyWithPool_pool [OF r] by (auto split: if_splits)
  then show ?thesis
    using r readRequestBodyWithPool_delivered [OF assms(2), of req "PoolGet p"] delivered_bound [OF _ assms(1), of req]
    by (auto split: sum.splits)
qed

theorem body_reading_witness:
  "\<exists>r. readRequestBodyWithPool (sample_request ''M'') 4096 (PoolGet (replicate 4096 7)) = Some r \<and>
    (case delivered (sample_request ''M'') 4096 of
       Inl status \<Rightarrow> \<exists>released. r = Replied (response_calls scoreContentType status (scoreResponses ! 0)) released
     | Inr data \<Rightarrow> int (length data) \<le> 4096 \<and> (\<exists>pooled. r = GotBody data pooled)) \<and>
    map length (put_back (PoolGet (replicate 4096 7)) r) =
      (if takes_buffer (sample_request ''M'') 4096 (replicate 4096 7) then [length (replicate 4096 (7 :: u8))] else [])"
  by (rule body_reading) simp_all

text \<open>A decoded request is approved exactly when fewer than three of its five neighbours are frauds, and the
  precomputed response for the same count says the same.\<close>

theorem approval_threshold:
  assumes "searcher_ok search"
  shows "\<exists>k r. FraudCount useAVX2 (NewService params risk search) req = Some k \<and> k \<le> 5 \<and>
    Score useAVX2 (NewService params risk search) req = Some r \<and> Approved r = (k < 3) \<and>
    has_prefix (scoreResponses ! k) (bytes_of (''{\"approved\":'' @ (if Approved r then ''true'' else ''false'') @ '',''))"
proof -
  obtain k where k: "FraudCount useAVX2 (NewService params risk search) req = Some k" "k \<le> 5"
    using FraudCount_total [OF assms] by blast
  then show ?thesis using fifth_order [OF k(2)] response_verdict [OF k(2)] by (simp add: Score_def Let_def)
qed

theorem approval_threshold_witness:
  "\<exists>k r. FraudCount False (NewService DefaultNormalization DefaultMCCRisk (ExactSearcher sample_refs)) sample_transaction = Some k \<and>
    k \<le> 5 \<and>
    Score False (NewService DefaultNormalization DefaultMCCRisk (ExactSearcher sample_refs)) sample_transaction = Some r \<and>
    Approved r = (k < 3) \<and>
    has_prefix (scoreResponses ! k) (bytes_of (''{\"approved\":'' @ (if Approved r then ''true'' else ''false'') @ '',''))"
  by (rule approval_threshold [OF sample_searcher])

section \<open>Vectors\<close>

text \<open>C32: the two JSON vectorizers panic on the same bodies, reject the same bodies, and where they accept, the
  quantized vector of the one differs from the vector of the other by at most one in every coordinate, which is the
  error of the detour over \<open>float32\<close>; the direct one is in the range of the kernels.\<close>

theorem vectorizers_agree:
  "case VectorizeJSON data params risk of
     None \<Rightarrow> VectorizeJSONQuantized data params = None
   | Some None \<Rightarrow> VectorizeJSONQuantized data params = Some None
   | Some (Some v) \<Rightarrow> \<exists>q. VectorizeJSONQuantized data params = Some (Some q) \<and> quantized_query q \<and>
       list_all2 (\<lambda>a b. \<bar>sint a - sint b\<bar> \<le> 1) (QuantizeVector v) q"
proof (cases "VectorizeJSON data params risk")
  case None
  then have "panics data" by (simp add: Vectorize_Json_factor vectorize_with_panics)
  then have "VectorizeJSONQuantized data params = None" by (simp add: Vectorize_Json_factor vectorize_with_panics)
  with None show ?thesis by simp
next
  case (Some w)
  show ?thesis
  proof (cases w)
    case None
    with Some have "VectorizeJSONQuantized data params = Some None"
      by (simp add: Vectorize_Json_factor vectorize_with_fails)
    with Some None show ?thesis by simp
  next
    case (Some v)
    with \<open>VectorizeJSON data params risk = Some w\<close> obtain r known lastTx where
      v: "v = map f32 (coordinates r known lastTx params)" and
      q: "VectorizeJSONQuantized data params = Some (Some (map quantizeFloat64 (coordinates r known lastTx params)))"
      unfolding Vectorize_Json_factor by (metis vectorize_with_Some)
    have "list_all2 (\<lambda>a b. \<bar>sint a - sint b\<bar> \<le> 1) (QuantizeVector v) (map quantizeFloat64 (coordinates r known lastTx params))"
      using close_coordinates by (simp add: v QuantizeVector_def list_all2_map1 list_all2_map2 list_all2_same close_values_def)
    then show ?thesis
      using VectorizeJSONQuantized_query [OF q] q Some \<open>VectorizeJSON data params risk = Some w\<close> by simp
  qed
qed

text \<open>A merchant is known exactly when its id stands in quotes inside the list that follows
  \<open>known_merchants\<close>; only the empty id, when it does not stand there, makes the search panic.\<close>

theorem known_merchant_search:
  "knownMerchantJSON data name start stop =
    (case merchant_section data start stop of
       None \<Rightarrow> Some False
     | Some part \<Rightarrow> if \<exists>a b. part = a @ 34 # name @ 34 # b then Some True else if name = [] then None else Some False)"
  unfolding knownMerchantJSON_spec quoted_in_def by (rule refl)

text \<open>C33: a printed natural number below \<open>2 ^ 53\<close> is read back from behind its key without loss, by the
  loop that multiplies by ten in \<open>float64\<close>. Whatever byte ends it is not looked at: \<open>1e5\<close> is read as 1.\<close>

theorem numbers_round_trip:
  assumes "data = pre @ key @ 58 # decimal n @ b # post" "bytes_Index data key = Some (length pre)"
    and "n < 9007199254740992" "\<not> is_digit b" "b \<noteq> 46" "b \<noteq> 45"
  shows "numberAfter data key 0 = Some (Some (Fin (of_nat n)))"
  using assms by (rule numberAfter_decimal)

theorem numbers_round_trip_witness:
  "numberAfter ([123] @ quoted ''amount'' @ 58 # decimal 1 @ 101 # [53, 125]) (quoted ''amount'') 0 =
     Some (Some (Fin (of_nat 1)))"
  by (rule numbers_round_trip [OF refl])
    (simp_all add: quoted_def bytes_of_def has_prefix_def is_digit_def)

text \<open>\<open>daysFromCivil\<close> counts days: the day after any valid date of the years 0 to 9999 has the next number,
  and the first of January 1970 has number 0.\<close>

theorem day_numbers:
  assumes "valid_date (y, m, d)"
  shows "(case next_day (y, m, d) of (y', m', d') \<Rightarrow> daysFromCivil y' m' d' = daysFromCivil y m d + 1) \<and>
    daysFromCivil 1970 1 1 = 0"
  using daysFromCivil_step [OF assms] daysFromCivil_epoch by blast

theorem day_numbers_witness:
  "(case next_day (2024, 2, 28) of (y', m', d') \<Rightarrow> daysFromCivil y' m' d' = daysFromCivil 2024 2 28 + 1) \<and>
    daysFromCivil 1970 1 1 = 0"
  by (rule day_numbers) (simp add: valid_date_def days_in_month_def leap_def)

text \<open>C34: for a timestamp in UTC from 1970 on, the byte reader of the JSON vectorizers gives the weekday, the hour
  and the minutes that the vectorizer of decoded requests takes from \<open>time.Time\<close>.\<close>

theorem timestamps_agree:
  assumes "valid_date (int y, int m, int d)" "1970 \<le> y" "hh < 24" "mi < 60" "ss < 60"
  shows "weekdayMonday0 (timestamp y m d hh mi ss) = mondayBasedWeekday (instant y m d hh mi ss) \<and>
    parse2 (window (timestamp y m d hh mi ss) 11 13) = time_Hour (instant y m d hh mi ss) \<and>
    epochMinutes (timestamp y m d hh mi ss) = instant y m d hh mi ss div 60000000000"
  using instant_agrees [OF assms] by blast

theorem timestamps_agree_witness:
  "weekdayMonday0 (timestamp 2026 3 27 9 8 20) = mondayBasedWeekday (instant 2026 3 27 9 8 20) \<and>
    parse2 (window (timestamp 2026 3 27 9 8 20) 11 13) = time_Hour (instant 2026 3 27 9 8 20) \<and>
    epochMinutes (timestamp 2026 3 27 9 8 20) = instant 2026 3 27 9 8 20 div 60000000000"
  by (rule timestamps_agree) (simp_all add: valid_date_def days_in_month_def)

text \<open>C35: for finite numbers and the default risks the vector of a decoded request has fourteen coordinates in the
  unit interval, except that the two of the last transaction are -1 when there is none; no division, infinity or
  rounding leads out of it.\<close>

theorem vector_coordinates:
  assumes "request_ok req" "finite_norm params"
  shows "length (Vectorize req params DefaultMCCRisk) = 14 \<and>
    list_all unit_value (take 5 (Vectorize req params DefaultMCCRisk) @ drop 7 (Vectorize req params DefaultMCCRisk)) \<and>
    (if RequestLast req = None then take 2 (drop 5 (Vectorize req params DefaultMCCRisk)) = [Fin (- 1), Fin (- 1)]
     else list_all unit_value (Vectorize req params DefaultMCCRisk))"
  using assms by (rule Vectorize_coordinates)

theorem vector_coordinates_witness:
  "length (Vectorize sample_transaction DefaultNormalization DefaultMCCRisk) = 14 \<and>
    list_all unit_value (take 5 (Vectorize sample_transaction DefaultNormalization DefaultMCCRisk) @
      drop 7 (Vectorize sample_transaction DefaultNormalization DefaultMCCRisk)) \<and>
    (if RequestLast sample_transaction = None
     then take 2 (drop 5 (Vectorize sample_transaction DefaultNormalization DefaultMCCRisk)) = [Fin (- 1), Fin (- 1)]
     else list_all unit_value (Vectorize sample_transaction DefaultNormalization DefaultMCCRisk))"
  by (rule vector_coordinates [OF sample_transaction_ok finite_DefaultNormalization])

text \<open>C36: the brute-force searcher counts the frauds among the five references of smallest \<open>float32\<close> squared
  distance, ties in dataset order, leaving out distances that overflow or are not numbers.\<close>

theorem exact_search_nearest:
  "ExactSearcher_Search5 references query =
     length (filter snd (best 5 exact_key (filter is_near (distances references query))))"
  by (rule ExactSearcher_nearest)

section \<open>Concurrent requests\<close>

text \<open>C8: however requests interleave, a body buffer belongs to one of them or to the pool: the pool never
  holds a buffer twice, no buffer that a request holds is in the pool, and no two requests hold the same one.\<close>

theorem buffers_have_one_owner:
  assumes "pool_reachable useAVX2 h req s"
  shows "distinct (idle s) \<and> (\<forall>i b. held s i = Some b \<longrightarrow> b \<notin> set (idle s)) \<and>
    (\<forall>i j b. held s i = Some b \<and> held s j = Some b \<longrightarrow> i = j)"
  using one_owner_reachable [OF assms] by (simp add: one_owner_def)

theorem buffers_have_one_owner_witness:
  "\<exists>s. held s 2 = Some 1 \<and> idle s = [0] \<and> distinct (idle s) \<and> 1 \<notin> set (idle s)"
proof -
  obtain s where s: "pool_reachable True pool_handlers pool_requests s" "phases s 2 = Scoring 1 True 2" "idle s = [0]"
    using pool_run_reachable by blast
  then have "held s 2 = Some 1" by (simp add: held_def)
  with buffers_have_one_owner [OF s(1)] s(3) show ?thesis by blast
qed

text \<open>C5: concurrent requests do not disturb each other. While a request is scored the front of its buffer is the
  body it was sent, and when it is finished its outcome is the one of the handler that runs alone, with any answer
  of the pool.\<close>

theorem concurrent_requests_are_isolated:
  assumes "pool_reachable useAVX2 h req s" "bodyLimit h < 9223372036854775807"
  shows "(\<forall>i b pooled k. phases s i = Scoring b pooled k \<longrightarrow>
      delivered (req i) (bodyLimit h) = Inr (take k (arrays s b))) \<and>
    (\<forall>i r. phases s i = Finished r \<longrightarrow> (\<exists>released. FraudScoreRaw useAVX2 h (req i) pool = Some (r, released)))"
  using scored_bytes [OF assms] finished_alone [OF assms] by blast

theorem concurrent_requests_are_isolated_witness:
  "(\<exists>s :: pool_state. delivered (pool_requests 2) 4 = Inr (take 2 (arrays s 1))) \<and>
   (\<exists>released. FraudScoreRaw True pool_handlers (pool_requests 0) NoPool = Some (writeScoreRaw 400 0, released))"
proof -
  obtain s where s: "pool_reachable True pool_handlers pool_requests s" "phases s 0 = Finished (writeScoreRaw 400 0)"
    "phases s 2 = Scoring 1 True 2" using pool_run_reachable by blast
  note isolated = concurrent_requests_are_isolated [OF s(1) pool_limit, of NoPool, unfolded pool_handlers_parts(2)]
  show ?thesis
    using isolated [THEN conjunct1, rule_format, OF s(3)] isolated [THEN conjunct2, rule_format, OF s(2)] by blast
qed

text \<open>C9: no request waits for another: from every reachable state each request can finish by its own steps, in at
  most four more than the bytes it announces.\<close>

theorem requests_finish:
  assumes "pool_reachable useAVX2 h req s" "bodyLimit h < 9223372036854775807"
  shows "\<exists>es t r. list_all (\<lambda>e. event_of e = Some i) es \<and> length es \<le> nat (ContentLength (req i)) + 4 \<and>
    foldM (handler_event useAVX2 h req) es s = Some t \<and> phases t i = Finished r"
proof -
  have "steps_left (req i) (phases s i) \<le> nat (ContentLength (req i)) + 4"
    by (cases "phases s i") (simp_all add: steps_left_def)
  with request_finishes [OF sound_reachable [OF assms] one_owner_reachable [OF assms(1)] assms(2), of i]
  show ?thesis by (meson le_trans)
qed

theorem requests_finish_witness:
  "\<exists>es t r. list_all (\<lambda>e. event_of e = Some 7) es \<and> length es \<le> nat (ContentLength (pool_requests 7)) + 4 \<and>
    foldM (handler_event True pool_handlers pool_requests) es initial_pool = Some t \<and> phases t 7 = Finished r"
  by (rule requests_finish [OF pool_reachable.start pool_limit])

section \<open>The commands\<close>

text \<open>C3: from the references to the response, through the commands: when \<open>preprocess\<close> has run on the
  references (with at most 8192 clusters) and the environment names its output, \<open>api\<close> starts a server with the scoring
  route on the built index with the parameters of the environment, and, with AVX2, every body that the scanner accepts is
  answered by the precomputed response of \<open>search_answer\<close>: the count over the probed rows, widened when it is ambiguous, over
  all rows when it is then repaired, and over the rows of 128 more clusters when a hand-tuned rule applies. It is the
  number of frauds among the five references nearest to the vector of the body when every cluster is probed (at most 128
  clusters, and at most the probes of the environment), but for the late denial, and whenever an ambiguous count
  is repaired and no hand-tuned rule applies.\<close>

theorem commands_to_response:
  fixes env :: environment
  defines "cfg \<equiv> LoadConfig env"
  assumes "LoadReferences gunzip decode files (referencesPath flags) = Inr refs"
    and "preprocess_main gunzip decode files flags = Some (Inr files')" "outPath flags = IndexPath cfg"
    and "refs_ok refs" "accepts refs (build_options flags)" "build_clusters (length refs) (clustersFlag flags) \<le> 8192"
    and "delivered req (BodyLimitBytes cfg) = Inr data" "\<not> panics data" "\<not> body_fails data"
    and "BodyLimitBytes cfg < 9223372036854775807"
  shows "\<exists>s built bytes q released. api_main gunzip decode files' env = Some (Inr s) \<and>
    Raw (bytes_of ''POST'') (bytes_of ''/fraud-score'') ScoreHandler \<in> set (appRoutes (serverApp s)) \<and>
    BuildIVFIndex refs (build_options flags) = Some (Inr built) \<and> files' (IndexPath cfg) = Some bytes \<and>
    VectorizeJSONQuantized data DefaultNormalization = Some (Some q) \<and>
    FraudScoreRaw True (serverHandlers s) req pool = Some (Some (response_calls scoreContentType 200
      (scoreResponses ! search_answer (configured_index cfg bytes built) q)), released) \<and>
    (build_clusters (length refs) (clustersFlag flags) \<le> min 128 (ANNNProbe cfg) \<longrightarrow>
      search_answer (configured_index cfg bytes built) q = nearest_answer refs (ANNRepair cfg) q) \<and>
    (repaired_exactly (configured_index cfg bytes built) q \<longrightarrow>
      search_answer (configured_index cfg bytes built) q = frauds_of (ref_cands refs q))"
proof -
  let ?h = "\<lambda>bytes built. NewHandlers (NewService DefaultNormalization DefaultMCCRisk
    (QuantizedSearcher (configured_index cfg bytes built))) (BodyLimitBytes cfg)"
  obtain built bytes where b: "BuildIVFIndex refs (build_options flags) = Some (Inr built)" "files' (IndexPath cfg) = Some bytes"
    "api_main gunzip decode files' env = Some (Inr (server_around cfg (?h bytes built)))"
    "searchable refs (configured_index cfg bytes built)" "Repair (IVF (configured_index cfg bytes built)) = ANNRepair cfg"
    "build_clusters (length refs) (clustersFlag flags) \<le> min 128 (ANNNProbe cfg) \<Longrightarrow> probes_all (configured_index cfg bytes built)"
    unfolding cfg_def by (rule preprocessed_server [OF assms(2,3) assms(4) [unfolded cfg_def] assms(5-7)]) (rule that [unfolded cfg_def])
  have route: "Raw (bytes_of ''POST'') (bytes_of ''/fraud-score'') ScoreHandler
      \<in> set (appRoutes (serverApp (server_around cfg (?h bytes built))))"
    by (simp add: server_around_def RegisterRoutes_def registerPprof_def Let_def)
  note served_response [where params = DefaultNormalization and risk = DefaultMCCRisk and pool = pool,
      OF b(4) assms(11,8-10) b(5,6)]
  with b(1-3) route show ?thesis by (metis serverHandlers_around)
qed

theorem commands_to_response_witness:
  "\<exists>files' s built bytes q released.
    preprocess_main (\<lambda>f. None) (\<lambda>f. Some sample_refs) (\<lambda>path. Some []) sample_preprocess = Some (Inr files') \<and>
    api_main (\<lambda>f. None) (\<lambda>f. Some sample_refs) files' (\<lambda>key. []) = Some (Inr s) \<and>
    BuildIVFIndex sample_refs sample_opts = Some (Inr built) \<and>
    VectorizeJSONQuantized (sample_body ''M'') DefaultNormalization = Some (Some q) \<and>
    FraudScoreRaw True (serverHandlers s) (sample_request ''M'') NoPool =
      Some (Some (response_calls scoreContentType 200 (scoreResponses !
        search_answer (configured_index (LoadConfig (\<lambda>key. [])) bytes built) q)), released) \<and>
    search_answer (configured_index (LoadConfig (\<lambda>key. [])) bytes built) q =
      nearest_answer sample_refs (ANNRepair (LoadConfig (\<lambda>key. []))) q"
proof -
  let ?cfg = "LoadConfig (\<lambda>key. [])"
  have cfg: "BodyLimitBytes ?cfg = 16384" "ANNNProbe ?cfg = 8" by (simp_all add: LoadConfig_def getenvInt_def)
  obtain files' where f: "preprocess_main (\<lambda>f. None) (\<lambda>f. Some sample_refs) (\<lambda>path. Some []) sample_preprocess = Some (Inr files')"
    using sample_preprocess_runs by blast
  have opts: "accepts sample_refs (build_options sample_preprocess)"
    "build_clusters (length sample_refs) (clustersFlag sample_preprocess) \<le> 8192"
    "build_clusters (length sample_refs) (clustersFlag sample_preprocess) \<le> min 128 (ANNNProbe ?cfg)"
    using sample_refs_ok by (simp_all add: sample_options sample_clusters cfg)
  have d: "delivered (sample_request ''M'') (BodyLimitBytes ?cfg) = Inr (sample_body ''M'')" "BodyLimitBytes ?cfg < 9223372036854775807"
    using sample_delivered [of "''M''" 16384] by (simp_all add: cfg)
  from commands_to_response [OF sample_references f sample_out sample_refs_ok(1) opts(1,2) d(1) sample_not_panics sample_accepted d(2),
      where pool = NoPool] opts(3) f
  show ?thesis unfolding sample_options by blast
qed

text \<open>C10: the evaluation measures the server: with the index and the parameters of a configured server its confusion
  counts are the numbers of chosen entries that this server would approve, deny or reject, by what was
  expected of them, and the weighted errors count a false positive once, a false negative three times and an invalid
  entry five times.\<close>

theorem evaluation_counts_server_answers:
  assumes "refs_ok refs" "accepts refs opts" "build_clusters (length refs) (optClusters opts) \<le> 8192"
    and "WriteIVFBinaryIndex refs opts = Some (Inr bytes)" "files (IndexPath cfg) = Some bytes" "same_search flags cfg"
    and "loadTestData decode files (flagTestData flags) = Inr tests" "length tests < 9007199254740992"
    and "list_all (\<lambda>(i, e). \<not> panics (Request e) \<and> int (length (Request e)) \<le> BodyLimitBytes cfg) (selected flags tests)"
    and "flagErrorsOut flags = '''' \<or> writable (flagErrorsOut flags)"
  shows "\<exists>h report written. NewServer gunzip refs_decode files cfg = Some (Inr h) \<and>
    evaluate_main useAVX2 decode unmarshal elapsed files writable flags = Some (Inr (report, written)) \<and>
    total report = length (selected flags tests) \<and>
    true_positive report = length (filter (\<lambda>(i, e). decision useAVX2 h e = Some False \<and> \<not> ExpectedApproved e) (selected flags tests)) \<and>
    true_negative report = length (filter (\<lambda>(i, e). decision useAVX2 h e = Some True \<and> ExpectedApproved e) (selected flags tests)) \<and>
    false_positive report = length (filter (\<lambda>(i, e). decision useAVX2 h e = Some False \<and> ExpectedApproved e) (selected flags tests)) \<and>
    false_negative report = length (filter (\<lambda>(i, e). decision useAVX2 h e = Some True \<and> \<not> ExpectedApproved e) (selected flags tests)) \<and>
    invalid_entries report = length (filter (\<lambda>(i, e). decision useAVX2 h e = None) (selected flags tests)) \<and>
    weighted_errors_E report = false_positive report + 3 * false_negative report + 5 * invalid_entries report"
proof (rule evaluation_of_server [where files = files and cfg = cfg and flags = flags and decode = decode and
      writable = writable, OF assms(1-8) _ assms(10)])
  fix i e assume "(i, e) \<in> set (selected flags tests)"
  with assms(9) show "\<not> panics (Request e) \<and> int (length (Request e)) \<le> BodyLimitBytes cfg" by (auto simp: list_all_iff)
qed

theorem evaluation_counts_server_answers_witness:
  "\<exists>bytes report written. WriteIVFBinaryIndex sample_refs sample_opts = Some (Inr bytes) \<and>
    evaluate_main True (\<lambda>f. Some sample_tests) length int (\<lambda>path. Some bytes) (\<lambda>path. True) sample_flags =
      Some (Inr (report, written)) \<and> total report = 2"
proof -
  obtain bytes where w: "WriteIVFBinaryIndex sample_refs sample_opts = Some (Inr bytes)" using sample_written by blast
  have l: "BodyLimitBytes (LoadConfig sample_env) = 16384" by (simp add: LoadConfig_def getenvInt_def sample_env_def)
  have "build_clusters (length sample_refs) (optClusters sample_opts) \<le> 8192" "length sample_tests < 9007199254740992"
    by (simp_all add: build_clusters_sample sample_tests_def)
  note e = evaluation_counts_server_answers [where files = "\<lambda>path. Some bytes" and cfg = "LoadConfig sample_env" and flags = sample_flags
      and decode = "\<lambda>f. Some sample_tests" and tests = sample_tests and writable = "\<lambda>path. True" and unmarshal = length
      and elapsed = int and ?useAVX2.0 = True and gunzip = "\<lambda>f. None" and refs_decode = "\<lambda>f. None", unfolded l,
      OF sample_refs_ok(1,2) this(1) w refl sample_same_search sample_test_data this(2) sample_tests_ok disjI2 [OF TrueI]]
  then obtain report written where "evaluate_main True (\<lambda>f. Some sample_tests) length int (\<lambda>path. Some bytes) (\<lambda>path. True)
      sample_flags = Some (Inr (report, written))" "total report = length (selected sample_flags sample_tests)" by blast
  moreover have "length sample_tests = 2" by (simp add: sample_tests_def)
  ultimately show ?thesis using w by (auto simp: sample_selected)
qed

text \<open>C11: the report's latencies are measured ones: the lower median and two more that do not decrease, whatever the
  rounding of the index.\<close>

theorem latency_percentiles:
  assumes "durations st \<noteq> []" "length (durations st) < 9007199254740992"
  shows "\<exists>report b c. summary flags st = Some report \<and>
    p50_ms report = millis (sort (durations st) ! ((length (durations st) - 1) div 2)) \<and>
    p95_ms report = millis b \<and> p99_ms report = millis c \<and>
    sort (durations st) ! ((length (durations st) - 1) div 2) \<le> b \<and> b \<le> c \<and>
    b \<in> set (durations st) \<and> c \<in> set (durations st)"
proof -
  obtain report where r: "summary flags st = Some report" using summary_returns [OF assms(2)] by blast
  from reported_percentiles [OF assms] summary_percentiles [OF r] r show ?thesis by blast
qed

theorem latency_percentiles_witness:
  "\<exists>report b c. summary sample_flags (no_tally\<lparr>tn := 4, durations := [7, 5, 9, 6]\<rparr> :: nat tally) = Some report \<and>
    p50_ms report = millis 6 \<and> p95_ms report = millis b \<and> p99_ms report = millis c \<and> 6 \<le> b \<and> b \<le> c \<and> c \<in> {5, 6, 7, 9}"
  using latency_percentiles [where st = "no_tally\<lparr>tn := 4, durations := [7, 5, 9, 6]\<rparr> :: nat tally" and flags = sample_flags]
  by (auto simp: no_tally_def)

text \<open>The health check reaches the server it belongs to exactly when the environment has a socket path or the
  port is the default: it exits with 0 then, and with 1 for a healthy server on another port.\<close>

theorem healthcheck_target:
  assumes "answered_by (server_around (LoadConfig env) h) http_get"
  shows "healthcheck_main http_get env = (if env ''SOCKET_PATH'' \<noteq> '''' \<or> Port (LoadConfig env) = 8080 then 0 else 1)"
  using healthcheck_exit [OF assms] .

theorem healthcheck_target_witness:
  "healthcheck_main (reachable_get (server_around (LoadConfig port_env) pool_handlers)) port_env = 1"
  using healthcheck_target [OF reachable_get_answers, of port_env pool_handlers] by (simp add: port_env_port)

section \<open>The load balancer\<close>

text \<open>C12: the balancer in front of the server, from its start on, however the tasks of the clients interleave. While one
  endpoint runs the handler (every connection to it stays open between requests) and the others fail
  cleanly, and every client sends requests for the scoring route that come in reads of their own, however they are cut:
  each client has its responses in order, the response to a request is the bytes of what the handler writes for it, with its
  status and length, unless that request itself can make the handler panic, and a client whose task ended normally and none of
  whose requests can has a response to each. A request that makes the handler panic, whatever the library then does,
  disturbs no other client.\<close>

theorem balancer_serves_every_client:
  fixes search params risk limit
  defines "h \<equiv> NewHandlers (NewService params risk search) limit"
  assumes "searcher_ok search" "limit < 9223372036854775807"
    and "async_main env resolve parse_addr is_ipv4 succeeds clients = Serving s0" "lb_reachable offers s0 s"
    and "\<exists>e \<in> set (endpoints s0). endpoint_serves (handler_service useAVX2 h arrives) offers e"
    and "\<forall>e \<in> set (endpoints s0). endpoint_serves (handler_service useAVX2 h arrives) offers e \<or> endpoint_broken offers e"
    and "\<And>i. separate (requests i)" "\<And>i g. g \<in> set (requests i) \<Longrightarrow> \<exists>req. arrives (concat g) req"
    and "\<And>i. pieces (clients i) = concat (requests i)"
  shows "(\<forall>n < length (replies (tasks s i)). n < length (requests i) \<and>
      (\<not> panicking limit arrives (concat (requests i ! n)) \<longrightarrow>
        scored useAVX2 h arrives (concat (requests i ! n)) (replies (tasks s i) ! n))) \<and>
    (stage (tasks s i) = Closed True \<and> (\<forall>g \<in> set (requests i). \<not> panicking limit arrives (concat g)) \<longrightarrow>
      length (replies (tasks s i)) = length (requests i))"
proof -
  have lim: "bodyLimit h < 9223372036854775807" using assms(3) by (simp add: h_def NewHandlers_def)
  have served: "served (handler_service useAVX2 h arrives) (requests i) (tasks s i)"
    by (rule every_client_served [OF lim assms(4-10)])
  note ends = handler_service_ends [where params = params and risk = risk, OF assms(2,3), folded h_def]
  note own = service_scored [where params = params and risk = risk, OF _ assms(2,3), folded h_def]
  have "n < length (requests i) \<and> (\<not> panicking limit arrives (concat (requests i ! n)) \<longrightarrow>
      scored useAVX2 h arrives (concat (requests i ! n)) (replies (tasks s i) ! n))" if "n < length (replies (tasks s i))" for n
    using served_in_order [OF served that] ends own by blast
  with served_completely [OF served] ends show ?thesis by blast
qed

theorem balancer_serves_every_client_witness:
  "\<exists>t r. lb_reachable socket_offers two_socket_state t \<and> replies (tasks t 0) = [r] \<and>
    scored True pool_handlers parses (post_of (sample_body ''M'')) r"
proof -
  have h: "bodyLimit pool_handlers < 9223372036854775807"
    "pool_handlers = NewHandlers (NewService DefaultNormalization DefaultMCCRisk (ExactSearcher [])) 4"
    by (rule pool_limit) (simp add: pool_handlers_def)
  have "answer True pool_handlers (sample_request ''M'') = Some (413, 0)"
    using sample_body_length(2) by (simp add: answer_def delivered_def pool_handlers_parts sample_request_def)
  then obtain es t where t: "foldM (lb_event_step socket_offers) es two_socket_state = Some t" "replies (tasks t 0) = [score_response 413 0]"
    using answered_run [OF _ h(1)] unfolding socket_offers_def by blast
  have r: "lb_reachable socket_offers two_socket_state t" by (rule lb_run_reachable [OF t(1) lb_reachable.start])
  have "honest (handler_service True (NewHandlers (NewService DefaultNormalization DefaultMCCRisk (ExactSearcher [])) 4) parses)
      (handler_conn True pool_handlers)"
    using handler_conn_honest [OF h(1), of True] unfolding h(2) .
  note serve = two_socket_serve [OF this]
  note balancer_serves_every_client [OF sample_searcher _ two_sockets_start r [unfolded socket_offers_def] serve, folded h(2),
      where requests = "\<lambda>i. cut_requests" and i = 0, OF _ cut_clients_separate(1) cut_requests_arrive cut_clients_separate(2)]
  then have "scored True pool_handlers parses (concat (cut_requests ! 0)) (score_response 413 0)"
    using t(2) cut_requests_quiet [of "cut_requests ! 0"] by (simp add: cut_requests_def)
  then have "scored True pool_handlers parses (post_of (sample_body ''M'')) (score_response 413 0)" by (simp add: cut_requests_def)
  with r t(2) show ?thesis by blast
qed

text \<open>C4: the whole system: when \<open>preprocess\<close> has run on the references (with at most 8192 clusters), \<open>api\<close> has started on
  its file with AVX2 and the load balancer is running in front of such servers, under the conditions of C12: every
  response that any client has got, in whatever interleaving of the clients, for a request whose body the scanner
  accepts and that cannot make the handler panic, is a status 200 with the precomputed body of \<open>search_answer\<close> for the
  vector of that request on the built index. As in C3 that is the number of frauds among the five references nearest to
  the vector, but for the late denial, when every cluster is probed (at most 128), and when an ambiguous
  count is repaired and no hand-tuned rule applies.\<close>

theorem system_serves_nearest_references:
  fixes env :: environment
  defines "cfg \<equiv> LoadConfig env"
  assumes "LoadReferences gunzip decode files (referencesPath flags) = Inr refs"
    and "preprocess_main gunzip decode files flags = Some (Inr files')" "outPath flags = IndexPath cfg"
    and "refs_ok refs" "accepts refs (build_options flags)" "build_clusters (length refs) (clustersFlag flags) \<le> 8192"
    and "api_main gunzip decode files' env = Some (Inr s)" "BodyLimitBytes cfg < 9223372036854775807"
    and "async_main lb_env resolve parse_addr is_ipv4 succeeds clients = Serving s0" "lb_reachable offers s0 t"
    and "\<exists>e \<in> set (endpoints s0). endpoint_serves (handler_service True (serverHandlers s) arrives) offers e"
    and "\<forall>e \<in> set (endpoints s0). endpoint_serves (handler_service True (serverHandlers s) arrives) offers e \<or> endpoint_broken offers e"
    and "\<And>i. separate (requests i)" "\<And>i g. g \<in> set (requests i) \<Longrightarrow> \<exists>req. arrives (concat g) req"
    and "\<And>i. pieces (clients i) = concat (requests i)"
    and "n < length (replies (tasks t i))" "\<not> panicking (BodyLimitBytes cfg) arrives (concat (requests i ! n))"
    and "\<forall>req. arrives (concat (requests i ! n)) req \<longrightarrow>
      (\<exists>data. delivered req (BodyLimitBytes cfg) = Inr data \<and> \<not> body_fails data)"
  shows "\<exists>built bytes req data q. BuildIVFIndex refs (build_options flags) = Some (Inr built) \<and>
    files' (IndexPath cfg) = Some bytes \<and> arrives (concat (requests i ! n)) req \<and>
    delivered req (BodyLimitBytes cfg) = Inr data \<and> VectorizeJSONQuantized data DefaultNormalization = Some (Some q) \<and>
    http_response (response_calls scoreContentType 200 (scoreResponses ! search_answer (configured_index cfg bytes built) q))
      (replies (tasks t i) ! n) \<and>
    (build_clusters (length refs) (clustersFlag flags) \<le> min 128 (ANNNProbe cfg) \<longrightarrow>
      search_answer (configured_index cfg bytes built) q = nearest_answer refs (ANNRepair cfg) q) \<and>
    (repaired_exactly (configured_index cfg bytes built) q \<longrightarrow>
      search_answer (configured_index cfg bytes built) q = frauds_of (ref_cands refs q))"
  unfolding cfg_def by (rule system_answers [OF assms(2-19) [unfolded cfg_def]])

theorem system_serves_nearest_references_witness:
  "\<exists>files' s offers t r q. preprocess_main (\<lambda>f. None) (\<lambda>f. Some sample_refs) (\<lambda>path. Some []) sample_preprocess = Some (Inr files') \<and>
    api_main (\<lambda>f. None) (\<lambda>f. Some sample_refs) files' (\<lambda>key. []) = Some (Inr s) \<and>
    lb_reachable offers two_socket_state t \<and> replies (tasks t 0) = [r] \<and>
    VectorizeJSONQuantized (sample_body ''M'') DefaultNormalization = Some (Some q) \<and>
    http_response (response_calls scoreContentType 200 (scoreResponses !
      nearest_answer sample_refs (ANNRepair (LoadConfig (\<lambda>key. []))) q)) r"
proof -
  let ?cfg = "LoadConfig (\<lambda>key. [])" and ?R = "cut_requests ! 0"
  have cfg: "BodyLimitBytes ?cfg = 16384" "ANNNProbe ?cfg = 8" by (simp_all add: LoadConfig_def getenvInt_def)
  obtain files' where f: "preprocess_main (\<lambda>f. None) (\<lambda>f. Some sample_refs) (\<lambda>path. Some []) sample_preprocess = Some (Inr files')"
    using sample_preprocess_runs by blast
  have opts: "accepts sample_refs (build_options sample_preprocess)"
    "build_clusters (length sample_refs) (clustersFlag sample_preprocess) \<le> 8192"
    "build_clusters (length sample_refs) (clustersFlag sample_preprocess) \<le> min 128 (ANNNProbe ?cfg)"
    using sample_refs_ok by (simp_all add: sample_options sample_clusters cfg)
  obtain bytes built where b: "api_main (\<lambda>f. None) (\<lambda>f. Some sample_refs) files' (\<lambda>key. []) = Some (Inr (server_around ?cfg (NewHandlers
      (NewService DefaultNormalization DefaultMCCRisk (QuantizedSearcher (configured_index ?cfg bytes built))) (BodyLimitBytes ?cfg))))"
    "searchable sample_refs (configured_index ?cfg bytes built)"
    by (rule preprocessed_server [OF sample_references f sample_out sample_refs_ok(1) opts(1,2)])
  let ?h = "NewHandlers (NewService DefaultNormalization DefaultMCCRisk (QuantizedSearcher (configured_index ?cfg bytes built))) (BodyLimitBytes ?cfg)"
  have lim: "bodyLimit ?h < 9223372036854775807" "BodyLimitBytes ?cfg < 9223372036854775807" by (simp_all add: NewHandlers_def cfg)
  have body: "delivered (sample_request ''M'') (BodyLimitBytes ?cfg) = Inr (sample_body ''M'')"
    using sample_delivered [of "''M''" 16384] by (simp add: cfg)
  have "answer True ?h (sample_request ''M'') \<noteq> None"
    using answer_panics [OF searchable_searcher [OF b(2)]] body sample_not_panics by fastforce
  then obtain status k where a: "answer True ?h (sample_request ''M'') = Some (status, k)" by auto
  obtain es t where t: "foldM (lb_event_step (second_offers (handler_conn True ?h))) es two_socket_state = Some t"
    "replies (tasks t 0) = [score_response status k]"
    using answered_run [OF a lim(1)] by blast
  have r: "lb_reachable (second_offers (handler_conn True ?h)) two_socket_state t" by (rule lb_run_reachable [OF t(1) lb_reachable.start])
  have first: "parsed (concat ?R) = sample_request ''M''" using sample_posts(1) by (simp add: cut_requests_def)
  have quiet: "\<not> panicking (BodyLimitBytes ?cfg) parses (concat ?R)" by (rule cut_requests_quiet) (simp add: cut_requests_def)
  have accepted: "\<forall>req. parses (concat ?R) req \<longrightarrow>
      (\<exists>data. delivered req (BodyLimitBytes ?cfg) = Inr data \<and> \<not> body_fails data)"
    using first body sample_accepted by (simp add: parses_def)
  have honest: "honest (handler_service True (serverHandlers (server_around ?cfg ?h)) parses) (handler_conn True ?h)"
    using handler_conn_honest [OF lim(1)] by (simp only: serverHandlers_around)
  note system = system_serves_nearest_references [OF sample_references f sample_out sample_refs_ok(1) opts(1,2) b(1) lim(2)
      two_sockets_start r two_socket_serve [OF honest],
      where requests = "\<lambda>i. cut_requests" and i = 0 and n = 0,
      OF cut_clients_separate(1) cut_requests_arrive cut_clients_separate(2) _ quiet accepted]
  have "0 < length (replies (tasks t 0))" using t(2) by simp
  from system [OF this] opts(3) obtain req data q where q: "parses (concat ?R) req" "delivered req (BodyLimitBytes ?cfg) = Inr data"
    "VectorizeJSONQuantized data DefaultNormalization = Some (Some q)"
    "http_response (response_calls scoreContentType 200 (scoreResponses ! nearest_answer sample_refs (ANNRepair ?cfg) q)) (replies (tasks t 0) ! 0)"
    by metis
  have "data = sample_body ''M''" using q(1,2) first body by (simp add: parses_def)
  then show ?thesis using f b(1) r t(2) q(3,4) by (metis nth_Cons_0)
qed

text \<open>C13: no client waits for another: in any run a task makes at most one step more than the reads of its client times
  three plus five for each upstream, and from every state it can end by its own steps, as long as connection attempts
  end.\<close>

theorem clients_finish:
  assumes "async_main env resolve parse_addr is_ipv4 succeeds clients = Serving s0"
    and "foldM (lb_event_step offers) es s0 = Some s" "\<forall>e. \<exists>r. offers e r"
  shows "length (filter (\<lambda>e. task_of e = Some i) es) \<le> length (pieces (clients i)) * (5 * length (endpoints s0) + 3) + 1 \<and>
    (running s \<and> stage (tasks s i) \<noteq> Backlog \<longrightarrow> (\<exists>es' t ok. list_all (\<lambda>e. task_of e = Some i) es' \<and>
      foldM (lb_event_step offers) es' s = Some t \<and> stage (tasks t i) = Closed ok))"
proof -
  have init: "length (upstreams (shared s0)) = length (endpoints s0)" "tasks s0 i = \<lparr>client_conn = clients i, replies = [], stage = Backlog\<rparr>"
    using async_main_parts [OF assms(1)] by simp_all
  from lb_run_left [OF assms(2), of i] have "length (filter (\<lambda>e. task_of e = Some i) es) \<le>
      length (pieces (clients i)) * (5 * length (endpoints s0) + 3) + 1"
    by (simp add: init task_left_waiting)
  with task_ends [OF _ _ assms(3)] show ?thesis by blast
qed

theorem clients_finish_witness:
  "length (pieces (cut_clients 0)) * (5 * length (endpoints two_socket_state) + 3) + 1 = 40 \<and>
   (\<exists>es' t ok. list_all (\<lambda>e. task_of e = Some 0) es' \<and> foldM (lb_event_step socket_offers) es' accepted_state = Some t \<and>
     stage (tasks t 0) = Closed ok)"
  using clients_finish [OF two_sockets_start accepted_run socket_offers_something, of 0] accepted_parts(1,2)
  by (simp add: cut_clients_def cut_requests_def two_socket_state_def serve_def socket_endpoints_def)

text \<open>C14: the task of a client that is not interrupted does what the sequential loop does: the same responses, the same
  requests at the upstreams, the same idle connections and the same round robin.\<close>

theorem task_alone_is_handle_client:
  assumes "running s" "stage (tasks s i) = AwaitingRequest" "shared s = without_accepts p"
    and "handle_client write_ok n (client_conn (tasks s i)) p = (rs, p')"
  shows "\<exists>t ok. alone_run i s t \<and> stage (tasks t i) = Closed ok \<and> replies (tasks t i) = replies (tasks s i) @ rs \<and>
    shared t = without_accepts p'"
  by (rule alone_is_handle_client [OF assms(1,2) refl assms(3,4)])

theorem task_alone_is_handle_client_witness:
  "\<exists>t ok. alone_run 0 one_client_state t \<and> stage (tasks t 0) = Closed ok \<and> replies (tasks t 0) = [reply_of ''1''] \<and>
    shared t = without_accepts after_first"
  using task_alone_is_handle_client [of one_client_state 0 one_proxy "\<lambda>k. True" 0 "[reply_of ''1'']" after_first]
  by (simp add: one_client_state_def first_client_served)

text \<open>C15: however the tasks interleave, no pool ever holds more idle connections than the configured bound.\<close>

theorem pools_bounded:
  assumes "async_main env resolve parse_addr is_ipv4 succeeds clients = Serving s0" "lb_reachable offers s0 s"
  shows "\<exists>config. from_env env = Some config \<and> length (upstreams (shared s)) = length (upstream_addrs config) \<and>
    (\<forall>pool \<in> set (upstreams (shared s)). max_idle pool = pool_size config \<and> length (idle_conns pool) \<le> pool_size config)"
proof -
  obtain config where c: "from_env env = Some config" "proxy_ok (shared s0)"
    "map max_idle (upstreams (shared s0)) = replicate (length (upstream_addrs config)) (pool_size config)"
    using async_main_parts [OF assms(1)] by blast
  have s: "proxy_ok (shared s)" "map max_idle (upstreams (shared s)) = replicate (length (upstream_addrs config)) (pool_size config)"
    using lb_reachable_pools [OF assms(2) c(2)] c(3) by simp_all
  have "max_idle pool = pool_size config" if "pool \<in> set (upstreams (shared s))" for pool
    using that s(2) by (metis in_set_replicate image_eqI set_map)
  moreover have "length (upstreams (shared s)) = length (upstream_addrs config)" using arg_cong [OF s(2), of length] by simp
  ultimately show ?thesis using c(1) s(1) by (auto simp: proxy_ok_def pool_ok_def list_all_iff)
qed

theorem pools_bounded_witness:
  "\<exists>config. from_env two_sockets = Some config \<and> length (upstreams (shared accepted_state)) = length (upstream_addrs config) \<and>
    (\<forall>pool \<in> set (upstreams (shared accepted_state)). max_idle pool = pool_size config \<and>
      length (idle_conns pool) \<le> pool_size config)"
  by (rule pools_bounded [OF two_sockets_start accepted_reachable])

text \<open>C16: a message is cut out of a connection by its bytes alone, however they arrive: it is read exactly when
  its header and the announced length are there, with as few reads as hold it; what comes in the last read behind
  the message goes with it.\<close>

theorem messages_by_their_bytes:
  assumes "[] \<notin> set (pieces st)"
  shows "case read_http_message st of
      Message out st' \<Rightarrow> closes st' = closes st \<and>
        (\<exists>m. message_size (concat (pieces st)) = Some m \<and> fewest_pieces (pieces st) m out (pieces st'))
    | NoMessage \<Rightarrow> \<not> complete (concat (pieces st))
    | ReadError \<Rightarrow> \<not> complete (concat (pieces st))"
  using read_http_message_spec [OF assms] .

theorem messages_by_their_bytes_witness:
  "\<exists>m. message_size (concat (pieces first_client)) = Some m \<and>
     fewest_pieces (pieces first_client) m (call_of ''A'' @ call_of ''B'') []"
  using messages_by_their_bytes [of first_client] by (simp add: first_client_reads) (simp add: first_client_def call_of_def)

text \<open>C17: a request tries the upstreams in order from the balancer's choice, each of them once: the first that
  answers gives the response and those behind it are left alone, those before it lose their idle connections, and the
  request fails only when every one has failed.\<close>

theorem upstreams_tried_once:
  assumes "balanced p" "forward_with_retry request p = (r, p')"
  shows "distinct (try_order p) \<and> set (try_order p) = {..<length (upstreams p)} \<and>
    tried request (upstreams p) (try_order p) r (upstreams p') \<and> balanced p'"
proof -
  have "upstreams p \<noteq> []" using assms(1) by (simp add: balanced_def)
  with distinct_try_order [OF this] forward_with_retry_tried [OF assms(2,1)] show ?thesis by blast
qed

theorem upstreams_tried_once_witness:
  "distinct (try_order one_proxy) \<and>
   tried (call_of ''C'') (upstreams one_proxy) (try_order one_proxy) (fst (forward_with_retry (call_of ''C'') one_proxy))
     (upstreams (snd (forward_with_retry (call_of ''C'') one_proxy)))"
proof -
  obtain r p' where f: "forward_with_retry (call_of ''C'') one_proxy = (r, p')" by fastforce
  from upstreams_tried_once [OF one_proxy_ok(1) f] f show ?thesis by simp
qed

text \<open>Serving a client keeps every pool of idle connections within its bound.\<close>

theorem idle_connections_bounded:
  assumes "proxy_ok p" "handle_client write_ok n client p = (responses, p')"
  shows "proxy_ok p' \<and> map max_idle (upstreams p') = map max_idle (upstreams p)"
  using handle_client_ok [OF assms(2,1)] .

theorem idle_connections_bounded_witness:
  "proxy_ok (snd (handle_client (\<lambda>k. True) 0 first_client one_proxy))"
proof -
  obtain rs p' where f: "handle_client (\<lambda>k. True) 0 first_client one_proxy = (rs, p')" by fastforce
  from idle_connections_bounded [OF one_proxy_ok(2) f] f show ?thesis by simp
qed

text \<open>C18: the round robin is fair: in any number of rounds every upstream is chosen once a round, as long as
  the counter does not wrap around, and for ever when the number of upstreams divides its range (two do).\<close>

theorem round_robin_fair:
  assumes "new_RoundRobin (of_nat c) = Some rr" "c < 2 ^ 64" "m * c \<le> 2 ^ 64 \<or> c dvd 2 ^ 64" "j < c"
  shows "count_list (rr_choices rr (m * c)) j = m"
proof -
  have c: "unat (of_nat c :: u64) = c" using assms(2) by (simp add: unsigned_of_nat take_bit_nat_eq_self)
  have rr: "upstream_count rr = of_nat c" "next_upstream rr = 0" "0 < upstream_count rr"
    using assms(1) by (auto simp: new_RoundRobin_def split: if_splits)
  have "rr_choices rr (m * c) = map (\<lambda>i. i mod c) [0..<m * c]"
    using rr_choices_mod [OF rr(3), of "m * c"] assms(3) by (simp add: rr(1,2) c)
  with rounds_count [OF assms(4)] show ?thesis by simp
qed

theorem round_robin_fair_witness:
  "count_list (rr_choices \<lparr>upstream_count = 2, next_upstream = 0\<rparr> 6) 1 = 3"
  using round_robin_fair [of 2 "\<lparr>upstream_count = 2, next_upstream = 0\<rparr>" 3 1] by (simp add: new_RoundRobin_def)

section \<open>Defects\<close>

text \<open>C37: a repair scans clusters without marking them, so the wider probe of the approval rule scans them again. With
  exact scans, when an ambiguous count is repaired and the approval rule (without the late denial) applies: every row of the
  rescanned clusters with at most one row of the index before it, which is one row of the index, holds two of the five
  places that the answer counts.\<close>

theorem repaired_rows_counted_twice:
  assumes "search_ok useAVX2 idx q" "exact_scans useAVX2 idx" "boxes_ok idx" "distinct_ids idx" "0 < NProbe (IVF idx)"
    and "Repair (IVF idx)" "first_ambiguous idx q" "5 \<le> length (probed_cands idx q (deciding_probes idx q))"
    and "frauds_of (all_cands idx q) < 3" "needsApprovalRepair q" "\<not> needsKnownLateDenialRepair q"
    and "r \<in> set (more_rows idx q)" "length (filter (\<lambda>c. rank_of c < rank_of r) (all_cands idx q)) \<le> 1"
  shows "searchIVF useAVX2 idx q = Some (length (filter cfraud (top5 (all_cands idx q @ more_rows idx q)))) \<and>
    count_list (top5 (all_cands idx q @ more_rows idx q)) r = 2 \<and> count_list (all_cands idx q) r = 1"
  using repaired_then_widened [OF assms(1-11)] rows_twice [OF assms(1,4,12,13)] by blast

theorem repaired_rows_counted_twice_witness:
  "count_list (top5 (all_cands (two_clusters True) q_approval @ more_rows (two_clusters True) q_approval)) twice_row = 2 \<and>
   count_list (all_cands (two_clusters True) q_approval) twice_row = 1 \<and>
   searchIVF True (two_clusters True) q_approval = Some 3 \<and> frauds_of (all_cands (two_clusters True) q_approval) = 2"
proof -
  have run: "searchIVF True (two_clusters True) q_approval = Some 3" "frauds_of (all_cands (two_clusters True) q_approval) = 2"
    by code_simp+
  then have few: "frauds_of (all_cands (two_clusters True) q_approval) < 3" by simp
  from repaired_rows_counted_twice [OF samples_ok(1) sample_scans(1) two_clusters_boxes sample_ids(1) approval_searched
      few approval_rule twice_row_more] run
  show ?thesis by blast
qed

text \<open>C38: a row that is farther away than the fifth distance is let in by the scalar scans exactly when a partial sum of
  its squared distance, in the order of the dimensions, equals the fifth distance and its id is smaller than the fifth
  one: the early exit then returns the fifth distance and the row is taken for a tie. It is then one of the five, at that
  distance; with its exact distance it is not.\<close>

theorem early_exit_admits_far_row:
  assumes "state_inv s" "length ref = Dimensions" "row < length labels" "bestDist s ! 4 < sqdist q ref"
  shows "\<exists>d t. quantizedDistance q ref (bestDist s ! 4) = Some d \<and> offer_row labels origID row d s = Some t \<and>
    (entries t \<noteq> entries s \<longleftrightarrow> partial_sum_hits q ref (bestDist s ! 4) \<and> origID < bestID s ! 4) \<and>
    (entries t \<noteq> entries s \<longrightarrow> Cand (bestDist s ! 4) origID (labels ! row = 1) \<in> set (entries t)) \<and>
    offer_row labels origID row (sqdist q ref) s = Some s"
  using assms by (rule far_row_offered)

theorem early_exit_admits_far_row_witness:
  "(\<exists>d t. quantizedDistance q_zero far_row 100 = Some d \<and> offer_row [1] 3 0 d five_rows = Some t \<and>
      Cand 100 3 True \<in> set (entries t)) \<and> offer_row [1] 3 0 200 five_rows = Some five_rows \<and>
   searchIVF False one_cluster q_zero = Some 1 \<and> searchIVF True one_cluster q_zero = Some 0 \<and>
   frauds_of (all_cands one_cluster q_zero) = 0"
proof -
  have run: "searchIVF False one_cluster q_zero = Some 1" "searchIVF True one_cluster q_zero = Some 0"
    "frauds_of (all_cands one_cluster q_zero) = 0" by code_simp+
  have far: "0 < length [1 :: u8]" "bestDist five_rows ! 4 < sqdist q_zero far_row" using five_rows_parts by simp_all
  from early_exit_admits_far_row [OF five_rows_inv five_rows_parts(1) far, where origID = 3] run far_row_hits show ?thesis
    by (auto simp: five_rows_parts)
qed

text \<open>C40: bytes that arrive behind a request are forwarded with it. When one read returns two requests of a client
  and the only upstream, on a new connection, answers them with two responses in pieces of their own: the client gets the first response
  only, the second stays on the pooled connection, and the next client gets it instead of the response to its own
  request, whatever that is.\<close>

theorem response_given_to_another_client:
  assumes "upstreams p = [pool]" "idle_conns pool = []" "accepts_next pool = Some c # cs" "0 < max_idle pool"
    and "conn_writable c" "pieces (incoming c) = []" "reacts c (sent c @ [r1 @ r2]) = [a1, a2]"
    and "[] \<notin> set (reacts c (sent c @ [r1 @ r2, r3]))" "whole a1" "whole a2" "a1 \<noteq> []" "a2 \<noteq> []"
    and "whole r1" "r1 \<noteq> []" "whole r3" "r3 \<noteq> []"
  shows "\<exists>p' p''. handle_client (\<lambda>k. True) n \<lparr>pieces = [r1 @ r2], closes = True\<rparr> p = ([a1], p') \<and>
    handle_client (\<lambda>k. True) m \<lparr>pieces = [r3], closes = True\<rparr> p' = ([a2], p'')"
  using assms by (rule left_over_response)

theorem response_given_to_another_client_witness:
  "\<exists>p' p''. handle_client (\<lambda>k. True) 0 first_client one_proxy = ([reply_of ''1''], p') \<and>
    handle_client (\<lambda>k. True) 0 second_client p' = ([reply_of ''2''], p'')"
  unfolding first_client_def second_client_def
  by (rule response_given_to_another_client [where c = fresh_conn and pool = two_replies and cs = "[]"])
    (simp_all add: one_proxy_def two_replies_def fresh_conn_def digits_react reply_nonempty reply_nonempty [symmetric] sample_messages)

text \<open>C39: one error of \<open>accept\<close>, or of the socket option of one accepted client, ends the whole balancer: it is the last
  event of every run, and the clients in work keep what they had. Here a client gets no response although its request
  can be answered.\<close>

theorem accept_error_drops_every_client:
  assumes "foldM (lb_event_step offers) (es @ e # fs) s0 = Some s" "ends_serving e"
  shows "fs = [] \<and> \<not> running s \<and> (\<exists>t. foldM (lb_event_step offers) es s0 = Some t \<and> tasks s = tasks t)"
  using assms by (rule ends_serving_last)

theorem accept_error_drops_every_client_witness:
  "\<exists>s. foldM (lb_event_step socket_offers) ([Accept 0 True, Accept 1 True] @ [AcceptFailed]) two_socket_state = Some s \<and>
    \<not> running s \<and> stage (tasks s 0) = AwaitingRequest \<and> replies (tasks s 0) = []"
proof -
  obtain s where s: "foldM (lb_event_step socket_offers) ([Accept 0 True, Accept 1 True] @ [AcceptFailed]) two_socket_state = Some s"
    using accepted_run accepted_parts(1) by (simp only: foldM_append) (simp add: lb_event_step_def)
  from accept_error_drops_every_client [OF s, unfolded ends_serving_def] accepted_run accepted_parts(2,4) s
  show ?thesis by auto
qed

end
